(* ===== verification/Prelude.thy ===== *)
theory Prelude
  imports Main "HOL-Library.Word" "HOL-Library.Multiset"
begin

text \<open>
  Shared vocabulary of the development: the machine types of the Go sources, and the
  generic facts on lists, maps and words that more than one component needs.

  Go's unsigned integers are words read with \<open>unat\<close>; \<open>int32\<close> is the same word read with
  \<open>sint\<close>. A Go \<open>string\<close> or \<open>[]byte\<close> is a list of bytes: \<open>string\<close> (HOL's \<open>char\<close> is a byte)
  for the text protocols, \<open>byte list\<close> for the binary ones.
\<close>

type_synonym byte = "8 word"
type_synonym uint8 = "8 word"
type_synonym uint16 = "16 word"
type_synonym uint32 = "32 word"
type_synonym int32 = "32 word"
type_synonym int64 = "64 word"


section \<open>Counters\<close>

lemma word_less_inc: "x + 1 \<noteq> 0 \<Longrightarrow> x < x + 1" for x :: "'a::len word"
  using unatSuc [of x] by (simp add: word_less_nat_alt add.commute)

section \<open>Swapping two positions of a list\<close>

text \<open>The effect of Go's parallel assignment \<open>a[i], a[j] = a[j], a[i]\<close>.\<close>

definition list_swap :: "'a list \<Rightarrow> nat \<Rightarrow> nat \<Rightarrow> 'a list" where
  "list_swap xs i j = xs[i := xs ! j, j := xs ! i]"

lemma length_list_swap [simp]: "length (list_swap xs i j) = length xs"
  by (simp add: list_swap_def)

lemma mset_list_swap [simp]:
  "i < length xs \<Longrightarrow> j < length xs \<Longrightarrow> mset (list_swap xs i j) = mset xs"
  by (simp add: list_swap_def mset_swap)

lemma set_list_swap [simp]:
  "i < length xs \<Longrightarrow> j < length xs \<Longrightarrow> set (list_swap xs i j) = set xs"
  by (metis mset_list_swap set_mset_mset)

lemma distinct_list_swap [simp]:
  "i < length xs \<Longrightarrow> j < length xs \<Longrightarrow> distinct (list_swap xs i j) = distinct xs"
  by (simp add: list_swap_def)

lemma nth_list_swap:
  "i < length xs \<Longrightarrow> j < length xs \<Longrightarrow> k < length xs \<Longrightarrow>
   list_swap xs i j ! k = (if k = j then xs ! i else if k = i then xs ! j else xs ! k)"
  by (simp add: list_swap_def nth_list_update)

lemma map_list_swap:
  "i < length xs \<Longrightarrow> j < length xs \<Longrightarrow> map f (list_swap xs i j) = list_swap (map f xs) i j"
  by (simp add: list_swap_def map_update)

section \<open>Invariants of event-driven components\<close>

text \<open>
  A component that reacts to events (requests, datagrams, connection changes) is a step
  function; its runs are folds. The locale states once that an invariant of the steps is an
  invariant of every run, also when the step is only guaranteed for admissible events.
\<close>

fun run_events :: "('e \<Rightarrow> 's \<Rightarrow> 's) \<Rightarrow> 'e list \<Rightarrow> 's \<Rightarrow> 's" where
  "run_events step [] s = s"
| "run_events step (e # es) s = run_events step es (step e s)"

fun admissible_run :: "('e \<Rightarrow> 's \<Rightarrow> 's) \<Rightarrow> ('e \<Rightarrow> 's \<Rightarrow> bool) \<Rightarrow> 'e list \<Rightarrow> 's \<Rightarrow> bool" where
  "admissible_run step ok [] s = True"
| "admissible_run step ok (e # es) s = (ok e s \<and> admissible_run step ok es (step e s))"

locale event_system =
  fixes step :: "'e \<Rightarrow> 's \<Rightarrow> 's"
    and ok :: "'e \<Rightarrow> 's \<Rightarrow> bool"
    and invariant :: "'s \<Rightarrow> bool"
  assumes step_invariant: "invariant s \<Longrightarrow> ok e s \<Longrightarrow> invariant (step e s)"
begin

lemma run_invariant:
  "invariant s \<Longrightarrow> admissible_run step ok es s \<Longrightarrow> invariant (run_events step es s)"
  by (induction es arbitrary: s) (auto intro: step_invariant)

end

lemma run_events_append:
  "run_events step (es @ fs) s = run_events step fs (run_events step es s)"
  by (induction es arbitrary: s) auto

lemma admissible_run_append:
  "admissible_run step ok (es @ fs) s \<longleftrightarrow>
   admissible_run step ok es s \<and> admissible_run step ok fs (run_events step es s)"
  by (induction es arbitrary: s) auto

lemma run_events_map:
  "run_events step (map f es) s = run_events (\<lambda>e. step (f e)) es s"
  by (induction es arbitrary: s) auto

section \<open>Lines of a byte stream\<close>

text \<open>
  The reference for every reader that cuts a stream at line feeds: the complete lines, without
  their terminator, and the unterminated rest. \<open>lines_from nl acc\<close> continues a line begun by \<open>acc\<close>.
\<close>

fun lines_from :: "'a \<Rightarrow> 'a list \<Rightarrow> 'a list \<Rightarrow> 'a list list \<times> 'a list" where
  "lines_from nl acc [] = ([], acc)"
| "lines_from nl acc (x # xs) =
     (if x = nl then (acc # fst (lines_from nl [] xs), snd (lines_from nl [] xs))
      else lines_from nl (acc @ [x]) xs)"

abbreviation split_lines :: "'a \<Rightarrow> 'a list \<Rightarrow> 'a list list \<times> 'a list" where
  "split_lines nl \<equiv> lines_from nl []"

lemma lines_from_plain: "nl \<notin> set xs \<Longrightarrow> lines_from nl acc (xs @ ys) = lines_from nl (acc @ xs) ys"
  by (induction xs arbitrary: acc) auto

lemma lines_from_line:
  "nl \<notin> set xs \<Longrightarrow>
   lines_from nl acc (xs @ nl # ys) = ((acc @ xs) # fst (split_lines nl ys), snd (split_lines nl ys))"
  by (simp add: lines_from_plain)

lemma lines_from_append:
  "lines_from nl acc (xs @ ys) =
   (fst (lines_from nl acc xs) @ fst (lines_from nl (snd (lines_from nl acc xs)) ys),
    snd (lines_from nl (snd (lines_from nl acc xs)) ys))"
  by (induction xs arbitrary: acc) auto

lemma lines_from_first:
  "nl \<in> set xs \<Longrightarrow> lines_from nl acc xs =
   ((acc @ takeWhile (\<lambda>b. b \<noteq> nl) xs) # fst (split_lines nl (tl (dropWhile (\<lambda>b. b \<noteq> nl) xs))),
    snd (split_lines nl (tl (dropWhile (\<lambda>b. b \<noteq> nl) xs))))"
  by (induction xs arbitrary: acc) auto

lemma lines_from_none: "nl \<notin> set xs \<Longrightarrow> lines_from nl acc xs = ([], acc @ xs)"
  using lines_from_plain [of nl xs acc "[]"] by simp

lemma lines_from_terminated:
  "\<forall>l\<in>set ls. nl \<notin> set l \<Longrightarrow> nl \<notin> set r \<Longrightarrow>
   split_lines nl (concat (map (\<lambda>l. l @ [nl]) ls) @ r) = (ls, r)"
  by (induction ls) (auto simp: lines_from_line lines_from_none)

lemma lines_from_rest: "nl \<notin> set acc \<Longrightarrow> nl \<notin> set (snd (lines_from nl acc xs))"
  by (induction xs arbitrary: acc) auto

lemma lines_from_lines: "nl \<notin> set acc \<Longrightarrow> l \<in> set (fst (lines_from nl acc xs)) \<Longrightarrow> nl \<notin> set l"
proof (induction xs arbitrary: acc)
  case (Cons x xs)
  then show ?case using Cons.IH [of "[]"] Cons.IH [of "acc @ [x]"] by (cases "x = nl") auto
qed simp

lemma concat_lines_from:
  "concat (map (\<lambda>l. l @ [nl]) (fst (lines_from nl acc xs))) @ snd (lines_from nl acc xs) = acc @ xs"
  by (induction xs arbitrary: acc) auto

abbreviation newline :: char where
  "newline \<equiv> CHR 0x0A"

abbreviation before_nl :: "string \<Rightarrow> string" where
  "before_nl \<equiv> takeWhile (\<lambda>b. b \<noteq> newline)"

abbreviation after_nl :: "string \<Rightarrow> string" where
  "after_nl s \<equiv> tl (dropWhile (\<lambda>b. b \<noteq> newline) s)"

lemma drop_before_nl: "drop (Suc (length (before_nl s))) s = after_nl s"
  by (simp add: dropWhile_eq_drop drop_Suc tl_drop)

lemma before_after_append:
  "newline \<in> set xs \<Longrightarrow> before_nl (xs @ ys) = before_nl xs \<and> after_nl (xs @ ys) = after_nl xs @ ys"
  "newline \<notin> set xs \<Longrightarrow> before_nl (xs @ ys) = xs @ before_nl ys \<and> after_nl (xs @ ys) = after_nl ys"
  by (induction xs) auto

lemma before_nl_id: "newline \<notin> set xs \<Longrightarrow> before_nl xs = xs"
  by (induction xs) auto

lemma length_after_nl: "length (after_nl xs) \<le> length xs"
  using length_dropWhile_le [of "\<lambda>b. b \<noteq> newline" xs] by simp

lemma first_line:
  "newline \<in> set s \<Longrightarrow> lines_from newline acc s =
   ((acc @ before_nl s) # fst (split_lines newline (after_nl s)), snd (split_lines newline (after_nl s)))"
  by (induction s arbitrary: acc) auto

lemma no_line: "newline \<notin> set s \<Longrightarrow> fst (lines_from newline acc s) = []"
  by (induction s arbitrary: acc) auto

end
