(* ===== verification/Go_Heap.thy ===== *)
theory Go_Heap
  imports Prelude
begin

text \<open>
  Go's \<open>container/heap\<close>, the library the job queues are built on. A value of Go's
  \<open>heap.Interface\<close> is a record of its five methods over a state \<open>'h\<close>; the functions of the
  package are translated over it, one definition each. The locale \<open>heap_provider\<close> is the
  contract between the package and a type that implements the interface: what each method
  does to the sequence of elements. Inside it the package is proved correct once:
  \<open>Push\<close>, \<open>Pop\<close> and \<open>Remove\<close> keep the heap order and change the multiset of elements by
  exactly one element, and a popped element has no smaller one in the heap.
\<close>

record ('h, 'x) heap_Interface =
  Len :: "'h \<Rightarrow> nat"
  Less :: "'h \<Rightarrow> nat \<Rightarrow> nat \<Rightarrow> bool"
  Swap :: "'h \<Rightarrow> nat \<Rightarrow> nat \<Rightarrow> 'h"
  Push :: "'h \<Rightarrow> 'x \<Rightarrow> 'h"
  Pop :: "'h \<Rightarrow> 'h \<times> 'x"

definition parent :: "nat \<Rightarrow> nat" where
  "parent j = (j - 1) div 2"

lemma parent_less: "0 < j \<Longrightarrow> parent j < j"
  by (simp add: parent_def)

lemma parent_bound [simp]: "k < n \<Longrightarrow> parent k < n"
  by (simp add: parent_def)

lemma parent_not_greater [simp]: "\<not> k < parent k"
  by (simp add: parent_def)

lemma no_child: "0 < k \<Longrightarrow> k \<le> i \<Longrightarrow> parent k \<noteq> i"
  using parent_less [of k] by simp

lemma parent_eq_iff: "parent j = j \<longleftrightarrow> j = 0"
  using parent_less [of j] by (auto simp: parent_def)

lemma child_cases: "0 < k \<Longrightarrow> parent k = i \<longleftrightarrow> k = 2 * i + 1 \<or> k = 2 * i + 2"
  by (simp add: parent_def) linarith

function heap_up :: "('h, 'x) heap_Interface \<Rightarrow> 'h \<Rightarrow> nat \<Rightarrow> 'h" where
  "heap_up I h j =
     (let i = parent j in
      if i = j \<or> \<not> Less I h j i then h else heap_up I (Swap I h i j) i)"
  by pat_completeness auto
termination
  by (relation "measure (\<lambda>(I, h, j). j)") (auto simp: parent_eq_iff intro: parent_less)

definition down_child :: "('h, 'x) heap_Interface \<Rightarrow> 'h \<Rightarrow> nat \<Rightarrow> nat \<Rightarrow> nat" where
  "down_child I h i n =
     (let j1 = 2 * i + 1; j2 = j1 + 1 in if j2 < n \<and> Less I h j2 j1 then j2 else j1)"

lemma down_child_greater: "i < down_child I h i n"
  by (simp add: down_child_def Let_def)

function heap_down_loop :: "('h, 'x) heap_Interface \<Rightarrow> 'h \<Rightarrow> nat \<Rightarrow> nat \<Rightarrow> 'h \<times> nat" where
  "heap_down_loop I h i n =
     (if n \<le> 2 * i + 1 then (h, i)
      else let j = down_child I h i n in
           if \<not> Less I h j i then (h, i) else heap_down_loop I (Swap I h i j) j n)"
  by pat_completeness auto
termination
  by (relation "measure (\<lambda>(I, h, i, n). n - i)") (auto simp: diff_less_mono2 down_child_greater)

declare heap_up.simps [simp del] heap_down_loop.simps [simp del]

definition heap_down :: "('h, 'x) heap_Interface \<Rightarrow> 'h \<Rightarrow> nat \<Rightarrow> nat \<Rightarrow> 'h \<times> bool" where
  "heap_down I h i0 n = (case heap_down_loop I h i0 n of (h', i) \<Rightarrow> (h', i0 < i))"

fun heap_Init_loop :: "('h, 'x) heap_Interface \<Rightarrow> 'h \<Rightarrow> nat \<Rightarrow> nat \<Rightarrow> 'h" where
  "heap_Init_loop I h n 0 = h"
| "heap_Init_loop I h n (Suc i) = heap_Init_loop I (fst (heap_down I h i n)) n i"

definition heap_Init :: "('h, 'x) heap_Interface \<Rightarrow> 'h \<Rightarrow> 'h" where
  "heap_Init I h = heap_Init_loop I h (Len I h) (Len I h div 2)"

definition heap_Push :: "('h, 'x) heap_Interface \<Rightarrow> 'h \<Rightarrow> 'x \<Rightarrow> 'h" where
  "heap_Push I h x = (let h' = Push I h x in heap_up I h' (Len I h' - 1))"

definition heap_Pop :: "('h, 'x) heap_Interface \<Rightarrow> 'h \<Rightarrow> 'h \<times> 'x" where
  "heap_Pop I h =
     (let n = Len I h - 1; h1 = Swap I h 0 n; h2 = fst (heap_down I h1 0 n) in Pop I h2)"

definition heap_Remove :: "('h, 'x) heap_Interface \<Rightarrow> 'h \<Rightarrow> nat \<Rightarrow> 'h \<times> 'x" where
  "heap_Remove I h i =
     (let n = Len I h - 1 in
      if n \<noteq> i then
        let h1 = Swap I h i n; (h2, moved) = heap_down I h1 i n in
        Pop I (if \<not> moved then heap_up I h2 i else h2)
      else Pop I h)"

section \<open>Heap order on the first positions of a list\<close>

definition edge_ok :: "('a \<Rightarrow> 'a \<Rightarrow> bool) \<Rightarrow> 'a list \<Rightarrow> nat \<Rightarrow> bool" where
  "edge_ok lt xs k \<longleftrightarrow> \<not> lt (xs ! k) (xs ! parent k)"

definition heap_ordered :: "('a \<Rightarrow> 'a \<Rightarrow> bool) \<Rightarrow> nat \<Rightarrow> 'a list \<Rightarrow> bool" where
  "heap_ordered lt n xs \<longleftrightarrow> (\<forall>k<n. 0 < k \<longrightarrow> edge_ok lt xs k)"

text \<open>
  Position \<open>i\<close> is a hole: every edge that does not touch it is in order, and the edges from its
  children to its parent would be.
\<close>

definition hole :: "('a \<Rightarrow> 'a \<Rightarrow> bool) \<Rightarrow> nat \<Rightarrow> nat \<Rightarrow> 'a list \<Rightarrow> bool" where
  "hole lt i n xs \<longleftrightarrow>
     (\<forall>k<n. 0 < k \<longrightarrow> k \<noteq> i \<longrightarrow> parent k \<noteq> i \<longrightarrow> edge_ok lt xs k) \<and>
     (\<forall>k<n. 0 < k \<longrightarrow> 0 < i \<longrightarrow> parent k = i \<longrightarrow> \<not> lt (xs ! k) (xs ! parent i))"

definition children_ok :: "('a \<Rightarrow> 'a \<Rightarrow> bool) \<Rightarrow> nat \<Rightarrow> nat \<Rightarrow> 'a list \<Rightarrow> bool" where
  "children_ok lt i n xs \<longleftrightarrow> (\<forall>k<n. 0 < k \<longrightarrow> parent k = i \<longrightarrow> edge_ok lt xs k)"

section \<open>The contract of an implementation of the interface\<close>

locale heap_provider =
  fixes I :: "('h, 'x) heap_Interface"
    and elems :: "'h \<Rightarrow> 'x list"
    and fresh :: "'h \<Rightarrow> 'x \<Rightarrow> bool"
    and invar :: "'h \<Rightarrow> bool"
    and lt :: "'x \<Rightarrow> 'x \<Rightarrow> bool"
  assumes lt_asym: "lt a b \<Longrightarrow> \<not> lt b a"
    and lt_negtrans: "\<not> lt a b \<Longrightarrow> \<not> lt b c \<Longrightarrow> \<not> lt a c"
    and Len_elems: "invar h \<Longrightarrow> Len I h = length (elems h)"
    and Less_elems: "invar h \<Longrightarrow> i < length (elems h) \<Longrightarrow> j < length (elems h) \<Longrightarrow>
      Less I h i j \<longleftrightarrow> lt (elems h ! i) (elems h ! j)"
    and elems_Swap: "invar h \<Longrightarrow> i < length (elems h) \<Longrightarrow> j < length (elems h) \<Longrightarrow>
      elems (Swap I h i j) = list_swap (elems h) i j"
    and invar_Swap: "invar h \<Longrightarrow> i < length (elems h) \<Longrightarrow> j < length (elems h) \<Longrightarrow>
      invar (Swap I h i j)"
    and elems_Push: "invar h \<Longrightarrow> fresh h x \<Longrightarrow> elems (Push I h x) = elems h @ [x]"
    and invar_Push: "invar h \<Longrightarrow> fresh h x \<Longrightarrow> invar (Push I h x)"
    and elems_Pop: "invar h \<Longrightarrow> elems h \<noteq> [] \<Longrightarrow> elems (fst (Pop I h)) = butlast (elems h)"
    and snd_Pop: "invar h \<Longrightarrow> elems h \<noteq> [] \<Longrightarrow> snd (Pop I h) = last (elems h)"
    and invar_Pop: "invar h \<Longrightarrow> elems h \<noteq> [] \<Longrightarrow> invar (fst (Pop I h))"
begin

abbreviation "edge \<equiv> edge_ok lt"

lemmas edge_defs = edge_ok_def hole_def children_ok_def heap_ordered_def

lemma hole_done:
  "hole lt i n xs \<Longrightarrow> children_ok lt i n xs \<Longrightarrow> (0 < i \<Longrightarrow> i < n \<Longrightarrow> edge xs i) \<Longrightarrow> heap_ordered lt n xs"
  unfolding hole_def children_ok_def heap_ordered_def by blast

text \<open>One iteration of \<open>up\<close>: the hole moves to the parent.\<close>

lemma hole_up_step:
  assumes "hole lt j n xs" "children_ok lt j n xs" "0 < j" "j < n" "n \<le> length xs"
    and "lt (xs ! j) (xs ! parent j)"
  defines "i \<equiv> parent j"
  shows "hole lt i n (list_swap xs i j) \<and> children_ok lt i n (list_swap xs i j)"
proof -
  let ?ys = "list_swap xs i j"
  have ij: "i < j" using assms parent_less by simp
  have nth: "?ys ! k = (if k = j then xs ! i else if k = i then xs ! j else xs ! k)" if "k < n" for k
    using that ij assms(4,5) by (simp add: nth_list_swap)
  have ge: "\<not> lt (xs ! k) (xs ! i)" if "k < n" "0 < k" "parent k = i" "k \<noteq> j" for k
    using assms(1,3) that ij by (auto simp: hole_def edge_ok_def i_def parent_eq_iff)
  have lt_ji: "lt (xs ! j) (xs ! i)" using assms by simp
  have kids: "\<not> lt (?ys ! k) (?ys ! i)" if "k < n" "0 < k" "parent k = i" for k
  proof (cases "k = j")
    case True
    then show ?thesis using that ij assms(4) lt_ji lt_asym by (simp add: nth)
  next
    case False
    have "\<not> lt (xs ! k) (xs ! j)"
      using lt_negtrans [OF ge [OF that False] lt_asym [OF lt_ji]] .
    moreover have "k \<noteq> i" using that(2,3) parent_less [of k] by simp
    ultimately show ?thesis using that ij assms(4) False by (simp add: nth)
  qed
  have grand: "\<not> lt (?ys ! k) (?ys ! parent i)" if "k < n" "0 < k" "0 < i" "parent k = i" for k
  proof -
    have pi: "parent i < i" using that parent_less by simp
    have ei: "\<not> lt (xs ! i) (xs ! parent i)"
      using assms(1,4) that ij pi by (auto simp: hole_def edge_ok_def)
    show ?thesis
    proof (cases "k = j")
      case True
      then show ?thesis using ei that pi ij assms(4) by (simp add: nth)
    next
      case False
      have "\<not> lt (xs ! k) (xs ! parent i)" using lt_negtrans [OF ge ei] that False by blast
      moreover have "k \<noteq> i" using that(2,4) parent_less [of k] by simp
      ultimately show ?thesis using that pi ij assms(4) False by (simp add: nth)
    qed
  qed
  have other: "edge ?ys k" if "k < n" "0 < k" "k \<noteq> i" "parent k \<noteq> i" for k
  proof -
    have kj: "k \<noteq> j" using that i_def by auto
    have pk: "parent k < n" using that parent_less [of k] by simp
    show ?thesis
    proof (cases "parent k = j")
      case True
      then have "\<not> lt (xs ! k) (xs ! i)" using assms(1,3) that i_def by (auto simp: hole_def)
      then show ?thesis using True that kj assms(4) by (simp add: edge_ok_def nth)
    next
      case False
      then have "edge xs k" using assms(1) that kj by (auto simp: hole_def)
      then show ?thesis using False that kj pk by (simp add: edge_ok_def nth)
    qed
  qed
  show ?thesis using kids grand other by (auto simp: hole_def children_ok_def edge_ok_def)
qed

text \<open>One iteration of \<open>down\<close>: the smaller child \<open>j\<close> moves up, the hole moves to its place.\<close>

lemma hole_down_step:
  assumes "hole lt i n xs" "j < n" "0 < j" "parent j = i" "n \<le> length xs"
    and small: "\<And>k. k < n \<Longrightarrow> 0 < k \<Longrightarrow> parent k = i \<Longrightarrow> \<not> lt (xs ! k) (xs ! j)"
    and "lt (xs ! j) (xs ! i)"
  shows "hole lt j n (list_swap xs i j) \<and> edge (list_swap xs i j) j"
proof -
  let ?ys = "list_swap xs i j"
  have ij: "i < j" using assms parent_less by blast
  have nth: "?ys ! k = (if k = j then xs ! i else if k = i then xs ! j else xs ! k)" if "k < n" for k
    using that ij assms(2,5) by (simp add: nth_list_swap)
  have e_j: "edge ?ys j" using assms ij lt_asym by (simp add: edge_ok_def nth)
  have other: "edge ?ys k" if "k < n" "0 < k" "k \<noteq> j" "parent k \<noteq> j" for k
  proof -
    have pk: "parent k < n" "parent k < k" using that parent_less [of k] by auto
    consider "k = i" | "parent k = i" | "k \<noteq> i" "parent k \<noteq> i" by blast
    then show ?thesis
    proof cases
      case 1
      then have "\<not> lt (xs ! j) (xs ! parent i)" using assms that by (auto simp: hole_def)
      then show ?thesis using 1 that pk ij by (simp add: edge_ok_def nth)
    next
      case 2
      then show ?thesis using small [of k] that pk ij by (simp add: edge_ok_def nth)
    next
      case 3
      then have "edge xs k" using assms(1) that by (auto simp: hole_def)
      then show ?thesis using 3 that pk by (simp add: edge_ok_def nth)
    qed
  qed
  have grand: "\<not> lt (?ys ! k) (?ys ! parent j)" if "k < n" "0 < k" "parent k = j" for k
  proof -
    have "k \<noteq> i" "k \<noteq> j" using that ij parent_less [of k] by auto
    moreover have "edge xs k" using assms(1) that ij \<open>k \<noteq> i\<close> by (auto simp: hole_def)
    ultimately show ?thesis using that assms(2,4) ij by (simp add: edge_ok_def nth)
  qed
  show ?thesis using e_j other grand by (auto simp: hole_def)
qed

text \<open>
  What \<open>up\<close> and \<open>down\<close> may do to the elements: permute the first \<open>n\<close>, keep the rest in place.
\<close>

definition rearranged :: "nat \<Rightarrow> 'h \<Rightarrow> 'h \<Rightarrow> bool" where
  "rearranged n h h' \<longleftrightarrow>
     invar h' \<and> mset (elems h') = mset (elems h) \<and> drop n (elems h') = drop n (elems h)"

lemma rearranged_refl: "invar h \<Longrightarrow> rearranged n h h"
  by (simp add: rearranged_def)

lemma rearranged_trans: "rearranged n h h' \<Longrightarrow> rearranged n h' h'' \<Longrightarrow> rearranged n h h''"
  by (simp add: rearranged_def)

lemma rearranged_Swap:
  assumes "invar h" "i < n" "j < n" "n \<le> length (elems h)"
  shows "rearranged n h (Swap I h i j)"
proof -
  have "drop n (list_swap (elems h) i j) = drop n (elems h)"
    using assms by (simp add: list_swap_def drop_update_cancel)
  then show ?thesis using assms by (simp add: rearranged_def elems_Swap invar_Swap)
qed

lemma rearranged_length: "rearranged n h h' \<Longrightarrow> length (elems h') = length (elems h)"
  unfolding rearranged_def by (metis size_mset)

lemma heap_up_correct:
  assumes "invar h" "j < n" "n \<le> length (elems h)"
    and "hole lt j n (elems h)" "children_ok lt j n (elems h)"
  shows "rearranged n h (heap_up I h j) \<and> heap_ordered lt n (elems (heap_up I h j))"
  using assms
proof (induction j arbitrary: h rule: less_induct)
  case (less j)
  let ?i = "parent j"
  have Less_j: "Less I h j ?i \<longleftrightarrow> lt (elems h ! j) (elems h ! ?i)" if "?i \<noteq> j"
    using less.prems that parent_less [of j] by (intro Less_elems) (auto simp: parent_eq_iff)
  show ?case
  proof (cases "?i = j \<or> \<not> Less I h j ?i")
    case True
    then have "0 < j \<Longrightarrow> edge (elems h) j"
      using Less_j by (auto simp: edge_ok_def parent_eq_iff)
    then have "heap_ordered lt n (elems h)" using less.prems by (auto intro: hole_done)
    then show ?thesis using True less.prems by (simp add: heap_up.simps [of I h j] rearranged_refl)
  next
    case False
    then have j: "0 < j" "?i < j" using parent_less [of j] by (auto simp: parent_eq_iff)
    have sw: "elems (Swap I h ?i j) = list_swap (elems h) ?i j" "rearranged n h (Swap I h ?i j)"
      using less.prems j by (auto simp: elems_Swap intro!: rearranged_Swap)
    have st: "hole lt ?i n (elems (Swap I h ?i j)) \<and> children_ok lt ?i n (elems (Swap I h ?i j))"
      unfolding sw(1) using less.prems j False Less_j by (intro hole_up_step) auto
    have "rearranged n (Swap I h ?i j) (heap_up I (Swap I h ?i j) ?i) \<and>
          heap_ordered lt n (elems (heap_up I (Swap I h ?i j) ?i))"
      using less.IH [OF j(2)] less.prems j sw st
      by (auto simp: rearranged_length [OF sw(2)] rearranged_def)
    then show ?thesis
      using False sw(2) by (auto simp: heap_up.simps [of I h j] Let_def intro: rearranged_trans)
  qed
qed

text \<open>The child that \<open>down\<close> selects is a smallest child of \<open>i\<close>.\<close>

lemma min_child:
  assumes "invar h" "n \<le> length (elems h)" "2 * i + 1 < n"
  defines "j \<equiv> down_child I h i n"
  shows "j < n" "0 < j" "parent j = i" "i < j"
    and "\<And>k. k < n \<Longrightarrow> 0 < k \<Longrightarrow> parent k = i \<Longrightarrow> \<not> lt (elems h ! k) (elems h ! j)"
proof -
  show "j < n" "0 < j" "i < j" using assms(3) by (auto simp: j_def down_child_def Let_def)
  show "parent j = i" by (auto simp: j_def down_child_def Let_def parent_def)
  fix k assume k: "k < n" "0 < k" "parent k = i"
  have irr: "\<not> lt (elems h ! k) (elems h ! k)" using lt_asym by blast
  have "k = 2 * i + 1 \<or> k = 2 * i + 2" using k child_cases by simp
  then show "\<not> lt (elems h ! k) (elems h ! j)"
    using k assms(1,2) lt_asym irr by (auto simp: j_def down_child_def Let_def Less_elems)
qed

text \<open>One iteration of \<open>down\<close>: it stops with the children of \<open>i\<close> in order, or the hole moves down.\<close>

lemma down_iteration:
  assumes inv: "invar h" "n \<le> length (elems h)" "hole lt i n (elems h)"
  obtains (stop) "heap_down_loop I h i n = (h, i)" "children_ok lt i n (elems h)"
  | (move) j where "i < j" "j < n" "rearranged n h (Swap I h i j)"
      "hole lt j n (elems (Swap I h i j))" "edge (elems (Swap I h i j)) j"
      "heap_down_loop I h i n = heap_down_loop I (Swap I h i j) j n"
proof (cases "2 * i + 1 < n")
  case False
  then have "heap_down_loop I h i n = (h, i)" "children_ok lt i n (elems h)"
    by (auto simp: heap_down_loop.simps [of I h i n] children_ok_def child_cases)
  then show ?thesis by (rule stop)
next
  case True
  let ?j = "down_child I h i n"
  note mc = min_child [OF inv(1,2) True]
  have Less_j: "Less I h ?j i \<longleftrightarrow> lt (elems h ! ?j) (elems h ! i)"
    using mc(1,4) inv(1,2) by (intro Less_elems) auto
  show ?thesis
  proof (cases "Less I h ?j i")
    case False
    then have "heap_down_loop I h i n = (h, i)"
      using True by (simp add: heap_down_loop.simps [of I h i n] Let_def)
    moreover have "children_ok lt i n (elems h)"
      unfolding children_ok_def edge_ok_def using False Less_j mc(5) lt_negtrans by blast
    ultimately show ?thesis by (rule stop)
  next
    case go: True
    have sw: "elems (Swap I h i ?j) = list_swap (elems h) i ?j" "rearranged n h (Swap I h i ?j)"
      using inv(1,2) mc(1,4) by (auto simp: elems_Swap intro!: rearranged_Swap)
    have "hole lt ?j n (elems (Swap I h i ?j)) \<and> edge (elems (Swap I h i ?j)) ?j"
      unfolding sw(1) using inv mc go Less_j by (intro hole_down_step) auto
    moreover have "heap_down_loop I h i n = heap_down_loop I (Swap I h i ?j) ?j n"
      using True go by (simp add: heap_down_loop.simps [of I h i n] Let_def)
    ultimately show ?thesis using mc(1,4) sw(2) by (intro move [of ?j]) auto
  qed
qed

lemma heap_down_loop_correct:
  assumes "invar h" "n \<le> length (elems h)" "hole lt i n (elems h)"
    and "0 < i \<Longrightarrow> i < n \<Longrightarrow> edge (elems h) i"
    and "heap_down_loop I h i n = (h', i')"
  shows "rearranged n h h' \<and> heap_ordered lt n (elems h') \<and> i \<le> i'"
  using assms
proof (induction "n - i" arbitrary: h i rule: less_induct)
  case (less i h)
  from less.prems(1-3) show ?case
  proof (cases rule: down_iteration)
    case stop
    then show ?thesis using less.prems by (auto simp: rearranged_refl intro: hole_done)
  next
    case (move j)
    then have "rearranged n (Swap I h i j) h' \<and> heap_ordered lt n (elems h') \<and> j \<le> i'"
      using less.prems(2,5) rearranged_length [OF move(3)]
      by (intro less.hyps) (auto simp: rearranged_def)
    then show ?thesis using rearranged_trans [OF move(3)] move(1) by auto
  qed
qed

lemma heap_ordered_root:
  assumes "heap_ordered lt n xs" "k < n"
  shows "\<not> lt (xs ! k) (xs ! 0)"
  using assms
proof (induction k rule: less_induct)
  case (less k)
  show ?case
  proof (cases "k = 0")
    case True
    then show ?thesis using lt_asym by blast
  next
    case False
    then have "parent k < k" by (simp add: parent_less)
    then have "\<not> lt (xs ! parent k) (xs ! 0)" using less by simp
    moreover have "\<not> lt (xs ! k) (xs ! parent k)"
      using less.prems False by (simp add: heap_ordered_def edge_ok_def)
    ultimately show ?thesis using lt_negtrans by blast
  qed
qed

lemma heap_ordered_butlast: "heap_ordered lt n xs \<Longrightarrow> n \<le> length xs - 1 \<Longrightarrow> heap_ordered lt n (butlast xs)"
  by (auto simp: heap_ordered_def edge_ok_def nth_butlast parent_def)

lemma hole_cong:
  assumes "hole lt i n xs" "i < n" "\<And>k. k < n \<Longrightarrow> ys ! k = xs ! k"
  shows "hole lt i n ys"
  using assms by (simp add: hole_def edge_ok_def)

text \<open>Replacing one element of a heap by another makes a hole.\<close>

lemma hole_update:
  assumes "heap_ordered lt n xs" "i < n" "n \<le> length xs"
  shows "hole lt i n (xs[i := x])"
proof -
  have "edge (xs[i := x]) k" if "k < n" "0 < k" "k \<noteq> i" "parent k \<noteq> i" for k
    using assms that by (auto simp: heap_ordered_def edge_ok_def nth_list_update)
  moreover have "\<not> lt (xs[i := x] ! k) (xs[i := x] ! parent i)"
    if k: "k < n" "0 < k" "0 < i" "parent k = i" for k
  proof -
    have "\<not> lt (xs ! k) (xs ! i)" "\<not> lt (xs ! i) (xs ! parent i)"
      using assms k by (auto simp: heap_ordered_def edge_ok_def)
    moreover have "k \<noteq> i" "parent i \<noteq> i" using k parent_less [of k] parent_less [of i] by auto
    ultimately show ?thesis using lt_negtrans by simp
  qed
  ultimately show ?thesis by (auto simp: hole_def)
qed

text \<open>\<open>down\<close> as \<open>Remove\<close> uses it: either it moved the element and the heap is in order, or nothing changed.\<close>

lemma heap_down_correct:
  assumes inv: "invar h" "n \<le> length (elems h)" "hole lt i n (elems h)"
    and eq: "heap_down I h i n = (h', moved)"
  shows "rearranged n h h' \<and>
    (if moved then heap_ordered lt n (elems h') else h' = h \<and> children_ok lt i n (elems h))"
proof -
  obtain i' where loop: "heap_down_loop I h i n = (h', i')" and moved: "moved = (i < i')"
    using eq by (auto simp: heap_down_def split: prod.splits)
  from inv show ?thesis
  proof (cases rule: down_iteration)
    case stop
    then show ?thesis using loop moved inv by (auto simp: rearranged_refl)
  next
    case (move j)
    then have "rearranged n (Swap I h i j) h' \<and> heap_ordered lt n (elems h') \<and> j \<le> i'"
      using inv(2) rearranged_length [OF move(3)] loop
      by (intro heap_down_loop_correct) (auto simp: rearranged_def)
    then show ?thesis using rearranged_trans [OF move(3)] move(1) moved by auto
  qed
qed

section \<open>Correctness of the package's functions\<close>

definition is_heap :: "'h \<Rightarrow> bool" where
  "is_heap h \<longleftrightarrow> invar h \<and> heap_ordered lt (length (elems h)) (elems h)"

lemma heap_Init_empty: "invar h \<Longrightarrow> elems h = [] \<Longrightarrow> heap_Init I h = h \<and> is_heap h"
  by (simp add: heap_Init_def Len_elems is_heap_def heap_ordered_def)

lemma heap_Push_correct:
  assumes "is_heap h" "fresh h x"
  shows "is_heap (heap_Push I h x)"
    and "mset (elems (heap_Push I h x)) = add_mset x (mset (elems h))"
proof -
  let ?h = "Push I h x" and ?n = "length (elems h)"
  have P: "invar ?h" "elems ?h = elems h @ [x]"
    using assms by (auto simp: is_heap_def invar_Push elems_Push)
  have "hole lt ?n (Suc ?n) (elems ?h)" "children_ok lt ?n (Suc ?n) (elems ?h)"
    using assms(1)
    by (auto simp: P is_heap_def heap_ordered_def hole_def children_ok_def edge_ok_def nth_append
        no_child less_Suc_eq)
  then have "rearranged (Suc ?n) ?h (heap_up I ?h ?n) \<and> heap_ordered lt (Suc ?n) (elems (heap_up I ?h ?n))"
    using P by (intro heap_up_correct) auto
  moreover have "heap_Push I h x = heap_up I ?h ?n"
    using P by (simp add: heap_Push_def Len_elems)
  ultimately have r: "rearranged (Suc ?n) ?h (heap_Push I h x)"
    "heap_ordered lt (Suc ?n) (elems (heap_Push I h x))"
    by simp_all
  show "is_heap (heap_Push I h x)"
    using r rearranged_length [OF r(1)] P(2) by (simp add: is_heap_def rearranged_def)
  show "mset (elems (heap_Push I h x)) = add_mset x (mset (elems h))"
    using r(1) P(2) by (simp add: rearranged_def)
qed

text \<open>
  \<open>Pop\<close> and \<open>Remove\<close> share their last step: the first \<open>n\<close> positions are a heap and the
  interface's \<open>Pop\<close> takes the element behind them.
\<close>

lemma finish_Pop:
  assumes "rearranged n h1 h2" "heap_ordered lt n (elems h2)" "length (elems h1) = Suc n"
    and "Pop I h2 = (h', x)"
  shows "is_heap h' \<and> x = elems h1 ! n \<and> mset (elems h1) = add_mset x (mset (elems h'))"
proof -
  have len: "length (elems h2) = Suc n" using assms rearranged_length by simp
  then have ne: "elems h2 \<noteq> []" by auto
  have inv: "invar h2" using assms by (simp add: rearranged_def)
  have h': "invar h'" "elems h' = butlast (elems h2)" "x = last (elems h2)"
    using invar_Pop [OF inv ne] elems_Pop [OF inv ne] snd_Pop [OF inv ne] assms(4) by simp_all
  have "drop n (elems h2) = drop n (elems h1)" using assms(1) by (simp add: rearranged_def)
  then have "elems h2 ! n = elems h1 ! n"
    using len assms(3) by (metis Cons_nth_drop_Suc lessI list.inject)
  then have "x = elems h1 ! n" using h' ne len by (simp add: last_conv_nth)
  moreover have "mset (elems h1) = mset (butlast (elems h2) @ [last (elems h2)])"
    using assms(1) ne by (simp add: rearranged_def)
  ultimately show ?thesis
    using h' assms(2) len by (simp add: is_heap_def heap_ordered_butlast)
qed

lemma heap_Pop_correct:
  assumes "is_heap h" "elems h \<noteq> []" "heap_Pop I h = (h', x)"
  shows "is_heap h'" "x = elems h ! 0" "mset (elems h) = add_mset x (mset (elems h'))"
    and "\<forall>y\<in>set (elems h). \<not> lt y x"
proof -
  let ?xs = "elems h"
  obtain n where n: "length ?xs = Suc n" using assms(2) by (cases ?xs) auto
  have inv: "invar h" and ord: "heap_ordered lt (Suc n) ?xs"
    using assms n by (auto simp: is_heap_def)
  let ?h1 = "Swap I h 0 n"
  have h1: "invar ?h1" "elems ?h1 = list_swap ?xs 0 n" "length (elems ?h1) = Suc n"
    using inv n by (auto simp: invar_Swap elems_Swap)
  have hole: "hole lt 0 n (elems ?h1)"
    using ord n unfolding h1 by (auto simp: hole_def heap_ordered_def edge_ok_def nth_list_swap)
  obtain h2 moved where down: "heap_down I ?h1 0 n = (h2, moved)" by fastforce
  from heap_down_correct [OF h1(1) _ hole down]
  have res: "rearranged n ?h1 h2"
    "if moved then heap_ordered lt n (elems h2) else h2 = ?h1 \<and> children_ok lt 0 n (elems ?h1)"
    using h1(3) by auto
  have "heap_ordered lt n (elems h2)"
    using res(2) hole by (auto split: if_splits intro: hole_done)
  moreover have "Pop I h2 = (h', x)"
    using assms(3) down inv n by (simp add: heap_Pop_def Len_elems)
  ultimately have fin: "is_heap h' \<and> x = elems ?h1 ! n \<and> mset (elems ?h1) = add_mset x (mset (elems h'))"
    using res(1) h1(3) by (intro finish_Pop) auto
  then show "is_heap h'" "x = elems h ! 0" "mset (elems h) = add_mset x (mset (elems h'))"
    using h1(2) n by (auto simp: nth_list_swap)
  then show "\<forall>y\<in>set (elems h). \<not> lt y x"
    using heap_ordered_root [OF ord] n by (auto simp: in_set_conv_nth)
qed

lemma heap_Remove_correct:
  assumes "is_heap h" "i < length (elems h)" "heap_Remove I h i = (h', x)"
  shows "is_heap h'" "x = elems h ! i" "mset (elems h) = add_mset x (mset (elems h'))"
proof -
  let ?xs = "elems h"
  obtain n where n: "length ?xs = Suc n" using assms(2) by (cases ?xs) auto
  have inv: "invar h" and ord: "heap_ordered lt n ?xs"
    using assms n by (auto simp: is_heap_def heap_ordered_def)
  have "is_heap h' \<and> x = ?xs ! i \<and> mset ?xs = add_mset x (mset (elems h'))"
  proof (cases "n = i")
    case True
    then have "Pop I h = (h', x)" using assms(3) inv n by (simp add: heap_Remove_def Len_elems)
    then show ?thesis using finish_Pop [OF rearranged_refl [OF inv] ord n] True by simp
  next
    case False
    then have i: "i < n" using assms(2) n by simp
    let ?h1 = "Swap I h i n"
    have h1: "invar ?h1" "elems ?h1 = list_swap ?xs i n" "length (elems ?h1) = Suc n"
      using inv n i by (auto simp: invar_Swap elems_Swap)
    have "hole lt i n (?xs[i := ?xs ! n])" using ord i n by (intro hole_update) auto
    then have hole: "hole lt i n (elems ?h1)"
      using i unfolding h1(2) by (rule hole_cong) (simp add: list_swap_def)
    obtain h2 moved where down: "heap_down I ?h1 i n = (h2, moved)" by fastforce
    from heap_down_correct [OF h1(1) _ hole down]
    have res: "rearranged n ?h1 h2"
      "if moved then heap_ordered lt n (elems h2) else h2 = ?h1 \<and> children_ok lt i n (elems ?h1)"
      using h1(3) by auto
    have up: "children_ok lt i n (elems ?h1) \<Longrightarrow>
      rearranged n ?h1 (heap_up I ?h1 i) \<and> heap_ordered lt n (elems (heap_up I ?h1 i))"
      using h1 i hole by (intro heap_up_correct) auto
    let ?h3 = "if \<not> moved then heap_up I h2 i else h2"
    have h3: "rearranged n ?h1 ?h3 \<and> heap_ordered lt n (elems ?h3)"
      using res up by (cases moved) auto
    have "Pop I ?h3 = (h', x)"
      using assms(3) False down inv n by (simp add: heap_Remove_def Len_elems Let_def)
    then have "is_heap h' \<and> x = elems ?h1 ! n \<and> mset (elems ?h1) = add_mset x (mset (elems h'))"
      using h3 h1(3) by (intro finish_Pop) auto
    then show ?thesis using h1(2) n assms(2) by (simp add: nth_list_swap)
  qed
  then show "is_heap h'" "x = elems h ! i" "mset (elems h) = add_mset x (mset (elems h'))" by auto
qed

end

end
