(* ===== verification/JobQueue.thy ===== *)
theory JobQueue
  imports Go_Heap
begin

text \<open>
  The job queues of \<open>9-job-centre/job_queue.go\<close>. A job object is shared between the heap slice
  of its queue and the locator map, and the heap writes the object's \<open>index\<close> field while it
  moves the pointer, so the objects live in an explicit store (\<open>objs\<close>, addresses allocated in
  order) and queues and locators hold addresses. Channels are numbers; \<open>closed\<close> collects the
  ones that have been closed. Every operation holds the mutex from its first to its last line,
  except that \<open>Pop\<close> releases it while it waits, so each operation (and each pass of \<open>Pop\<close>'s
  loop) is one state transformer.

  Shown: the invariant that ties the three structures together (each queued object knows its
  position, each locator points at the queue entry of its job, every queue is heap ordered) is
  kept by \<open>Push\<close>, \<open>Remove\<close> and \<open>Pop\<close>; on the abstract state (the finite map from job identifiers
  to waiting jobs) they are insertion, deletion, and deletion of a job of highest priority
  among the requested queues; what \<open>Pop\<close> does not do (priority 0, queues created later).
\<close>

type_synonym addr = nat
type_synonym chan = nat

datatype jq_error = ErrJobQueueEmpty | ErrJobQueueNotFound | CtxErr | JQPanic

record 'v Job =
  Queue :: string
  JobID :: uint32
  Payload :: 'v
  Priority :: uint32

record 'v job =
  job_Job :: "'v Job"
  index :: int

record jobLocator =
  queue :: string
  job_ptr :: addr

record 'v JobQueues =
  jobQueues :: "string \<rightharpoonup> addr list"
  jobLocators :: "uint32 \<rightharpoonup> jobLocator"
  notifiers :: "chan list"
  closed :: "chan set"
  next_chan :: chan
  objs :: "addr \<Rightarrow> 'v job"
  next_addr :: addr

section \<open>The heap interface of a queue\<close>

type_synonym 'v jobQueue = "(addr \<Rightarrow> 'v job) \<times> addr list"

definition set_index :: "(addr \<Rightarrow> 'v job) \<Rightarrow> addr \<Rightarrow> int \<Rightarrow> addr \<Rightarrow> 'v job" where
  "set_index ob a i = ob(a := (ob a)\<lparr>index := i\<rparr>)"

definition jobQueue_Len :: "'v jobQueue \<Rightarrow> nat" where
  "jobQueue_Len jq = length (snd jq)"

definition jobQueue_Less :: "'v jobQueue \<Rightarrow> nat \<Rightarrow> nat \<Rightarrow> bool" where
  "jobQueue_Less jq i j =
     (case jq of (ob, q) \<Rightarrow> Priority (job_Job (ob (q ! i))) > Priority (job_Job (ob (q ! j))))"

definition jobQueue_Swap :: "'v jobQueue \<Rightarrow> nat \<Rightarrow> nat \<Rightarrow> 'v jobQueue" where
  "jobQueue_Swap jq i j =
     (case jq of (ob, q) \<Rightarrow>
        let q' = list_swap q i j;
            ob1 = set_index ob (q' ! i) (int i);
            ob2 = set_index ob1 (q' ! j) (int j)
        in (ob2, q'))"

definition jobQueue_Push :: "'v jobQueue \<Rightarrow> addr \<Rightarrow> 'v jobQueue" where
  "jobQueue_Push jq item = (case jq of (ob, q) \<Rightarrow> (set_index ob item (int (length q)), q @ [item]))"

definition jobQueue_Pop :: "'v jobQueue \<Rightarrow> 'v jobQueue \<times> addr" where
  "jobQueue_Pop jq =
     (case jq of (ob, old) \<Rightarrow>
        let item = last old in ((set_index ob item (-1), butlast old), item))"

definition jobQueue_heap :: "('v jobQueue, addr) heap_Interface" where
  "jobQueue_heap =
     \<lparr>Len = jobQueue_Len, Less = jobQueue_Less, Swap = jobQueue_Swap,
      Push = jobQueue_Push, Pop = jobQueue_Pop\<rparr>"

section \<open>The operations of \<open>JobQueues\<close>\<close>

definition NewJobQueues :: "'v job \<Rightarrow> 'v JobQueues" where
  "NewJobQueues nil_job =
     \<lparr>jobQueues = Map.empty, jobLocators = Map.empty, notifiers = [], closed = {}, next_chan = 0,
      objs = (\<lambda>_. nil_job), next_addr = 0\<rparr>"

definition JobQueues_Push :: "'v Job \<Rightarrow> 'v JobQueues \<Rightarrow> 'v JobQueues" where
  "JobQueues_Push j jq =
     (let jj = next_addr jq;
          ob = (objs jq)(jj := \<lparr>job_Job = j, index = 0\<rparr>);
          queue0 = (case jobQueues jq (Queue j) of
                      None \<Rightarrow> heap_Init jobQueue_heap (ob, [])
                    | Some q \<Rightarrow> (ob, q));
          (ob', q') = heap_Push jobQueue_heap queue0 jj
      in jq\<lparr>jobQueues := (jobQueues jq)(Queue j \<mapsto> q'),
            jobLocators := (jobLocators jq)(JobID j \<mapsto> \<lparr>queue = Queue j, job_ptr = jj\<rparr>),
            closed := closed jq \<union> set (notifiers jq), notifiers := [],
            objs := ob', next_addr := Suc jj\<rparr>)"

definition JobQueues_Remove :: "uint32 \<Rightarrow> 'v JobQueues \<Rightarrow> jq_error + 'v JobQueues" where
  "JobQueues_Remove jobID jq =
     (case jobLocators jq jobID of
        None \<Rightarrow> Inl ErrJobQueueNotFound
      | Some jl \<Rightarrow>
          (case jobQueues jq (queue jl) of
             None \<Rightarrow> Inl JQPanic
           | Some q \<Rightarrow>
               let i = index (objs jq (job_ptr jl)) in
               if 0 \<le> i \<and> i < int (length q) then
                 let ((ob', q'), _) = heap_Remove jobQueue_heap (objs jq, q) (nat i) in
                 Inr (jq\<lparr>jobQueues := (jobQueues jq)(queue jl \<mapsto> q'), objs := ob',
                         jobLocators := (jobLocators jq)(jobID := None)\<rparr>)
               else Inl JQPanic))"

definition validQueues :: "'v JobQueues \<Rightarrow> string list \<Rightarrow> string list" where
  "validQueues jq queues = remdups (filter (\<lambda>q. jobQueues jq q \<noteq> None) queues)"

fun Pop_scan :: "'v JobQueues \<Rightarrow> string list \<Rightarrow> string option \<Rightarrow> uint32 \<Rightarrow> string option" where
  "Pop_scan jq [] highestQueue highestPriority = highestQueue"
| "Pop_scan jq (name # names) highestQueue highestPriority =
     (case jobQueues jq name of
        None \<Rightarrow> Pop_scan jq names highestQueue highestPriority
      | Some q \<Rightarrow>
          if length q = 0 then Pop_scan jq names highestQueue highestPriority
          else let priority = Priority (job_Job (objs jq (q ! 0))) in
               if priority > highestPriority then Pop_scan jq names (Some name) priority
               else Pop_scan jq names highestQueue highestPriority)"

datatype 'v pop_outcome = Got "'v Job" | Failed jq_error | Blocked chan

text \<open>
  One pass of \<open>Pop\<close>'s loop over the queues in the order \<open>ord\<close> in which Go's \<open>range\<close> visits the
  map. \<open>Blocked c\<close> is the state in which the caller has released the lock and waits for \<open>c\<close>.
\<close>

definition Pop_pass :: "bool \<Rightarrow> bool \<Rightarrow> string list \<Rightarrow> 'v JobQueues \<Rightarrow> 'v pop_outcome \<times> 'v JobQueues" where
  "Pop_pass ctxDone wait ord jq =
     (if ctxDone then (Failed CtxErr, jq)
      else case Pop_scan jq ord None 0 of
        Some name \<Rightarrow>
          let ((ob', q'), a) = heap_Pop jobQueue_heap (objs jq, the (jobQueues jq name));
              j = job_Job (ob' a)
          in (Got j, jq\<lparr>jobQueues := (jobQueues jq)(name \<mapsto> q'), objs := ob',
                        jobLocators := (jobLocators jq)(JobID j := None)\<rparr>)
      | None \<Rightarrow>
          if \<not> wait then (Failed ErrJobQueueEmpty, jq)
          else (Blocked (next_chan jq),
                jq\<lparr>notifiers := notifiers jq @ [next_chan jq], next_chan := Suc (next_chan jq)\<rparr>))"

text \<open>
  The call from its start: \<open>iter\<close> is the order in which the runtime ranges over a map, a
  permutation of the keys. The waiting caller keeps the map \<open>validQueues\<close> it built at the start;
  \<open>Pop_loop\<close> continues it over what happens while the lock is released, one entry per wake-up:
  whether the context is done by then, and what the other goroutines did to the queues.
\<close>

definition JobQueues_Pop ::
  "(string list \<Rightarrow> string list) \<Rightarrow> bool \<Rightarrow> string list \<Rightarrow> bool \<Rightarrow> 'v JobQueues \<Rightarrow> 'v pop_outcome \<times> 'v JobQueues" where
  "JobQueues_Pop iter ctxDone queues wait jq =
     Pop_pass ctxDone wait (iter (validQueues jq queues)) jq"

fun Pop_loop ::
  "(string list \<Rightarrow> string list) \<Rightarrow> string list \<Rightarrow> bool \<Rightarrow> (bool \<times> ('v JobQueues \<Rightarrow> 'v JobQueues)) list \<Rightarrow>
   'v pop_outcome \<times> 'v JobQueues \<Rightarrow> 'v pop_outcome \<times> 'v JobQueues" where
  "Pop_loop iter valid wait ((ctxDone, env) # evs) (Blocked c, jq) =
     Pop_loop iter valid wait evs (Pop_pass ctxDone wait (iter valid) (env jq))"
| "Pop_loop iter valid wait evs res = res"

section \<open>The queue as an implementation of the heap interface\<close>

text \<open>
  \<open>J\<close> gives the job of every address, \<open>S\<close> the addresses the heap may touch and \<open>obs\<close> the store
  before the operation: the heap operations move pointers and write \<open>index\<close>, nothing else.
\<close>

definition prio_lt :: "(addr \<Rightarrow> 'v Job) \<Rightarrow> addr \<Rightarrow> addr \<Rightarrow> bool" where
  "prio_lt J a b \<longleftrightarrow> Priority (J b) < Priority (J a)"

definition queue_invar :: "(addr \<Rightarrow> 'v Job) \<Rightarrow> addr set \<Rightarrow> (addr \<Rightarrow> 'v job) \<Rightarrow> 'v jobQueue \<Rightarrow> bool" where
  "queue_invar J S obs h \<longleftrightarrow>
     (case h of (ob, q) \<Rightarrow>
        distinct q \<and> set q \<subseteq> S \<and> (\<forall>i<length q. index (ob (q ! i)) = int i) \<and>
        (\<forall>a. job_Job (ob a) = J a) \<and> (\<forall>a. a \<notin> S \<longrightarrow> ob a = obs a))"

definition queue_fresh :: "addr set \<Rightarrow> 'v jobQueue \<Rightarrow> addr \<Rightarrow> bool" where
  "queue_fresh S h x \<longleftrightarrow> x \<in> S \<and> x \<notin> set (snd h)"

lemmas jobQueue_defs =
  jobQueue_heap_def jobQueue_Len_def jobQueue_Less_def jobQueue_Swap_def jobQueue_Push_def jobQueue_Pop_def

lemma set_index_job [simp]: "job_Job (set_index ob a i b) = job_Job (ob b)"
  by (simp add: set_index_def)

lemma set_index_index [simp]: "index (set_index ob a i b) = (if b = a then i else index (ob b))"
  by (simp add: set_index_def)

lemma set_index_other: "b \<noteq> a \<Longrightarrow> set_index ob a i b = ob b"
  by (simp add: set_index_def)

lemma Swap_queue_invar:
  assumes "queue_invar J S obs h" "i < length (snd h)" "j < length (snd h)"
  shows "queue_invar J S obs (jobQueue_Swap h i j)"
proof -
  obtain ob q where h: "h = (ob, q)" by fastforce
  let ?q = "list_swap q i j"
  have q: "distinct q" "set q \<subseteq> S" "\<And>k. k < length q \<Longrightarrow> index (ob (q ! k)) = int k" "i < length q" "j < length q"
    using assms h by (auto simp: queue_invar_def)
  have mem: "?q ! i \<in> S" "?q ! j \<in> S" using q by (auto simp: nth_list_swap)
  have "index (set_index (set_index ob (?q ! i) (int i)) (?q ! j) (int j) (?q ! k)) = int k"
    if "k < length q" for k
    using that q by (auto simp: nth_eq_iff_index_eq) (auto simp: nth_list_swap)
  moreover have "set_index (set_index ob (?q ! i) (int i)) (?q ! j) (int j) a = ob a" if "a \<notin> S" for a
    using that mem by (auto simp: set_index_def)
  ultimately show ?thesis
    using assms q by (auto simp: h queue_invar_def jobQueue_Swap_def Let_def)
qed

lemma Pop_queue_invar:
  assumes "queue_invar J S obs h" "snd h \<noteq> []"
  shows "queue_invar J S obs (fst (jobQueue_Pop h))"
proof -
  obtain ob q x where h: "h = (ob, q @ [x])" using assms(2) by (cases h; cases "snd h" rule: rev_cases) auto
  have "index (ob (q ! i)) = int i" if "i < length q" for i
    using assms(1) that by (auto simp: h queue_invar_def nth_append dest: spec [of _ i])
  moreover have "q ! i \<noteq> x" if "i < length q" for i
    using assms(1) that by (auto simp: h queue_invar_def)
  ultimately show ?thesis
    using assms(1) by (auto simp: h queue_invar_def jobQueue_Pop_def set_index_def)
qed

interpretation jobHeap: heap_provider jobQueue_heap snd "queue_fresh S" "queue_invar J S obs" "prio_lt J"
  for J :: "addr \<Rightarrow> 'v Job" and S obs
proof (unfold_locales, goal_cases)
  case (1 a b)
  then show ?case by (auto simp: prio_lt_def)
next
  case (2 a b c)
  then show ?case by (auto simp: prio_lt_def)
next
  case (3 h)
  then show ?case by (simp add: jobQueue_defs)
next
  case (4 h i j)
  then show ?case by (auto simp: jobQueue_defs queue_invar_def prio_lt_def split: prod.splits)
next
  case (5 h i j)
  then show ?case by (auto simp: jobQueue_defs Let_def split: prod.splits)
next
  case (6 h i j)
  then show ?case using Swap_queue_invar by (simp add: jobQueue_heap_def)
next
  case (7 h x)
  then show ?case by (auto simp: jobQueue_defs split: prod.splits)
next
  case (8 h x)
  then show ?case
    by (auto simp: jobQueue_defs queue_invar_def queue_fresh_def set_index_def nth_append less_Suc_eq
        split: prod.splits)
next
  case (9 h)
  then show ?case by (auto simp: jobQueue_defs Let_def split: prod.splits)
next
  case (10 h)
  then show ?case by (auto simp: jobQueue_defs Let_def split: prod.splits)
next
  case (11 h)
  then show ?case using Pop_queue_invar by (simp add: jobQueue_heap_def)
qed

text \<open>The package's theorems, read off the interpretation for one queue.\<close>

lemma queue_heap_Push:
  assumes "queue_invar J S obs (ob, q)" "heap_ordered (prio_lt J) (length q) q"
    and "x \<in> S" "x \<notin> set q" "heap_Push jobQueue_heap (ob, q) x = (ob', q')"
  shows "queue_invar J S obs (ob', q')" "heap_ordered (prio_lt J) (length q') q'"
    and "set q' = insert x (set q)"
proof -
  have h: "jobHeap.is_heap J S obs (ob, q)" "queue_fresh S (ob, q) x"
    using assms by (auto simp: jobHeap.is_heap_def queue_fresh_def)
  from jobHeap.heap_Push_correct [OF h] assms(5)
  show "queue_invar J S obs (ob', q')" "heap_ordered (prio_lt J) (length q') q'"
    and "set q' = insert x (set q)"
    by (auto simp: jobHeap.is_heap_def dest!: mset_eq_setD [of q' "x # q", simplified])
qed

lemma queue_heap_Pop:
  assumes "queue_invar J S obs (ob, q)" "heap_ordered (prio_lt J) (length q) q"
    and "q \<noteq> []" "heap_Pop jobQueue_heap (ob, q) = ((ob', q'), x)"
  shows "queue_invar J S obs (ob', q')" "heap_ordered (prio_lt J) (length q') q'"
    and "set q = insert x (set q')" "x \<notin> set q'" "x = q ! 0"
    and "\<forall>a\<in>set q. Priority (J a) \<le> Priority (J x)"
proof -
  have h: "jobHeap.is_heap J S obs (ob, q)" "snd (ob, q) \<noteq> []"
    using assms by (auto simp: jobHeap.is_heap_def)
  note c = jobHeap.heap_Pop_correct [OF h assms(4)]
  show "queue_invar J S obs (ob', q')" "heap_ordered (prio_lt J) (length q') q'" "x = q ! 0"
    using c by (auto simp: jobHeap.is_heap_def)
  show "\<forall>a\<in>set q. Priority (J a) \<le> Priority (J x)"
    using c(4) by (auto simp: prio_lt_def not_less)
  have m: "mset q = mset (x # q')" using c(3) by simp
  then show "set q = insert x (set q')" by (metis list.simps(15) mset_eq_setD)
  have "distinct q" using assms(1) by (simp add: queue_invar_def)
  then show "x \<notin> set q'" using m mset_eq_imp_distinct_iff [OF m] by simp
qed

lemma queue_heap_Remove:
  assumes "queue_invar J S obs (ob, q)" "heap_ordered (prio_lt J) (length q) q"
    and "i < length q" "heap_Remove jobQueue_heap (ob, q) i = ((ob', q'), x)"
  shows "queue_invar J S obs (ob', q')" "heap_ordered (prio_lt J) (length q') q'"
    and "set q = insert x (set q')" "x \<notin> set q'" "x = q ! i"
proof -
  have h: "jobHeap.is_heap J S obs (ob, q)" "i < length (snd (ob, q))"
    using assms by (auto simp: jobHeap.is_heap_def)
  note c = jobHeap.heap_Remove_correct [OF h assms(4)]
  show "queue_invar J S obs (ob', q')" "heap_ordered (prio_lt J) (length q') q'" "x = q ! i"
    using c by (auto simp: jobHeap.is_heap_def)
  have m: "mset q = mset (x # q')" using c(3) by simp
  then show "set q = insert x (set q')" by (metis list.simps(15) mset_eq_setD)
  have "distinct q" using assms(1) by (simp add: queue_invar_def)
  then show "x \<notin> set q'" using m mset_eq_imp_distinct_iff [OF m] by simp
qed

section \<open>The invariant of the job queues\<close>

abbreviation job_at :: "'v JobQueues \<Rightarrow> addr \<Rightarrow> 'v Job" where
  "job_at jq a \<equiv> job_Job (objs jq a)"

definition queue_ok :: "'v JobQueues \<Rightarrow> string \<Rightarrow> addr list \<Rightarrow> bool" where
  "queue_ok jq name q \<longleftrightarrow>
     distinct q \<and> (\<forall>a\<in>set q. a < next_addr jq) \<and> (\<forall>i<length q. index (objs jq (q ! i)) = int i) \<and>
     heap_ordered (prio_lt (job_at jq)) (length q) q \<and>
     (\<forall>a\<in>set q. Queue (job_at jq a) = name \<and>
        jobLocators jq (JobID (job_at jq a)) = Some \<lparr>queue = name, job_ptr = a\<rparr>)"

definition located :: "'v JobQueues \<Rightarrow> uint32 \<Rightarrow> jobLocator \<Rightarrow> bool" where
  "located jq i l \<longleftrightarrow>
     (\<exists>q. jobQueues jq (queue l) = Some q \<and> job_ptr l \<in> set q) \<and> JobID (job_at jq (job_ptr l)) = i"

definition jq_inv :: "'v JobQueues \<Rightarrow> bool" where
  "jq_inv jq \<longleftrightarrow>
     (\<forall>name q. jobQueues jq name = Some q \<longrightarrow> queue_ok jq name q) \<and>
     (\<forall>i l. jobLocators jq i = Some l \<longrightarrow> located jq i l)"

text \<open>What a client sees: the waiting jobs by identifier.\<close>

definition jq_abs :: "'v JobQueues \<Rightarrow> uint32 \<rightharpoonup> 'v Job" where
  "jq_abs jq i = map_option (\<lambda>l. job_at jq (job_ptr l)) (jobLocators jq i)"

lemma jq_inv_queue: "jq_inv jq \<Longrightarrow> jobQueues jq name = Some q \<Longrightarrow> queue_ok jq name q"
  by (simp add: jq_inv_def)

lemma queue_ok_locator:
  "queue_ok jq name q \<Longrightarrow> a \<in> set q \<Longrightarrow>
   Queue (job_at jq a) = name \<and> jobLocators jq (JobID (job_at jq a)) = Some \<lparr>queue = name, job_ptr = a\<rparr>"
  by (simp add: queue_ok_def)

lemma jq_inv_located: "jq_inv jq \<Longrightarrow> jobLocators jq i = Some l \<Longrightarrow> located jq i l"
  by (simp add: jq_inv_def)

lemma heap_ordered_cong:
  assumes "\<And>a. a \<in> set q \<Longrightarrow> J' a = J a"
  shows "heap_ordered (prio_lt J') (length q) q = heap_ordered (prio_lt J) (length q) q"
  using assms by (simp add: heap_ordered_def edge_ok_def prio_lt_def)

text \<open>An operation that replaces one queue and leaves the objects of the others alone keeps the invariant.\<close>

lemma jq_inv_replace:
  assumes inv: "jq_inv jq"
    and q': "queue_ok jq' name q'"
    and Q': "jobQueues jq' = (jobQueues jq)(name \<mapsto> q')"
    and nxt: "next_addr jq \<le> next_addr jq'"
    and frame: "\<And>n q a. n \<noteq> name \<Longrightarrow> jobQueues jq n = Some q \<Longrightarrow> a \<in> set q \<Longrightarrow>
      objs jq' a = objs jq a \<and> jobLocators jq' (JobID (job_at jq a)) = jobLocators jq (JobID (job_at jq a))"
    and loc: "\<And>i l. jobLocators jq' i = Some l \<Longrightarrow>
      queue l = name \<and> job_ptr l \<in> set q' \<and> JobID (job_at jq' (job_ptr l)) = i \<or>
      queue l \<noteq> name \<and> jobLocators jq i = Some l"
  shows "jq_inv jq'"
proof -
  have "queue_ok jq' n q" if "jobQueues jq' n = Some q" for n q
  proof (cases "n = name")
    case True
    then show ?thesis using that q' Q' by simp
  next
    case False
    then have n: "jobQueues jq n = Some q" using that Q' by simp
    have "heap_ordered (prio_lt (job_at jq')) (length q) q = heap_ordered (prio_lt (job_at jq)) (length q) q"
      using frame [OF False n] by (intro heap_ordered_cong) simp
    then show ?thesis
      using jq_inv_queue [OF inv n] frame [OF False n] nxt by (fastforce simp: queue_ok_def)
  qed
  moreover have "located jq' i l" if l: "jobLocators jq' i = Some l" for i l
    using loc [OF l]
  proof
    assume "queue l = name \<and> job_ptr l \<in> set q' \<and> JobID (job_at jq' (job_ptr l)) = i"
    then show ?thesis using Q' by (simp add: located_def)
  next
    assume "queue l \<noteq> name \<and> jobLocators jq i = Some l"
    then show ?thesis using jq_inv_located [OF inv, of i l] frame Q' by (auto simp: located_def)
  qed
  ultimately show ?thesis by (simp add: jq_inv_def)
qed

text \<open>The queues do not share objects, so the heap of one queue is a frame for the others.\<close>

lemma queue_disjoint:
  assumes "jq_inv jq" "jobQueues jq n = Some q" "jobQueues jq m = Some r" "n \<noteq> m"
  shows "set q \<inter> set r = {}"
  using jq_inv_queue [OF assms(1,2)] jq_inv_queue [OF assms(1,3)] assms(4)
  by (auto simp: queue_ok_def)

definition queue_of :: "'v JobQueues \<Rightarrow> string \<Rightarrow> addr list" where
  "queue_of jq name = (case jobQueues jq name of None \<Rightarrow> [] | Some q \<Rightarrow> q)"

lemma queue_of_ok: "jq_inv jq \<Longrightarrow> queue_ok jq name (queue_of jq name)"
  using jq_inv_queue [of jq name]
  by (auto simp: queue_of_def queue_ok_def heap_ordered_def split: option.splits)

text \<open>
  The step shared by \<open>Push\<close>, \<open>Remove\<close> and \<open>Pop\<close>: a heap operation on the queue \<open>name\<close> that touches
  its own objects and new ones only, and locators updated to match.
\<close>

lemma queue_step:
  assumes inv: "jq_inv jq"
    and Q': "jobQueues jq' = (jobQueues jq)(name \<mapsto> q')"
    and heap: "queue_invar J S obs (objs jq', q')" "heap_ordered (prio_lt J) (length q') q'"
    and S: "\<And>a. a \<in> S \<Longrightarrow> a < next_addr jq \<Longrightarrow> a \<in> set (queue_of jq name)"
    and old: "\<And>a. a < next_addr jq \<Longrightarrow> obs a = objs jq a"
    and nxt: "next_addr jq \<le> next_addr jq'"
    and mem: "\<And>a. a \<in> set q' \<Longrightarrow> a < next_addr jq' \<and> Queue (J a) = name \<and>
      jobLocators jq' (JobID (J a)) = Some \<lparr>queue = name, job_ptr = a\<rparr>"
    and others: "\<And>i l. jobLocators jq i = Some l \<Longrightarrow> queue l \<noteq> name \<Longrightarrow> jobLocators jq' i = Some l"
    and loc: "\<And>i l. jobLocators jq' i = Some l \<Longrightarrow>
      queue l = name \<and> job_ptr l \<in> set q' \<and> JobID (J (job_ptr l)) = i \<or>
      queue l \<noteq> name \<and> jobLocators jq i = Some l"
  shows "jq_inv jq' \<and> job_at jq' = J"
proof
  show J': "job_at jq' = J" using heap(1) by (simp add: queue_invar_def fun_eq_iff)
  have ok': "queue_ok jq' name q'"
    unfolding queue_ok_def J' using heap mem by (simp add: queue_invar_def)
  show "jq_inv jq'"
  proof (rule jq_inv_replace [OF inv ok' Q' nxt])
    fix n r a
    assume a: "n \<noteq> name" "jobQueues jq n = Some r" "a \<in> set r"
    have ok: "queue_ok jq n r" using jq_inv_queue [OF inv a(2)] .
    have "a \<notin> set (queue_of jq name)"
      using queue_disjoint [OF inv a(2) _ a(1)] a(3)
      by (cases "jobQueues jq name") (auto simp: queue_of_def)
    moreover have lt: "a < next_addr jq" using ok a(3) by (simp add: queue_ok_def)
    ultimately have "a \<notin> S" using S by blast
    then show "objs jq' a = objs jq a \<and>
        jobLocators jq' (JobID (job_at jq a)) = jobLocators jq (JobID (job_at jq a))"
      using heap(1) old lt ok a others by (auto simp: queue_invar_def queue_ok_def)
  next
    fix i l
    assume "jobLocators jq' i = Some l"
    from loc [OF this] show "queue l = name \<and> job_ptr l \<in> set q' \<and> JobID (job_at jq' (job_ptr l)) = i \<or>
      queue l \<noteq> name \<and> jobLocators jq i = Some l"
      using fun_cong [OF J', of "job_ptr l"] by simp
  qed
qed

text \<open>A locator finds the entry of its job, and the entry is at the position the object records.\<close>

lemma locator_entry:
  assumes inv: "jq_inv jq" and l: "jobLocators jq i = Some l"
  shows "jobQueues jq (queue l) = Some (queue_of jq (queue l))"
    and "job_ptr l \<in> set (queue_of jq (queue l))" and "JobID (job_at jq (job_ptr l)) = i"
    and "\<exists>k < length (queue_of jq (queue l)).
      index (objs jq (job_ptr l)) = int k \<and> queue_of jq (queue l) ! k = job_ptr l"
proof -
  obtain q where q: "jobQueues jq (queue l) = Some q" "job_ptr l \<in> set q" "JobID (job_at jq (job_ptr l)) = i"
    using jq_inv_located [OF inv l] by (auto simp: located_def)
  then show "jobQueues jq (queue l) = Some (queue_of jq (queue l))"
    and "job_ptr l \<in> set (queue_of jq (queue l))" and "JobID (job_at jq (job_ptr l)) = i"
    by (auto simp: queue_of_def)
  obtain k where "k < length q" "q ! k = job_ptr l" using q(2) by (auto simp: in_set_conv_nth)
  then show "\<exists>k < length (queue_of jq (queue l)).
      index (objs jq (job_ptr l)) = int k \<and> queue_of jq (queue l) ! k = job_ptr l"
    using jq_inv_queue [OF inv q(1)] q(1) by (auto simp: queue_ok_def queue_of_def)
qed

lemma queue_ok_invar:
  "queue_ok jq name q \<Longrightarrow> queue_invar (job_at jq) (set q) (objs jq) (objs jq, q)"
  by (simp add: queue_ok_def queue_invar_def)

section \<open>\<open>Push\<close>\<close>

lemma heap_Init_nil: "heap_Init jobQueue_heap (ob, []) = (ob, [])"
  by (simp add: heap_Init_def jobQueue_defs)

lemma JobQueues_Push_eq:
  fixes jq :: "'v JobQueues" and j :: "'v Job"
  defines "ob \<equiv> (objs jq)(next_addr jq := \<lparr>job_Job = j, index = 0\<rparr>)"
  assumes "heap_Push jobQueue_heap (ob, queue_of jq (Queue j)) (next_addr jq) = (ob', q')"
  shows "JobQueues_Push j jq = jq\<lparr>jobQueues := (jobQueues jq)(Queue j \<mapsto> q'),
      jobLocators := (jobLocators jq)(JobID j \<mapsto> \<lparr>queue = Queue j, job_ptr = next_addr jq\<rparr>),
      closed := closed jq \<union> set (notifiers jq), notifiers := [], objs := ob', next_addr := Suc (next_addr jq)\<rparr>"
  using assms by (auto simp: JobQueues_Push_def Let_def heap_Init_nil queue_of_def split: option.splits)

lemma JobQueues_Push_refines:
  assumes inv: "jq_inv jq" and new: "jobLocators jq (JobID j) = None"
  shows "jq_inv (JobQueues_Push j jq)"
    and "jq_abs (JobQueues_Push j jq) = (jq_abs jq)(JobID j \<mapsto> j)"
proof -
  let ?jj = "next_addr jq" and ?q = "queue_of jq (Queue j)"
  define ob where "ob = (objs jq)(?jj := \<lparr>job_Job = j, index = 0\<rparr>)"
  define J where "J = (job_at jq)(?jj := j)"
  obtain ob' q' where push: "heap_Push jobQueue_heap (ob, ?q) ?jj = (ob', q')" by fastforce
  define jq' where "jq' = JobQueues_Push j jq"
  note jq' = jq'_def [unfolded JobQueues_Push_eq [OF push [unfolded ob_def]]]
  have ok: "queue_ok jq (Queue j) ?q" using queue_of_ok [OF inv] .
  have jj: "?jj \<notin> set ?q" using ok by (auto simp: queue_ok_def)
  have pos: "?q ! i \<noteq> ?jj" if "i < length ?q" for i using jj nth_mem [OF that] by metis
  have ids: "JobID (job_at jq a) \<noteq> JobID j" if "a \<in> set ?q" for a
    using ok that new by (auto simp: queue_ok_def)
  have "heap_ordered (prio_lt J) (length ?q) ?q = heap_ordered (prio_lt (job_at jq)) (length ?q) ?q"
    using jj by (intro heap_ordered_cong) (auto simp: J_def)
  then have qi: "queue_invar J (insert ?jj (set ?q)) ob (ob, ?q)" "heap_ordered (prio_lt J) (length ?q) ?q"
    using ok pos by (auto simp: queue_ok_def queue_invar_def J_def ob_def)
  note res = queue_heap_Push [OF qi _ jj push, simplified]
  have ptr: "job_ptr l \<noteq> ?jj" if "jobLocators jq i = Some l" for i l
    using locator_entry(1,2) [OF inv that] jq_inv_queue [OF inv] by (force simp: queue_ok_def)
  have step: "jq_inv jq' \<and> job_at jq' = J"
  proof (rule queue_step [where name = "Queue j" and S = "insert ?jj (set ?q)" and obs = ob,
        OF inv _ _ res(2)], goal_cases)
    case 1 show ?case by (simp add: jq')
  next
    case 2 show ?case using res(1) by (simp add: jq')
  next
    case (3 a) then show ?case by simp
  next
    case (4 a) then show ?case by (simp add: ob_def)
  next
    case 5 show ?case by (simp add: jq')
  next
    case (6 a) then show ?case using res(3) ok ids by (auto simp: jq' J_def queue_ok_def less_Suc_eq)
  next
    case (7 i l) then show ?case using new by (auto simp: jq')
  next
    case (8 i l)
    show ?case
    proof (cases "i = JobID j")
      case True
      then have "l = \<lparr>queue = Queue j, job_ptr = ?jj\<rparr>" using 8 by (simp add: jq')
      then show ?thesis using True res(3) by (simp add: J_def)
    next
      case False
      then have li: "jobLocators jq i = Some l" using 8 by (simp add: jq')
      show ?thesis
        using li locator_entry(2,3) [OF inv li] ptr [OF li] res(3) by (cases "queue l = Queue j") (simp_all add: J_def)
    qed
  qed
  then show "jq_inv (JobQueues_Push j jq)" by (simp add: jq'_def)
  show "jq_abs (JobQueues_Push j jq) = (jq_abs jq)(JobID j \<mapsto> j)"
    unfolding jq'_def [symmetric] jq_abs_def using ptr fun_cong [OF conjunct2 [OF step]]
    by (auto simp: jq' J_def fun_eq_iff intro!: option.map_cong)
qed

section \<open>Taking a job out of its queue\<close>

text \<open>
  \<open>Remove\<close> and \<open>Pop\<close> end in the same way: the heap has given up the entry \<open>x\<close> of the queue, and
  the locator of its job is deleted.
\<close>

lemma queue_delete:
  assumes inv: "jq_inv jq" and q: "jobQueues jq name = Some q"
    and heap: "queue_invar (job_at jq) (set q) (objs jq) (ob', q')"
      "heap_ordered (prio_lt (job_at jq)) (length q') q'"
    and x: "set q = insert x (set q')" "x \<notin> set q'" "JobID (job_at jq x) = i"
  defines "jq' \<equiv> jq\<lparr>jobQueues := (jobQueues jq)(name \<mapsto> q'), objs := ob',
                     jobLocators := (jobLocators jq)(i := None)\<rparr>"
  shows "jq_inv jq'" and "jq_abs jq' = (jq_abs jq)(i := None)"
    and "jq_abs jq i = Some (job_at jq x)" and "Queue (job_at jq x) = name"
proof -
  have ok: "queue_ok jq name q" using jq_inv_queue [OF inv q] .
  have qof: "queue_of jq name = q" using q by (simp add: queue_of_def)
  have lx: "jobLocators jq i = Some \<lparr>queue = name, job_ptr = x\<rparr>" "Queue (job_at jq x) = name"
    using ok x by (auto simp: queue_ok_def)
  then show "jq_abs jq i = Some (job_at jq x)" "Queue (job_at jq x) = name" by (simp_all add: jq_abs_def)
  have ids: "JobID (job_at jq a) \<noteq> i" if "a \<in> set q'" for a
  proof
    assume "JobID (job_at jq a) = i"
    moreover have "jobLocators jq (JobID (job_at jq a)) = Some \<lparr>queue = name, job_ptr = a\<rparr>"
      using queue_ok_locator [OF ok] that x(1) by simp
    ultimately have "a = x" using lx(1) by simp
    then show False using that x(2) by simp
  qed
  have step: "jq_inv jq' \<and> job_at jq' = job_at jq"
  proof (rule queue_step [where name = name and S = "set q" and obs = "objs jq", OF inv _ _ heap(2)], goal_cases)
    case 1 show ?case by (simp add: jq'_def)
  next
    case 2 show ?case using heap(1) by (simp add: jq'_def)
  next
    case (3 a) then show ?case by (simp add: qof)
  next
    case (4 a) then show ?case by simp
  next
    case 5 show ?case by (simp add: jq'_def)
  next
    case (6 a) then show ?case using ok ids x(1) by (auto simp: jq'_def queue_ok_def)
  next
    case (7 k l) then show ?case using lx by (auto simp: jq'_def)
  next
    case (8 k l)
    then have l: "jobLocators jq k = Some l" "k \<noteq> i" by (auto simp: jq'_def split: if_splits)
    note e = locator_entry(2,3) [OF inv l(1)]
    have "job_ptr l \<noteq> x" using e(2) x(3) l(2) by auto
    then show ?case using e l x(1) by (cases "queue l = name") (simp_all add: qof)
  qed
  then show "jq_inv jq'" by simp
  show "jq_abs jq' = (jq_abs jq)(i := None)"
    using fun_cong [OF conjunct2 [OF step]]
    by (auto simp: jq_abs_def fun_eq_iff jq'_def intro!: option.map_cong)
qed

lemma JobQueues_Remove_refines:
  assumes inv: "jq_inv jq"
  shows "case jq_abs jq i of
      None \<Rightarrow> JobQueues_Remove i jq = Inl ErrJobQueueNotFound
    | Some j \<Rightarrow> \<exists>jq'. JobQueues_Remove i jq = Inr jq' \<and> jq_inv jq' \<and> jq_abs jq' = (jq_abs jq)(i := None)"
proof (cases "jobLocators jq i")
  case None
  then show ?thesis by (simp add: jq_abs_def JobQueues_Remove_def)
next
  case (Some l)
  let ?q = "queue_of jq (queue l)"
  note e = locator_entry [OF inv Some]
  obtain k where k: "k < length ?q" "index (objs jq (job_ptr l)) = int k" "?q ! k = job_ptr l"
    using e(4) by blast
  obtain ob' q' x where rm: "heap_Remove jobQueue_heap (objs jq, ?q) k = ((ob', q'), x)"
    by (metis surj_pair)
  have ok: "queue_ok jq (queue l) ?q" using queue_of_ok [OF inv] .
  note r = queue_heap_Remove [OF queue_ok_invar [OF ok] _ k(1) rm]
  have ord: "heap_ordered (prio_lt (job_at jq)) (length ?q) ?q" using ok by (simp add: queue_ok_def)
  note r = r [OF ord]
  have xid: "JobID (job_at jq x) = i" using r(5) k(3) e(3) by simp
  note d = queue_delete [OF inv e(1) r(1,2,3,4) xid]
  have "JobQueues_Remove i jq = Inr (jq\<lparr>jobQueues := (jobQueues jq)(queue l \<mapsto> q'), objs := ob',
      jobLocators := (jobLocators jq)(i := None)\<rparr>)"
    using Some e(1) k rm by (simp add: JobQueues_Remove_def)
  then show ?thesis using d by simp
qed

section \<open>\<open>Pop\<close>\<close>

text \<open>The waiting jobs are the entries of the queues.\<close>

lemma jq_abs_entry:
  assumes "jq_inv jq"
  shows "jq_abs jq i = Some j \<longleftrightarrow>
    (\<exists>q. jobQueues jq (Queue j) = Some q \<and> (\<exists>a\<in>set q. job_at jq a = j)) \<and> JobID j = i"
proof
  assume "jq_abs jq i = Some j"
  then obtain l where l: "jobLocators jq i = Some l" "j = job_at jq (job_ptr l)"
    by (auto simp: jq_abs_def)
  note e = locator_entry [OF assms l(1)]
  have "Queue j = queue l" using e(1,2) jq_inv_queue [OF assms e(1)] l(2) by (simp add: queue_ok_def)
  then show "(\<exists>q. jobQueues jq (Queue j) = Some q \<and> (\<exists>a\<in>set q. job_at jq a = j)) \<and> JobID j = i"
    using e l(2) by auto
next
  assume "(\<exists>q. jobQueues jq (Queue j) = Some q \<and> (\<exists>a\<in>set q. job_at jq a = j)) \<and> JobID j = i"
  then obtain q a where "jobQueues jq (Queue j) = Some q" "a \<in> set q" "job_at jq a = j" "JobID j = i" by blast
  moreover from this have "jobLocators jq (JobID (job_at jq a)) = Some \<lparr>queue = Queue j, job_ptr = a\<rparr>"
    using queue_ok_locator [OF jq_inv_queue [OF assms]] by blast
  ultimately show "jq_abs jq i = Some j" by (simp add: jq_abs_def)
qed

definition queue_top :: "'v JobQueues \<Rightarrow> string \<Rightarrow> uint32 option" where
  "queue_top jq name =
     (case jobQueues jq name of Some (a # _) \<Rightarrow> Some (Priority (job_at jq a)) | _ \<Rightarrow> None)"

lemma Pop_scan_result:
  "Pop_scan jq ord hq hp = hq \<and> (\<forall>n\<in>set ord. \<forall>p. queue_top jq n = Some p \<longrightarrow> p \<le> hp) \<or>
   (\<exists>n\<in>set ord. \<exists>p. Pop_scan jq ord hq hp = Some n \<and> queue_top jq n = Some p \<and> hp < p \<and>
      (\<forall>m\<in>set ord. \<forall>p'. queue_top jq m = Some p' \<longrightarrow> p' \<le> p))"
proof (induction ord arbitrary: hq hp)
  case Nil
  then show ?case by simp
next
  case (Cons n ns)
  show ?case
  proof (cases "\<exists>p. queue_top jq n = Some p \<and> hp < p")
    case True
    then obtain p where p: "queue_top jq n = Some p" "hp < p" by blast
    then have eq: "Pop_scan jq (n # ns) hq hp = Pop_scan jq ns (Some n) p"
      by (auto simp: queue_top_def split: option.splits list.splits)
    have "Pop_scan jq ns (Some n) p = Some n \<and> (\<forall>m\<in>set ns. \<forall>p'. queue_top jq m = Some p' \<longrightarrow> p' \<le> p) \<or>
      (\<exists>m\<in>set ns. \<exists>r. Pop_scan jq ns (Some n) p = Some m \<and> queue_top jq m = Some r \<and> p < r \<and>
        (\<forall>m'\<in>set ns. \<forall>p'. queue_top jq m' = Some p' \<longrightarrow> p' \<le> r))"
      by (rule Cons.IH)
    then show ?thesis
    proof (elim disjE conjE bexE exE)
      fix m r
      assume m: "m \<in> set ns" "Pop_scan jq ns (Some n) p = Some m" "queue_top jq m = Some r" "p < r"
        and mx: "\<forall>m'\<in>set ns. \<forall>p'. queue_top jq m' = Some p' \<longrightarrow> p' \<le> r"
      have "hp < r" "\<forall>m'\<in>set (n # ns). \<forall>p'. queue_top jq m' = Some p' \<longrightarrow> p' \<le> r"
        using mx m(4) p by (auto intro: less_trans less_imp_le)
      then show ?thesis unfolding eq using m by (intro disjI2 bexI [of _ m] exI [of _ r]) auto
    qed (unfold eq, use p in \<open>intro disjI2 bexI [of _ n] exI [of _ p], auto\<close>)
  next
    case False
    then have eq: "Pop_scan jq (n # ns) hq hp = Pop_scan jq ns hq hp"
      by (auto simp: queue_top_def split: option.splits list.splits)
    have le: "\<forall>p. queue_top jq n = Some p \<longrightarrow> p \<le> hp" using False by (auto simp: not_less)
    from Cons.IH [of hq hp] show ?thesis
    proof (elim disjE conjE bexE exE)
      fix m r
      assume m: "m \<in> set ns" "Pop_scan jq ns hq hp = Some m" "queue_top jq m = Some r" "hp < r"
        and mx: "\<forall>m'\<in>set ns. \<forall>p'. queue_top jq m' = Some p' \<longrightarrow> p' \<le> r"
      have "\<forall>m'\<in>set (n # ns). \<forall>p'. queue_top jq m' = Some p' \<longrightarrow> p' \<le> r"
        using mx m(4) le by (auto intro: order_trans less_imp_le)
      then show ?thesis unfolding eq using m by (intro disjI2 bexI [of _ m] exI [of _ r]) auto
    qed (unfold eq, use le in auto)
  qed
qed

text \<open>The first entry of a queue has the highest priority in it.\<close>

lemma queue_top_max:
  assumes "jq_inv jq" "jobQueues jq name = Some q" "a \<in> set q"
  shows "\<exists>p. queue_top jq name = Some p \<and> Priority (job_at jq a) \<le> p"
proof -
  have ok: "queue_ok jq name q" using jq_inv_queue [OF assms(1,2)] .
  obtain k where k: "k < length q" "q ! k = a" using assms(3) by (auto simp: in_set_conv_nth)
  have "\<not> prio_lt (job_at jq) (q ! k) (q ! 0)"
    using ok k(1) by (intro jobHeap.heap_ordered_root [of _ "length q"]) (simp_all add: queue_ok_def)
  then show ?thesis using assms(2,3) k by (cases q) (auto simp: queue_top_def prio_lt_def not_less)
qed

lemma Pop_pass_refines:
  assumes inv: "jq_inv jq" and pass: "Pop_pass False wait ord jq = (out, jq')"
  shows "if \<exists>i j. jq_abs jq i = Some j \<and> Queue j \<in> set ord \<and> 0 < Priority j
    then \<exists>j. out = Got j \<and> jq_abs jq (JobID j) = Some j \<and> Queue j \<in> set ord \<and> 0 < Priority j \<and>
      (\<forall>i' j'. jq_abs jq i' = Some j' \<and> Queue j' \<in> set ord \<longrightarrow> Priority j' \<le> Priority j) \<and>
      jq_inv jq' \<and> jq_abs jq' = (jq_abs jq)(JobID j := None)
    else out = (if wait then Blocked (next_chan jq) else Failed ErrJobQueueEmpty) \<and>
      jq_inv jq' \<and> jq_abs jq' = jq_abs jq"
  using Pop_scan_result [of jq ord None 0]
proof
  assume none: "Pop_scan jq ord None 0 = None \<and> (\<forall>n\<in>set ord. \<forall>p. queue_top jq n = Some p \<longrightarrow> p \<le> 0)"
  have "\<not> (\<exists>i j. jq_abs jq i = Some j \<and> Queue j \<in> set ord \<and> 0 < Priority j)"
    using none queue_top_max [OF inv] unfolding jq_abs_entry [OF inv] by fastforce
  moreover have "jq_inv (jq\<lparr>notifiers := a, next_chan := b\<rparr>) \<and>
      jq_abs (jq\<lparr>notifiers := a, next_chan := b\<rparr>) = jq_abs jq" for a b
    using inv by (simp add: jq_inv_def queue_ok_def located_def jq_abs_def fun_eq_iff)
  ultimately show ?thesis using pass none inv by (auto simp: Pop_pass_def split: if_splits)
next
  assume "\<exists>n\<in>set ord. \<exists>p. Pop_scan jq ord None 0 = Some n \<and> queue_top jq n = Some p \<and> 0 < p \<and>
    (\<forall>m\<in>set ord. \<forall>p'. queue_top jq m = Some p' \<longrightarrow> p' \<le> p)"
  then obtain n p where n: "n \<in> set ord" "Pop_scan jq ord None 0 = Some n" "queue_top jq n = Some p" "0 < p"
    and max: "\<And>m p'. m \<in> set ord \<Longrightarrow> queue_top jq m = Some p' \<Longrightarrow> p' \<le> p"
    by blast
  obtain q where q: "jobQueues jq n = Some q" "q \<noteq> []" "p = Priority (job_at jq (q ! 0))"
    using n(3) by (auto simp: queue_top_def split: option.splits list.splits)
  obtain ob' q' x where pop: "heap_Pop jobQueue_heap (objs jq, q) = ((ob', q'), x)" by (metis surj_pair)
  have ok: "queue_ok jq n q" using jq_inv_queue [OF inv q(1)] .
  then have ord: "heap_ordered (prio_lt (job_at jq)) (length q) q" by (simp add: queue_ok_def)
  note r = queue_heap_Pop [OF queue_ok_invar [OF ok] ord q(2) pop]
  note d = queue_delete [OF inv q(1) r(1,2,3,4) refl]
  let ?j = "job_at jq x"
  have j': "job_Job (ob' x) = ?j" using r(1) by (simp add: queue_invar_def)
  have out: "out = Got ?j" "jq' = jq\<lparr>jobQueues := (jobQueues jq)(n \<mapsto> q'), objs := ob',
      jobLocators := (jobLocators jq)(JobID ?j := None)\<rparr>"
    using pass n(2) q(1) pop j' by (auto simp: Pop_pass_def Let_def)
  have pj: "Priority ?j = p" using r(5) q(3) by simp
  have "Priority j' \<le> Priority ?j" if "jq_abs jq i' = Some j'" "Queue j' \<in> set ord" for i' j'
    using that queue_top_max [OF inv] max pj unfolding jq_abs_entry [OF inv] by fastforce
  moreover have "jq_abs jq (JobID ?j) = Some ?j" "Queue ?j = n" using d(3,4) by simp_all
  ultimately show ?thesis using d(1,2) out n(1,4) pj by auto
qed

lemma Pop_pass_ctx: "Pop_pass True wait ord jq = (Failed CtxErr, jq)"
  by (simp add: Pop_pass_def)

text \<open>Go ranges over a map in some order: a permutation of its keys.\<close>

definition map_order :: "(string list \<Rightarrow> string list) \<Rightarrow> bool" where
  "map_order iter \<longleftrightarrow> (\<forall>ks. mset (iter ks) = mset ks)"

lemma map_order_set: "map_order iter \<Longrightarrow> set (iter ks) = set ks"
  unfolding map_order_def by (metis set_mset_mset)

lemma validQueues_job:
  assumes "jq_inv jq" "jq_abs jq i = Some j" "map_order iter"
  shows "Queue j \<in> set (iter (validQueues jq queues)) \<longleftrightarrow> Queue j \<in> set queues"
  using assms jq_abs_entry [OF assms(1)] by (auto simp: validQueues_def map_order_set)

section \<open>The abstract specification and the refinement\<close>

datatype 'v jq_op = OpPush "'v Job" | OpRemove uint32 | OpPop "string list" bool

datatype 'v jq_result = Pushed | Removed | RemoveErr jq_error | Popped "'v pop_outcome"

definition jq_exec ::
  "(string list \<Rightarrow> string list) \<Rightarrow> 'v jq_op \<Rightarrow> 'v JobQueues \<Rightarrow> 'v jq_result \<times> 'v JobQueues" where
  "jq_exec iter op jq =
     (case op of
        OpPush j \<Rightarrow> (Pushed, JobQueues_Push j jq)
      | OpRemove i \<Rightarrow>
          (case JobQueues_Remove i jq of Inl e \<Rightarrow> (RemoveErr e, jq) | Inr jq' \<Rightarrow> (Removed, jq'))
      | OpPop queues wait \<Rightarrow>
          (case JobQueues_Pop iter False queues wait jq of (out, jq') \<Rightarrow> (Popped out, jq')))"

definition op_ok :: "'v jq_op \<Rightarrow> 'v JobQueues \<Rightarrow> bool" where
  "op_ok op jq \<longleftrightarrow> (case op of OpPush j \<Rightarrow> jq_abs jq (JobID j) = None | _ \<Rightarrow> True)"

inductive spec_step ::
  "'v jq_op \<Rightarrow> (uint32 \<rightharpoonup> 'v Job) \<Rightarrow> 'v jq_result \<Rightarrow> (uint32 \<rightharpoonup> 'v Job) \<Rightarrow> bool" where
  spec_push: "spec_step (OpPush j) s Pushed (s(JobID j \<mapsto> j))"
| spec_remove: "s i = Some j \<Longrightarrow> spec_step (OpRemove i) s Removed (s(i := None))"
| spec_missing: "s i = None \<Longrightarrow> spec_step (OpRemove i) s (RemoveErr ErrJobQueueNotFound) s"
| spec_pop: "s (JobID j) = Some j \<Longrightarrow> Queue j \<in> set queues \<Longrightarrow> 0 < Priority j \<Longrightarrow>
    (\<And>i' j'. s i' = Some j' \<Longrightarrow> Queue j' \<in> set queues \<Longrightarrow> Priority j' \<le> Priority j) \<Longrightarrow>
    spec_step (OpPop queues wait) s (Popped (Got j)) (s(JobID j := None))"
| spec_empty: "(\<And>i j. s i = Some j \<Longrightarrow> Queue j \<in> set queues \<Longrightarrow> Priority j = 0) \<Longrightarrow>
    spec_step (OpPop queues False) s (Popped (Failed ErrJobQueueEmpty)) s"
| spec_wait: "(\<And>i j. s i = Some j \<Longrightarrow> Queue j \<in> set queues \<Longrightarrow> Priority j = 0) \<Longrightarrow>
    spec_step (OpPop queues True) s (Popped (Blocked c)) s"

inductive_cases spec_pop_cases: "spec_step (OpPop queues wait) s (Popped out) s'"

lemma jq_abs_None: "jq_abs jq i = None \<longleftrightarrow> jobLocators jq i = None"
  by (simp add: jq_abs_def)

lemma jq_inv_New: "jq_inv (NewJobQueues nil_job)" and jq_abs_New: "jq_abs (NewJobQueues nil_job) = Map.empty"
  by (simp_all add: jq_inv_def NewJobQueues_def jq_abs_def fun_eq_iff)

lemma JobQueues_Pop_spec:
  assumes inv: "jq_inv jq" and it: "map_order iter"
    and pop: "JobQueues_Pop iter False queues wait jq = (out, jq')"
  shows "jq_inv jq' \<and> spec_step (OpPop queues wait) (jq_abs jq) (Popped out) (jq_abs jq')"
proof -
  let ?ord = "iter (validQueues jq queues)"
  have vq: "Queue j \<in> set ?ord \<longleftrightarrow> Queue j \<in> set queues" if "jq_abs jq i = Some j" for i j
    using validQueues_job [OF inv that it] .
  have pass: "Pop_pass False wait ?ord jq = (out, jq')" using pop by (simp add: JobQueues_Pop_def)
  show ?thesis
  proof (cases "\<exists>i j. jq_abs jq i = Some j \<and> Queue j \<in> set ?ord \<and> 0 < Priority j")
    case True
    with Pop_pass_refines [OF inv pass] vq show ?thesis by (auto intro!: spec_pop)
  next
    case False
    then have "Priority j = 0" if "jq_abs jq i = Some j" "Queue j \<in> set queues" for i j
      using vq [OF that(1)] that False by (metis word_gt_0)
    with False Pop_pass_refines [OF inv pass] show ?thesis
      by (cases wait) (auto intro!: spec_empty spec_wait)
  qed
qed

lemma Pop_pass_spec:
  assumes inv: "jq_inv jq" and pass: "Pop_pass False wait ord jq = (out, jq')"
  shows "jq_inv jq' \<and> spec_step (OpPop ord wait) (jq_abs jq) (Popped out) (jq_abs jq')"
proof (cases "\<exists>i j. jq_abs jq i = Some j \<and> Queue j \<in> set ord \<and> 0 < Priority j")
  case True
  with Pop_pass_refines [OF inv pass] show ?thesis by (auto intro!: spec_pop)
next
  case False
  then have "Priority j = 0" if "jq_abs jq i = Some j" "Queue j \<in> set ord" for i j
    using that by (metis word_gt_0)
  with False Pop_pass_refines [OF inv pass] show ?thesis
    by (cases wait) (auto intro!: spec_empty spec_wait)
qed

lemma jq_exec_spec:
  assumes inv: "jq_inv jq" and it: "map_order iter" and ok: "op_ok op jq"
    and ex: "jq_exec iter op jq = (r, jq')"
  shows "jq_inv jq' \<and> spec_step op (jq_abs jq) r (jq_abs jq')"
proof (cases op)
  case (OpPush j)
  then show ?thesis
    using ex ok JobQueues_Push_refines [OF inv, of j]
    by (auto simp: jq_exec_def op_ok_def jq_abs_None intro: spec_push)
next
  case (OpRemove i)
  then show ?thesis
    using ex inv JobQueues_Remove_refines [OF inv, of i]
    by (auto simp: jq_exec_def split: option.splits intro: spec_remove spec_missing)
next
  case (OpPop queues wait)
  then show ?thesis
    using ex JobQueues_Pop_spec [OF inv it] by (auto simp: jq_exec_def split: prod.splits)
qed

text \<open>
  A history of calls: each with the iteration order the runtime used for it. Every state it
  reaches satisfies the invariant as long as pushed identifiers are not in use.
\<close>

type_synonym 'v jq_call = "(string list \<Rightarrow> string list) \<times> 'v jq_op"

definition jq_step :: "'v jq_call \<Rightarrow> 'v JobQueues \<Rightarrow> 'v JobQueues" where
  "jq_step c jq = snd (jq_exec (fst c) (snd c) jq)"

definition call_ok :: "'v jq_call \<Rightarrow> 'v JobQueues \<Rightarrow> bool" where
  "call_ok c jq \<longleftrightarrow> map_order (fst c) \<and> op_ok (snd c) jq"

interpretation jq_events: event_system jq_step call_ok jq_inv
proof
  fix jq :: "'v JobQueues" and c
  assume "jq_inv jq" "call_ok c jq"
  then show "jq_inv (jq_step c jq)"
    using jq_exec_spec [of jq "fst c" "snd c"]
    by (cases "jq_exec (fst c) (snd c) jq") (auto simp: jq_step_def call_ok_def)
qed

section \<open>The contract of the job queues towards their users\<close>

locale job_store =
  fixes push :: "'v Job \<Rightarrow> 's \<Rightarrow> 's"
    and remove :: "uint32 \<Rightarrow> 's \<Rightarrow> jq_error + 's"
    and pop :: "(string list \<Rightarrow> string list) \<Rightarrow> bool \<Rightarrow> string list \<Rightarrow> bool \<Rightarrow> 's \<Rightarrow> 'v pop_outcome \<times> 's"
    and pass :: "bool \<Rightarrow> bool \<Rightarrow> string list \<Rightarrow> 's \<Rightarrow> 'v pop_outcome \<times> 's"
    and store_inv :: "'s \<Rightarrow> bool"
    and waiting :: "'s \<Rightarrow> uint32 \<rightharpoonup> 'v Job"
  assumes push_store: "store_inv s \<Longrightarrow> waiting s (JobID j) = None \<Longrightarrow>
      store_inv (push j s) \<and> waiting (push j s) = (waiting s)(JobID j \<mapsto> j)"
    and remove_store: "store_inv s \<Longrightarrow> waiting s i = Some j \<Longrightarrow>
      \<exists>s'. remove i s = Inr s' \<and> store_inv s' \<and> waiting s' = (waiting s)(i := None)"
    and remove_none: "store_inv s \<Longrightarrow> waiting s i = None \<Longrightarrow> remove i s = Inl ErrJobQueueNotFound"
    and pop_store: "store_inv s \<Longrightarrow> map_order iter \<Longrightarrow> pop iter False queues wait s = (out, s') \<Longrightarrow>
      store_inv s' \<and> spec_step (OpPop queues wait) (waiting s) (Popped out) (waiting s')"
    and pop_done: "pop iter True queues wait s = (Failed CtxErr, s)"
    and pass_store: "store_inv s \<Longrightarrow> pass False wait ord s = (out, s') \<Longrightarrow>
      store_inv s' \<and> spec_step (OpPop ord wait) (waiting s) (Popped out) (waiting s')"
    and pass_done: "pass True wait ord s = (Failed CtxErr, s)"
    and waiting_id: "store_inv s \<Longrightarrow> waiting s i = Some j \<Longrightarrow> JobID j = i"
begin

text \<open>Giving back a list of jobs with new identifiers, as the handler does for a lost client.\<close>

lemma push_all:
  assumes "store_inv s" "distinct (map JobID js)" "\<And>j. j \<in> set js \<Longrightarrow> waiting s (JobID j) = None"
  shows "store_inv (fold push js s) \<and>
    waiting (fold push js s) = waiting s ++ map_of (map (\<lambda>j. (JobID j, j)) js)"
  using assms
proof (induction js arbitrary: s)
  case Nil
  then show ?case by simp
next
  case (Cons j js)
  have s1: "store_inv (push j s)" "waiting (push j s) = (waiting s)(JobID j \<mapsto> j)"
    using push_store [of s j] Cons.prems by simp_all
  have ne: "JobID k \<noteq> JobID j" if "k \<in> set js" for k
    using Cons.prems(2) imageI [OF that, of JobID] by auto
  have "store_inv (fold push js (push j s)) \<and>
      waiting (fold push js (push j s)) = waiting (push j s) ++ map_of (map (\<lambda>j. (JobID j, j)) js)"
    using Cons.prems s1 ne by (intro Cons.IH) auto
  moreover have "map_of (map (\<lambda>j. (JobID j, j)) js) (JobID j) = None"
    using Cons.prems(2) by (auto simp: map_of_eq_None_iff image_iff)
  ultimately show ?case using s1(2) by (auto simp: map_add_def fun_eq_iff split: option.splits)
qed

end

interpretation jobs: job_store JobQueues_Push JobQueues_Remove JobQueues_Pop Pop_pass jq_inv jq_abs
proof (unfold_locales, goal_cases)
  case (1 s j)
  then show ?case using JobQueues_Push_refines [of s j] by (simp add: jq_abs_None)
next
  case (2 s i j)
  then show ?case using JobQueues_Remove_refines [of s i] by simp
next
  case (3 s i)
  then show ?case using JobQueues_Remove_refines [of s i] by simp
next
  case (4 s iter queues wait out s')
  then show ?case using JobQueues_Pop_spec by blast
next
  case (5 iter queues wait s)
  show ?case by (simp add: JobQueues_Pop_def Pop_pass_ctx)
next
  case (6 s wait ord out s')
  then show ?case using Pop_pass_spec by blast
next
  case (7 wait ord s)
  show ?case by (simp add: Pop_pass_ctx)
next
  case (8 s i j)
  then show ?case using jq_abs_entry by blast
qed

section \<open>Wake-ups\<close>

lemma closed_mono: "c \<in> closed jq \<Longrightarrow> c \<in> closed (jq_step op jq)"
  by (auto simp: jq_step_def jq_exec_def JobQueues_Push_def JobQueues_Remove_def JobQueues_Pop_def
      Pop_pass_def Let_def split: jq_op.splits sum.splits option.splits prod.splits if_splits)

lemma notifier_kept:
  "c \<in> set (notifiers jq) \<Longrightarrow> c \<in> set (notifiers (jq_step op jq)) \<or> c \<in> closed (jq_step op jq)"
  by (auto simp: jq_step_def jq_exec_def JobQueues_Push_def JobQueues_Remove_def JobQueues_Pop_def
      Pop_pass_def Let_def split: jq_op.splits sum.splits option.splits prod.splits if_splits)

lemma push_closes: "c \<in> set (notifiers jq) \<Longrightarrow> c \<in> closed (jq_step (iter, OpPush j) jq)"
  by (auto simp: jq_step_def jq_exec_def JobQueues_Push_def Let_def split: prod.splits)

lemma closed_run: "c \<in> closed jq \<Longrightarrow> c \<in> closed (run_events jq_step cs jq)"
  by (induction cs arbitrary: jq) (auto intro: closed_mono)

lemma notifier_run:
  assumes "c \<in> set (notifiers jq)" "(iter, OpPush j) \<in> set cs"
  shows "c \<in> closed (run_events jq_step cs jq)"
  using assms
proof (induction cs arbitrary: jq)
  case Nil
  then show ?case by simp
next
  case (Cons op cs)
  show ?case
  proof (cases "op = (iter, OpPush j)")
    case True
    then show ?thesis using closed_run [OF push_closes [OF Cons.prems(1)]] by simp
  next
    case False
    then show ?thesis
      using notifier_kept [OF Cons.prems(1), of op] Cons.prems(2) Cons.IH closed_run by auto
  qed
qed

lemma Pop_blocked_notifier:
  "JobQueues_Pop iter d queues wait jq = (Blocked c, jq') \<Longrightarrow> c \<in> set (notifiers jq')"
  by (auto simp: JobQueues_Pop_def Pop_pass_def Let_def split: option.splits if_splits prod.splits)

section \<open>Properties of the job queues\<close>

definition jobA :: "nat Job" where
  "jobA = \<lparr>Queue = ''q1'', JobID = 1, Payload = 10, Priority = 5\<rparr>"

definition jobB :: "nat Job" where
  "jobB = \<lparr>Queue = ''q1'', JobID = 2, Payload = 20, Priority = 9\<rparr>"

definition nil_jobN :: "nat job" where
  "nil_jobN = \<lparr>job_Job = jobA, index = 0\<rparr>"

lemmas jq_eval =
  run_events.simps admissible_run.simps jq_step_def call_ok_def op_ok_def jq_exec_def map_order_def
  NewJobQueues_def jobA_def jobB_def nil_jobN_def JobQueues_Push_def JobQueues_Pop_def Pop_pass_def
  heap_Push_def heap_Pop_def heap_up.simps heap_down_def heap_down_loop.simps heap_Init_def
  jobQueue_defs set_index_def list_swap_def parent_def validQueues_def Let_def jq_abs_def down_child_def

text \<open>
  C1: Refinement. After any history of calls in which pushed identifiers are not in use, the
  next call on the job queues is a step of the abstract map of waiting jobs: \<open>Push\<close> inserts,
  \<open>Remove\<close> deletes or reports a missing job, \<open>Pop\<close> delivers and deletes a job whose priority no
  waiting job of the requested queues exceeds, and reports an empty queue (or waits) only
  when no job of positive priority waits there.
\<close>

theorem job_queues_refine:
  assumes "admissible_run jq_step call_ok cs (NewJobQueues nil_job)"
    and "jq = run_events jq_step cs (NewJobQueues nil_job)"
    and "call_ok (iter, op) jq" and "jq_exec iter op jq = (r, jq')"
  shows "spec_step op (jq_abs jq) r (jq_abs jq')"
proof -
  have "jq_inv jq" using jq_events.run_invariant [OF jq_inv_New assms(1)] assms(2) by simp
  then show ?thesis using jq_exec_spec [OF _ _ _ assms(4)] assms(3) by (simp add: call_ok_def)
qed

theorem job_queues_refine_witness:
  defines "jq \<equiv> run_events jq_step [(id, OpPush jobA), (id, OpPush jobB)] (NewJobQueues nil_jobN)"
  shows "spec_step (OpPop [''q1''] False) (jq_abs jq) (Popped (Got jobB))
    (jq_abs (snd (jq_exec id (OpPop [''q1''] False) jq)))"
proof (rule job_queues_refine)
  show "admissible_run jq_step call_ok [(id, OpPush jobA), (id, OpPush jobB)] (NewJobQueues nil_jobN)"
    by (simp add: jq_eval)
  show "jq = run_events jq_step [(id, OpPush jobA), (id, OpPush jobB)] (NewJobQueues nil_jobN)"
    by (simp add: jq_def)
  show "call_ok (id, OpPop [''q1''] False) jq" by (simp add: call_ok_def op_ok_def map_order_def)
  show "jq_exec id (OpPop [''q1''] False) jq =
    (Popped (Got jobB), snd (jq_exec id (OpPop [''q1''] False) jq))"
    by (simp add: jq_def jq_eval)
qed

text \<open>
  C7: Invariant and absence of panics. After any history of admissible calls every queue is
  heap ordered, every queued object records its own position, and every locator points at the
  entry of its job; so \<open>Remove\<close> never indexes a queue out of range.
\<close>

theorem job_queues_invariant:
  assumes "admissible_run jq_step call_ok cs (NewJobQueues nil_job)"
  defines "jq \<equiv> run_events jq_step cs (NewJobQueues nil_job)"
  shows "(jobQueues jq name = Some q \<longrightarrow> queue_ok jq name q) \<and>
    (jobLocators jq i = Some l \<longrightarrow> located jq i l) \<and> JobQueues_Remove i jq \<noteq> Inl JQPanic"
proof -
  have inv: "jq_inv jq" unfolding jq_def using jq_events.run_invariant [OF jq_inv_New assms(1)] .
  moreover have "JobQueues_Remove i jq \<noteq> Inl JQPanic"
    using JobQueues_Remove_refines [OF inv, of i] by (auto split: option.splits)
  ultimately show ?thesis by (simp add: jq_inv_def)
qed

theorem job_queues_invariant_witness:
  "JobQueues_Remove 1 (run_events jq_step [(id, OpPush jobA), (id, OpPush jobB)] (NewJobQueues nil_jobN))
     \<noteq> Inl JQPanic"
  using job_queues_invariant [of "[(id, OpPush jobA), (id, OpPush jobB)]" nil_jobN "''q1''" "[]" 1]
  by (simp add: jq_eval)

text \<open>
  A job of priority 0 is never delivered: in every state that satisfies the invariant, a job
  that \<open>Pop\<close> returns has a positive priority, so a waiting job of priority 0 stays in its queue
  (the running maximum starts at 0 and is replaced only by a strictly greater priority).
\<close>

theorem pop_skips_priority_zero:
  assumes "jq_inv jq" "map_order iter" "jq_abs jq i = Some j" "Priority j = 0"
    and "JobQueues_Pop iter ctxDone queues wait jq = (out, jq')"
  shows "out \<noteq> Got j \<and> jq_abs jq' i = Some j"
proof (cases ctxDone)
  case True
  then show ?thesis using assms by (auto simp: JobQueues_Pop_def Pop_pass_ctx)
next
  case False
  then have step: "spec_step (OpPop queues wait) (jq_abs jq) (Popped out) (jq_abs jq')"
    using JobQueues_Pop_spec [OF assms(1,2)] assms(5) by simp
  from step show ?thesis
  proof (rule spec_pop_cases)
    fix k
    assume k: "out = Got k" "jq_abs jq' = (jq_abs jq)(JobID k := None)"
      "jq_abs jq (JobID k) = Some k" "0 < Priority k"
    have "j \<noteq> k" using k(4) assms(4) by auto
    moreover have "JobID k \<noteq> i" using k(3) assms(3) \<open>j \<noteq> k\<close> by auto
    ultimately show ?thesis using k(1,2) assms(3) by simp
  qed (use assms(3) in simp_all)
qed

definition job0 :: "nat Job" where
  "job0 = \<lparr>Queue = ''q1'', JobID = 3, Payload = 30, Priority = 0\<rparr>"

theorem pop_skips_priority_zero_witness:
  defines "jq \<equiv> JobQueues_Push job0 (NewJobQueues nil_jobN)"
  shows "jq_abs jq 3 = Some job0 \<and> fst (JobQueues_Pop id False [''q1''] False jq) \<noteq> Got job0 \<and>
    jq_abs (snd (JobQueues_Pop id False [''q1''] False jq)) 3 = Some job0"
proof -
  have inv: "jq_inv jq" "jq_abs jq 3 = Some job0"
    using JobQueues_Push_refines [OF jq_inv_New, of nil_jobN job0]
    by (simp_all add: jq_def job0_def NewJobQueues_def)
  show ?thesis
    using inv pop_skips_priority_zero [OF inv(1) _ inv(2), of id False "[''q1'']" False]
    by (cases "JobQueues_Pop id False [''q1''] False jq") (simp add: job0_def map_order_def)
qed

text \<open>
  C34: A waiting \<open>Pop\<close> never sees a queue created after the call began: if none of the requested
  queues exists when \<open>Pop\<close> is called with \<open>wait\<close>, it is still blocked after every wake-up,
  whatever the other goroutines pushed in between (until its context is cancelled).
\<close>

theorem pop_wait_misses_new_queues:
  assumes "\<forall>q\<in>set queues. jobQueues jq q = None" "map_order iter"
    and "\<forall>ev\<in>set evs. \<not> fst ev"
  shows "\<exists>c jq'. Pop_loop iter (validQueues jq queues) True evs
    (JobQueues_Pop iter False queues True jq) = (Blocked c, jq')"
proof -
  have none: "validQueues jq queues = []" using assms(1) by (auto simp: validQueues_def filter_empty_conv)
  have iter: "iter [] = []" using map_order_set [OF assms(2), of "[]"] by simp
  have pass: "\<exists>c jq''. Pop_pass False True (iter []) jq' = (Blocked c, jq'')" for jq' :: "'a JobQueues"
    by (simp add: Pop_pass_def iter)
  have "\<exists>c' jq''. Pop_loop iter [] True evs (Blocked c, jq') = (Blocked c', jq'')" for c and jq' :: "'a JobQueues"
    using assms(3)
  proof (induction evs arbitrary: c jq')
    case Nil
    then show ?case by simp
  next
    case (Cons ev evs)
    obtain env where "ev = (False, env)" using Cons.prems by (cases ev) auto
    moreover obtain c' jq'' where "Pop_pass False True (iter []) (env jq') = (Blocked c', jq'')"
      using pass by blast
    ultimately show ?case using Cons by simp
  qed
  then show ?thesis using pass [of jq] by (auto simp: JobQueues_Pop_def none)
qed

theorem pop_wait_misses_new_queues_witness:
  "(\<exists>c jq'. Pop_loop id [] True [(False, JobQueues_Push jobA)]
      (JobQueues_Pop id False [''q1''] True (NewJobQueues nil_jobN)) = (Blocked c, jq')) \<and>
   fst (JobQueues_Pop id False [''q1''] True (JobQueues_Push jobA (NewJobQueues nil_jobN))) = Got jobA"
  using pop_wait_misses_new_queues [of "[''q1'']" "NewJobQueues nil_jobN" id "[(False, JobQueues_Push jobA)]"]
  by (simp add: jq_eval)

text \<open>
  No lost wake-up: the channel on which a blocked \<open>Pop\<close> waits is closed by the first later
  \<open>Push\<close>, whatever other calls come before and after it.
\<close>

theorem push_wakes_blocked_pop:
  assumes "JobQueues_Pop iter ctxDone queues wait jq = (Blocked c, jq')"
    and "(iter', OpPush j) \<in> set cs"
  shows "c \<in> closed (run_events jq_step cs jq')"
  using notifier_run [OF Pop_blocked_notifier [OF assms(1)] assms(2)] .

theorem push_wakes_blocked_pop_witness:
  "0 \<in> closed (run_events jq_step [(id, OpRemove 7), (id, OpPush jobA)]
     (snd (JobQueues_Pop id False [''q1''] True (NewJobQueues nil_jobN))))"
proof (rule push_wakes_blocked_pop)
  show "JobQueues_Pop id False [''q1''] True (NewJobQueues nil_jobN) =
    (Blocked 0, snd (JobQueues_Pop id False [''q1''] True (NewJobQueues nil_jobN)))"
    by (simp add: jq_eval)
qed simp

end
