(* ===== verification/QueueHandler.thy ===== *)
theory QueueHandler
  imports JobQueue
begin

text \<open>
  The job centre's request handler, \<open>9-job-centre/main.go\<close>: which client works on which job.
  Each operation of \<open>queueHandler\<close> is a state transformer on its record. \<open>GetJob\<close> takes two
  locks one after the other (the queues' lock in \<open>Pop\<close>, then the handler's lock), so besides
  the whole operation there are its two halves, and the concurrent system below lets any other
  request run in between and while \<open>Pop\<close> waits.

  Shown: the concurrent system refines an abstract one in which every job is in exactly one
  place (waiting, taken by a client that has not yet registered it, worked on by a client);
  no job is lost or changed unless it is deleted; only the client that works on a job can
  abort it; the registration never writes to a missing map; and the one way in which the
  handler deviates from what its users expect, the deletion of a job that is between the
  two halves of \<open>GetJob\<close>.
\<close>

type_synonym client = string

record 'v jobClient =
  client_Job :: "'v Job"
  ClientID :: client

record 'v queueHandler =
  jobID :: uint32
  queues :: "'v JobQueues"
  clientJob :: "client \<rightharpoonup> uint32 set"
  inProgress :: "uint32 \<rightharpoonup> 'v jobClient"

datatype qh_error = ErrNoJob | ErrNotAllowed uint32 | ErrClientID | ErrQueue jq_error | QHPanic

definition initQueueHandler :: "'v job \<Rightarrow> 'v queueHandler" where
  "initQueueHandler nil_job =
     \<lparr>jobID = 0, queues = NewJobQueues nil_job, clientJob = Map.empty, inProgress = Map.empty\<rparr>"

text \<open>\<open>proto.GetClientID\<close>: the context's value, when there is one and it is not empty.\<close>

definition GetClientID :: "client option \<Rightarrow> qh_error + client" where
  "GetClientID ctx =
     (case ctx of None \<Rightarrow> Inl ErrClientID | Some c \<Rightarrow> if c = '''' then Inl ErrClientID else Inr c)"

definition PutJob :: "string \<Rightarrow> 'v \<Rightarrow> uint32 \<Rightarrow> 'v queueHandler \<Rightarrow> uint32 \<times> 'v queueHandler" where
  "PutJob q v priority h =
     (let i = jobID h + 1;
          j = \<lparr>Queue = q, JobID = i, Payload = v, Priority = priority\<rparr>
      in (i, h\<lparr>jobID := i, queues := JobQueues_Push j (queues h)\<rparr>))"

text \<open>
  The second half of \<open>GetJob\<close>, under the handler's lock: an assignment into the client's set,
  which panics when the client has none (a write to a nil map), and into \<open>inProgress\<close>.
\<close>

definition GetJob_register :: "client \<Rightarrow> 'v Job \<Rightarrow> 'v queueHandler \<Rightarrow> qh_error + 'v queueHandler" where
  "GetJob_register c j h =
     (case clientJob h c of
        None \<Rightarrow> Inl QHPanic
      | Some ids \<Rightarrow>
          Inr (h\<lparr>clientJob := (clientJob h)(c \<mapsto> insert (JobID j) ids),
                 inProgress := (inProgress h)(JobID j \<mapsto> \<lparr>client_Job = j, ClientID = c\<rparr>)\<rparr>))"

datatype 'v get_reply = Reply uint32 'v uint32 string | GetErr qh_error | GetBlocked chan

definition job_reply :: "'v Job \<Rightarrow> 'v get_reply" where
  "job_reply j = Reply (JobID j) (Payload j) (Priority j) (Queue j)"

definition pop_error :: "jq_error \<Rightarrow> qh_error" where
  "pop_error e = (if e = ErrJobQueueEmpty then ErrNoJob else ErrQueue e)"

definition GetJob ::
  "(string list \<Rightarrow> string list) \<Rightarrow> bool \<Rightarrow> client option \<Rightarrow> string list \<Rightarrow> bool \<Rightarrow> 'v queueHandler \<Rightarrow>
   'v get_reply \<times> 'v queueHandler" where
  "GetJob iter ctxDone ctx qs wait h =
     (case GetClientID ctx of
        Inl e \<Rightarrow> (GetErr e, h)
      | Inr c \<Rightarrow>
          (case JobQueues_Pop iter ctxDone qs wait (queues h) of
             (Failed e, jq) \<Rightarrow> (GetErr (pop_error e), h\<lparr>queues := jq\<rparr>)
           | (Blocked ch, jq) \<Rightarrow> (GetBlocked ch, h\<lparr>queues := jq\<rparr>)
           | (Got j, jq) \<Rightarrow>
               (case GetJob_register c j (h\<lparr>queues := jq\<rparr>) of
                  Inl e \<Rightarrow> (GetErr e, h\<lparr>queues := jq\<rparr>)
                | Inr h' \<Rightarrow> (job_reply j, h'))))"

definition DeleteJob :: "uint32 \<Rightarrow> 'v queueHandler \<Rightarrow> qh_error option \<times> 'v queueHandler" where
  "DeleteJob i h =
     (case JobQueues_Remove i (queues h) of
        Inl JQPanic \<Rightarrow> (Some QHPanic, h)
      | r \<Rightarrow>
          let (found, h1) = (case r of Inl _ \<Rightarrow> (False, h) | Inr jq \<Rightarrow> (True, h\<lparr>queues := jq\<rparr>));
              (found', h2) =
                (case inProgress h1 i of
                   None \<Rightarrow> (found, h1)
                 | Some jc \<Rightarrow>
                     let cj = (case clientJob h1 (ClientID jc) of
                                 None \<Rightarrow> clientJob h1
                               | Some ids \<Rightarrow>
                                   (clientJob h1)(ClientID jc \<mapsto> ids - {JobID (client_Job jc)}))
                     in (True, h1\<lparr>clientJob := cj, inProgress := (inProgress h1)(i := None)\<rparr>))
          in (if found' then None else Some ErrNoJob, h2))"

definition AbortJob :: "client option \<Rightarrow> uint32 \<Rightarrow> 'v queueHandler \<Rightarrow> qh_error option \<times> 'v queueHandler" where
  "AbortJob ctx i h =
     (case GetClientID ctx of
        Inl e \<Rightarrow> (Some e, h)
      | Inr c \<Rightarrow>
          (case inProgress h i of
             None \<Rightarrow> (Some ErrNoJob, h)
           | Some jc \<Rightarrow>
               (case clientJob h c of
                  None \<Rightarrow> (Some (ErrNotAllowed i), h)
                | Some ids \<Rightarrow>
                    if i \<notin> ids then (Some (ErrNotAllowed i), h)
                    else (None, h\<lparr>clientJob := (clientJob h)(c \<mapsto> ids - {i}),
                                  inProgress := (inProgress h)(i := None),
                                  queues := JobQueues_Push (client_Job jc) (queues h)\<rparr>))))"

definition OnClientConnected :: "client \<Rightarrow> 'v queueHandler \<Rightarrow> 'v queueHandler" where
  "OnClientConnected c h =
     (case clientJob h c of
        Some _ \<Rightarrow> h
      | None \<Rightarrow> h\<lparr>clientJob := (clientJob h)(c \<mapsto> {})\<rparr>)"

text \<open>\<open>ids\<close> is the order in which \<open>range\<close> visits the client's set.\<close>

fun abort_loop :: "uint32 list \<Rightarrow> 'v queueHandler \<Rightarrow> 'v queueHandler" where
  "abort_loop [] h = h"
| "abort_loop (i # ids) h =
     (case inProgress h i of
        None \<Rightarrow> abort_loop ids h
      | Some jc \<Rightarrow>
          abort_loop ids (h\<lparr>queues := JobQueues_Push (client_Job jc) (queues h),
                            inProgress := (inProgress h)(i := None)\<rparr>))"

definition OnClientDisconnected :: "uint32 list \<Rightarrow> client \<Rightarrow> 'v queueHandler \<Rightarrow> 'v queueHandler" where
  "OnClientDisconnected ids c h =
     (case clientJob h c of
        None \<Rightarrow> h
      | Some _ \<Rightarrow>
          let h' = abort_loop ids h in h'\<lparr>clientJob := (clientJob h')(c := None)\<rparr>)"

section \<open>The concurrent system\<close>

text \<open>
  The requests of one connection are served one after the other, those of different
  connections interleave at the lock operations. A connection is idle, or its \<open>GetJob\<close> waits
  in \<open>Pop\<close> for a channel (with the queues it found at the start), or it has popped a job and
  not yet registered it.
\<close>

datatype 'v phase = Idle | InPop "string list" chan | Holding "'v Job"

record 'v centre =
  handler :: "'v queueHandler"
  phase :: "client \<Rightarrow> 'v phase"

datatype 'v event =
    Connect client
  | Put string 'v uint32
  | GetStart "string list \<Rightarrow> string list" bool client "string list" bool
  | GetWake "string list \<Rightarrow> string list" bool client
  | GetRegister client
  | Delete uint32
  | Abort client uint32
  | Disconnect "uint32 list" client

datatype 'v response =
  NoResponse | PutOk uint32 | GetResponse "'v get_reply" | Status "qh_error option"

text \<open>What the goroutine of \<open>c\<close> does with the outcome of a pass of \<open>Pop\<close>.\<close>

definition after_pass ::
  "client \<Rightarrow> string list \<Rightarrow> 'v pop_outcome \<times> 'v JobQueues \<Rightarrow> 'v centre \<Rightarrow> 'v response \<times> 'v centre" where
  "after_pass c valid r s =
     (let h = (handler s)\<lparr>queues := snd r\<rparr> in
      case fst r of
        Got j \<Rightarrow> (NoResponse, \<lparr>handler = h, phase = (phase s)(c := Holding j)\<rparr>)
      | Blocked ch \<Rightarrow> (NoResponse, \<lparr>handler = h, phase = (phase s)(c := InPop valid ch)\<rparr>)
      | Failed e \<Rightarrow> (GetResponse (GetErr (pop_error e)), \<lparr>handler = h, phase = (phase s)(c := Idle)\<rparr>))"

definition centre_exec :: "'v event \<Rightarrow> 'v centre \<Rightarrow> 'v response \<times> 'v centre" where
  "centre_exec e s =
     (let h = handler s in
      case e of
        Connect c \<Rightarrow> (NoResponse, s\<lparr>handler := OnClientConnected c h\<rparr>)
      | Put q v p \<Rightarrow> (case PutJob q v p h of (i, h') \<Rightarrow> (PutOk i, s\<lparr>handler := h'\<rparr>))
      | GetStart iter ctxDone c qs wait \<Rightarrow>
          after_pass c (validQueues (queues h) qs) (JobQueues_Pop iter ctxDone qs wait (queues h)) s
      | GetWake iter ctxDone c \<Rightarrow>
          (case phase s c of
             InPop valid ch \<Rightarrow> after_pass c valid (Pop_pass ctxDone True (iter valid) (queues h)) s
           | _ \<Rightarrow> (NoResponse, s))
      | GetRegister c \<Rightarrow>
          (case phase s c of
             Holding j \<Rightarrow>
               (case GetJob_register c j h of
                  Inl er \<Rightarrow> (GetResponse (GetErr er), s\<lparr>phase := (phase s)(c := Idle)\<rparr>)
                | Inr h' \<Rightarrow> (GetResponse (job_reply j), \<lparr>handler = h', phase = (phase s)(c := Idle)\<rparr>))
           | _ \<Rightarrow> (NoResponse, s))
      | Delete i \<Rightarrow> (case DeleteJob i h of (r, h') \<Rightarrow> (Status r, s\<lparr>handler := h'\<rparr>))
      | Abort c i \<Rightarrow> (case AbortJob (Some c) i h of (r, h') \<Rightarrow> (Status r, s\<lparr>handler := h'\<rparr>))
      | Disconnect ids c \<Rightarrow> (NoResponse, s\<lparr>handler := OnClientDisconnected ids c h\<rparr>))"

definition centre_init :: "'v job \<Rightarrow> 'v centre" where
  "centre_init nil_job = \<lparr>handler = initQueueHandler nil_job, phase = (\<lambda>_. Idle)\<rparr>"

text \<open>
  When an event can happen: clients get new identifiers that are not empty, a client's
  requests are served in turn, a waiting \<open>Pop\<close> continues when its channel is closed or the
  context is done, \<open>range\<close> visits every key once, and fewer than \<open>2 ^ 32\<close> jobs are put.
\<close>

definition event_ok :: "'v event \<Rightarrow> 'v centre \<Rightarrow> bool" where
  "event_ok e s =
     (let h = handler s in
      case e of
        Connect c \<Rightarrow> c \<noteq> [] \<and> clientJob h c = None
      | Put q v p \<Rightarrow> jobID h + 1 \<noteq> 0
      | GetStart iter ctxDone c qs wait \<Rightarrow> map_order iter \<and> clientJob h c \<noteq> None \<and> phase s c = Idle
      | GetWake iter ctxDone c \<Rightarrow>
          map_order iter \<and>
          (case phase s c of InPop valid ch \<Rightarrow> ctxDone \<or> ch \<in> closed (queues h) | _ \<Rightarrow> False)
      | GetRegister c \<Rightarrow> (case phase s c of Holding j \<Rightarrow> True | _ \<Rightarrow> False)
      | Delete i \<Rightarrow> True
      | Abort c i \<Rightarrow> clientJob h c \<noteq> None \<and> phase s c = Idle
      | Disconnect ids c \<Rightarrow>
          phase s c = Idle \<and> distinct ids \<and>
          (case clientJob h c of None \<Rightarrow> False | Some js \<Rightarrow> set ids = js))"

definition centre_step :: "'v event \<Rightarrow> 'v centre \<Rightarrow> 'v centre" where
  "centre_step e s = snd (centre_exec e s)"

section \<open>Where a job is\<close>

datatype place = Waiting | Taken client | Working client

text \<open>
  The views on which the invariant and the abstraction are stated: the waiting jobs \<open>w\<close>, the
  jobs in progress \<open>ip\<close>, the clients' sets \<open>cj\<close>, the phases \<open>ph\<close> and the counter \<open>n\<close>.
\<close>

fun lies ::
  "(uint32 \<rightharpoonup> 'v Job) \<Rightarrow> (uint32 \<rightharpoonup> 'v jobClient) \<Rightarrow> (client \<Rightarrow> 'v phase) \<Rightarrow> 'v Job \<Rightarrow> place \<Rightarrow> bool" where
  "lies w ip ph j Waiting \<longleftrightarrow> w (JobID j) = Some j"
| "lies w ip ph j (Taken c) \<longleftrightarrow> ph c = Holding j"
| "lies w ip ph j (Working c) \<longleftrightarrow> ip (JobID j) = Some \<lparr>client_Job = j, ClientID = c\<rparr>"

definition places ::
  "(uint32 \<rightharpoonup> 'v Job) \<Rightarrow> (uint32 \<rightharpoonup> 'v jobClient) \<Rightarrow> (client \<Rightarrow> 'v phase) \<Rightarrow> ('v Job \<times> place) set" where
  "places w ip ph = {(j, p). lies w ip ph j p}"

definition place_inv ::
  "(uint32 \<rightharpoonup> 'v Job) \<Rightarrow> (uint32 \<rightharpoonup> 'v jobClient) \<Rightarrow> (client \<rightharpoonup> uint32 set) \<Rightarrow> (client \<Rightarrow> 'v phase) \<Rightarrow>
   uint32 \<Rightarrow> bool" where
  "place_inv w ip cj ph n \<longleftrightarrow>
     (\<forall>i j. w i = Some j \<longrightarrow> JobID j = i \<and> i \<le> n \<and> ip i = None) \<and>
     (\<forall>i jc. ip i = Some jc \<longrightarrow> JobID (client_Job jc) = i \<and> i \<le> n \<and>
        (\<exists>ids. cj (ClientID jc) = Some ids \<and> i \<in> ids)) \<and>
     (\<forall>c ids i. cj c = Some ids \<and> i \<in> ids \<longrightarrow> (\<exists>jc. ip i = Some jc \<and> ClientID jc = c)) \<and>
     (\<forall>c j. ph c = Holding j \<longrightarrow> w (JobID j) = None \<and> ip (JobID j) = None \<and> JobID j \<le> n) \<and>
     (\<forall>c c' j j'. ph c = Holding j \<and> ph c' = Holding j' \<and> JobID j = JobID j' \<longrightarrow> c = c') \<and>
     (\<forall>c. ph c \<noteq> Idle \<longrightarrow> cj c \<noteq> None) \<and> cj [] = None"

definition one_place :: "('v Job \<times> place) set \<Rightarrow> bool" where
  "one_place S \<longleftrightarrow> (\<forall>x\<in>S. \<forall>y\<in>S. JobID (fst x) = JobID (fst y) \<longrightarrow> x = y)"

definition centre_inv :: "'v centre \<Rightarrow> bool" where
  "centre_inv s \<longleftrightarrow>
     jq_inv (queues (handler s)) \<and>
     place_inv (jq_abs (queues (handler s))) (inProgress (handler s)) (clientJob (handler s))
       (phase s) (jobID (handler s))"

definition centre_abs :: "'v centre \<Rightarrow> ('v Job \<times> place) set" where
  "centre_abs s = places (jq_abs (queues (handler s))) (inProgress (handler s)) (phase s)"

lemma places_iff [simp]: "(j, p) \<in> places w ip ph \<longleftrightarrow> lies w ip ph j p"
  by (simp add: places_def)

lemma place_inv_waiting:
  "place_inv w ip cj ph n \<Longrightarrow> w i = Some j \<Longrightarrow> JobID j = i \<and> i \<le> n \<and> ip i = None"
  unfolding place_inv_def by blast

lemma place_inv_working:
  "place_inv w ip cj ph n \<Longrightarrow> ip i = Some jc \<Longrightarrow>
   JobID (client_Job jc) = i \<and> i \<le> n \<and> (\<exists>ids. cj (ClientID jc) = Some ids \<and> i \<in> ids)"
  unfolding place_inv_def by blast

lemma place_inv_client:
  "place_inv w ip cj ph n \<Longrightarrow> cj c = Some ids \<Longrightarrow> i \<in> ids \<Longrightarrow> \<exists>jc. ip i = Some jc \<and> ClientID jc = c"
  unfolding place_inv_def by blast

lemma place_inv_holding:
  "place_inv w ip cj ph n \<Longrightarrow> ph c = Holding j \<Longrightarrow>
   w (JobID j) = None \<and> ip (JobID j) = None \<and> JobID j \<le> n \<and> cj c \<noteq> None"
  unfolding place_inv_def by (metis phase.distinct(3))

lemma place_inv_phase_client: "place_inv w ip cj ph n \<Longrightarrow> ph c \<noteq> Idle \<Longrightarrow> cj c \<noteq> None"
  and place_inv_no_empty: "place_inv w ip cj ph n \<Longrightarrow> cj [] = None"
  unfolding place_inv_def by blast+

lemma place_invI:
  assumes "\<And>i j. w i = Some j \<Longrightarrow> JobID j = i \<and> i \<le> n \<and> ip i = None"
    and "\<And>i d. ip i = Some d \<Longrightarrow>
      JobID (client_Job d) = i \<and> i \<le> n \<and> (\<exists>ids. cj (ClientID d) = Some ids \<and> i \<in> ids)"
    and "\<And>c ids i. cj c = Some ids \<Longrightarrow> i \<in> ids \<Longrightarrow> \<exists>d. ip i = Some d \<and> ClientID d = c"
    and "\<And>c j. ph c = Holding j \<Longrightarrow> w (JobID j) = None \<and> ip (JobID j) = None \<and> JobID j \<le> n"
    and "\<And>c c' j j'. ph c = Holding j \<Longrightarrow> ph c' = Holding j' \<Longrightarrow> JobID j = JobID j' \<Longrightarrow> c = c'"
    and "\<And>c. ph c \<noteq> Idle \<Longrightarrow> cj c \<noteq> None" and "cj [] = None"
  shows "place_inv w ip cj ph n"
  using assms unfolding place_inv_def by blast

lemma place_inv_in: "place_inv w ip cj ph n \<Longrightarrow> ip k = Some d \<Longrightarrow> cj (ClientID d) = Some ids \<Longrightarrow> k \<in> ids"
  by (drule (1) place_inv_working) auto

lemma place_inv_dom: "place_inv w ip cj ph n \<Longrightarrow> ip k = Some d \<Longrightarrow> cj (ClientID d) \<noteq> None"
  by (drule (1) place_inv_working) auto

lemma place_inv_mem: "place_inv w ip cj ph n \<Longrightarrow> ip k = Some d \<Longrightarrow> cj c = Some ids \<Longrightarrow> k \<in> ids \<Longrightarrow> c = ClientID d"
  by (drule (2) place_inv_client) auto

lemma place_inv_holder:
  "place_inv w ip cj ph n \<Longrightarrow> ph c = Holding j \<Longrightarrow> ph c' = Holding j' \<Longrightarrow> JobID j = JobID j' \<Longrightarrow> c = c'"
  unfolding place_inv_def by blast

lemma place_inv_bound: "place_inv w ip cj ph n \<Longrightarrow> lies w ip ph j p \<Longrightarrow> JobID j \<le> n"
  by (cases p) (auto dest: place_inv_waiting place_inv_working place_inv_holding)

lemma place_inv_one: "place_inv w ip cj ph n \<Longrightarrow> one_place (places w ip ph)"
proof (unfold one_place_def, intro ballI impI)
  fix x y
  assume inv: "place_inv w ip cj ph n" and xy: "x \<in> places w ip ph" "y \<in> places w ip ph"
    and id: "JobID (fst x) = JobID (fst y)"
  obtain j p k q where "x = (j, p)" "y = (k, q)" by (cases x, cases y)
  note x = this
  have lj: "lies w ip ph j p" and lk: "lies w ip ph k q" using xy x by auto
  have jk: "JobID j = JobID k" using id x by simp
  have "j = k \<and> p = q"
  proof (cases p)
    case Waiting
    then have j: "w (JobID k) = Some j" "ip (JobID k) = None"
      using lj jk place_inv_waiting [OF inv] by auto
    show ?thesis using lk j Waiting by (cases q) (auto dest: place_inv_holding [OF inv])
  next
    case (Taken c)
    then have c: "ph c = Holding j" "w (JobID k) = None" "ip (JobID k) = None"
      using lj jk place_inv_holding [OF inv, of c j] by auto
    show ?thesis
    proof (cases q)
      case (Taken c')
      then have "ph c' = Holding k" using lk by simp
      then show ?thesis using c(1) \<open>p = Taken c\<close> Taken place_inv_holder [OF inv c(1) _ jk] by auto
    qed (use lk c in simp_all)
  next
    case (Working c)
    then have j: "ip (JobID k) = Some \<lparr>client_Job = j, ClientID = c\<rparr>" using lj jk by simp
    show ?thesis using lk j Working
      by (cases q) (auto dest: place_inv_holding [OF inv] place_inv_waiting [OF inv])
  qed
  then show "x = y" using x by simp
qed

section \<open>How the moves of a job keep the invariant\<close>

lemma place_inv_add:
  assumes "place_inv w ip cj ph n" "JobID j \<le> n" "w (JobID j) = None" "ip (JobID j) = None"
    and "\<And>c k. ph c = Holding k \<Longrightarrow> JobID k \<noteq> JobID j"
  shows "place_inv (w(JobID j \<mapsto> j)) ip cj ph n"
    and "places (w(JobID j \<mapsto> j)) ip ph = insert (j, Waiting) (places w ip ph)"
proof -
  show "place_inv (w(JobID j \<mapsto> j)) ip cj ph n"
    using assms unfolding place_inv_def by (simp add: fun_upd_def) metis
  have "lies (w(JobID j \<mapsto> j)) ip ph k p \<longleftrightarrow> k = j \<and> p = Waiting \<or> lies w ip ph k p" for k p
    using assms(3) by (cases p) auto
  then show "places (w(JobID j \<mapsto> j)) ip ph = insert (j, Waiting) (places w ip ph)"
    unfolding places_def by blast
qed

lemma place_inv_bound_mono: "place_inv w ip cj ph n \<Longrightarrow> n \<le> m \<Longrightarrow> place_inv w ip cj ph m"
  unfolding place_inv_def by (meson order_trans)

lemma place_inv_remove_waiting:
  assumes "place_inv w ip cj ph n" "w i = Some j"
  shows "place_inv (w(i := None)) ip cj ph n"
    and "places (w(i := None)) ip ph = places w ip ph - {(j, Waiting)}"
proof -
  show "place_inv (w(i := None)) ip cj ph n"
    using assms(1) unfolding place_inv_def by (simp add: fun_upd_def) blast
  have "JobID j = i" using place_inv_waiting [OF assms] by simp
  then have "lies (w(i := None)) ip ph k p \<longleftrightarrow> lies w ip ph k p \<and> (k, p) \<noteq> (j, Waiting)" for k p
    using assms(2) by (cases p) auto
  then show "places (w(i := None)) ip ph = places w ip ph - {(j, Waiting)}"
    unfolding places_def by blast
qed

lemma place_inv_remove_working:
  assumes "place_inv w ip cj ph n" "ip i = Some jc" "cj (ClientID jc) = Some ids"
  shows "place_inv w (ip(i := None)) (cj(ClientID jc \<mapsto> ids - {i})) ph n"
    and "places w (ip(i := None)) ph = places w ip ph - {(client_Job jc, Working (ClientID jc))}"
proof -
  note inv = assms(1)
  show "place_inv w (ip(i := None)) (cj(ClientID jc \<mapsto> ids - {i})) ph n"
  proof (rule place_invI, goal_cases)
    case (2 k d)
    then show ?case
      using place_inv_working [OF inv, of k d] place_inv_in [OF inv, of k d] assms(3) by (auto split: if_splits)
  next
    case (3 c s k)
    then show ?case
      using place_inv_client [OF inv _ , of c _ k] place_inv_mem [OF inv assms(2)] assms(3)
      by (auto split: if_splits)
  next
    case (4 c j)
    then show ?case using place_inv_holding [OF inv] by auto
  next
    case (5 c c' j j')
    then show ?case using place_inv_holder [OF inv] by blast
  next
    case (6 c)
    then show ?case using place_inv_phase_client [OF inv] by auto
  qed (use place_inv_waiting [OF inv] place_inv_no_empty [OF inv] assms(3) in \<open>auto\<close>)
  have "JobID (client_Job jc) = i" using place_inv_working [OF assms(1,2)] by simp
  then have "lies w (ip(i := None)) ph k p \<longleftrightarrow>
      lies w ip ph k p \<and> (k, p) \<noteq> (client_Job jc, Working (ClientID jc))" for k p
    using assms(2) by (cases p) auto
  then show "places w (ip(i := None)) ph = places w ip ph - {(client_Job jc, Working (ClientID jc))}"
    unfolding places_def by blast
qed

lemma place_inv_phase:
  assumes "place_inv w ip cj ph n" "\<And>j. ph c \<noteq> Holding j" "\<And>j. x \<noteq> Holding j"
    and "x = Idle \<or> cj c \<noteq> None"
  shows "place_inv w ip cj (ph(c := x)) n" and "places w ip (ph(c := x)) = places w ip ph"
proof -
  note inv = assms(1)
  have old: "ph c' = Holding j" if "(ph(c := x)) c' = Holding j" for c' j
    using that assms(3) by (auto split: if_splits)
  show "place_inv w ip cj (ph(c := x)) n"
  proof (rule place_invI, goal_cases)
    case (4 c j)
    show ?case using place_inv_holding [OF inv old [OF 4]] by simp
  next
    case (5 c c' j j')
    then show ?case using place_inv_holder [OF inv old old] by blast
  next
    case (6 c)
    then show ?case using place_inv_phase_client [OF inv] assms(4) by (auto split: if_splits)
  qed (use place_inv_waiting [OF inv] place_inv_working [OF inv] place_inv_client [OF inv]
      place_inv_no_empty [OF inv] in \<open>blast+\<close>)
  have "lies w ip (ph(c := x)) k p \<longleftrightarrow> lies w ip ph k p" for k p
    using assms(2,3) by (cases p) auto
  then show "places w ip (ph(c := x)) = places w ip ph" by auto
qed

lemma place_inv_hold:
  assumes "place_inv w ip cj ph n" "\<And>j. ph c \<noteq> Holding j" "cj c \<noteq> None"
    and "JobID j \<le> n" "w (JobID j) = None" "ip (JobID j) = None"
    and "\<And>c k. ph c = Holding k \<Longrightarrow> JobID k \<noteq> JobID j"
  shows "place_inv w ip cj (ph(c := Holding j)) n"
    and "places w ip (ph(c := Holding j)) = insert (j, Taken c) (places w ip ph)"
proof -
  show "place_inv w ip cj (ph(c := Holding j)) n"
    using assms unfolding place_inv_def
    by (intro conjI allI impI) (auto split: if_splits)
  have "lies w ip (ph(c := Holding j)) k p \<longleftrightarrow> (k, p) = (j, Taken c) \<or> lies w ip ph k p" for k p
    using assms(2) by (cases p) auto
  then show "places w ip (ph(c := Holding j)) = insert (j, Taken c) (places w ip ph)"
    unfolding places_def by blast
qed

lemma place_inv_register:
  assumes inv: "place_inv w ip cj ph n" and h: "ph c = Holding j" and ids: "cj c = Some ids"
  defines "jc \<equiv> \<lparr>client_Job = j, ClientID = c\<rparr>"
  shows "place_inv w (ip(JobID j \<mapsto> jc)) (cj(c \<mapsto> insert (JobID j) ids)) (ph(c := Idle)) n"
    and "places w (ip(JobID j \<mapsto> jc)) (ph(c := Idle)) =
      insert (j, Working c) (places w ip ph - {(j, Taken c)})"
proof -
  note j = place_inv_holding [OF inv h]
  have "k \<in> ids" if "ip k = Some d" "ClientID d = c" for k d
    using place_inv_in [OF inv that(1)] that(2) ids by simp
  moreover have "JobID j \<notin> s" if "cj c' = Some s" for c' s
    using place_inv_client [OF inv that, of "JobID j"] j by auto
  ultimately show "place_inv w (ip(JobID j \<mapsto> jc)) (cj(c \<mapsto> insert (JobID j) ids)) (ph(c := Idle)) n"
    using inv h ids j unfolding place_inv_def jc_def
    by (intro conjI allI impI) (auto split: if_splits)
  have "lies w (ip(JobID j \<mapsto> jc)) (ph(c := Idle)) k p \<longleftrightarrow>
      (k, p) = (j, Working c) \<or> lies w ip ph k p \<and> (k, p) \<noteq> (j, Taken c)" for k p
    using j h by (cases p) (auto simp: jc_def)
  then show "places w (ip(JobID j \<mapsto> jc)) (ph(c := Idle)) =
      insert (j, Working c) (places w ip ph - {(j, Taken c)})"
    unfolding places_def by blast
qed

lemma place_inv_connect:
  assumes "place_inv w ip cj ph n" "cj c = None" "c \<noteq> []"
  shows "place_inv w ip (cj(c \<mapsto> {})) ph n"
proof -
  have "ClientID d \<noteq> c" if "ip k = Some d" for k d
    using place_inv_dom [OF assms(1) that] assms(2) by auto
  then show ?thesis
    using assms unfolding place_inv_def by (intro conjI allI impI) (auto split: if_splits)
qed

lemma place_inv_leave:
  assumes "place_inv w ip (cj(c \<mapsto> {})) ph n" "ph c = Idle"
  shows "place_inv w ip (cj(c := None)) ph n"
  using assms unfolding place_inv_def
  by (intro conjI allI impI) (auto split: if_splits)

section \<open>The abstract job centre\<close>

text \<open>\<open>top_job qs S j\<close>: \<open>j\<close> waits in one of \<open>qs\<close> with a positive priority that no other waiting job there exceeds.\<close>

definition top_job :: "string list \<Rightarrow> ('v Job \<times> place) set \<Rightarrow> 'v Job \<Rightarrow> bool" where
  "top_job qs S j \<longleftrightarrow>
     (j, Waiting) \<in> S \<and> Queue j \<in> set qs \<and> 0 < Priority j \<and>
     (\<forall>k. (k, Waiting) \<in> S \<and> Queue k \<in> set qs \<longrightarrow> Priority k \<le> Priority j)"

definition no_job :: "string list \<Rightarrow> ('v Job \<times> place) set \<Rightarrow> bool" where
  "no_job qs S \<longleftrightarrow> (\<forall>k. (k, Waiting) \<in> S \<and> Queue k \<in> set qs \<longrightarrow> Priority k = 0)"

definition move :: "'v Job \<Rightarrow> place \<Rightarrow> place \<Rightarrow> ('v Job \<times> place) set \<Rightarrow> ('v Job \<times> place) set" where
  "move j p p' S = insert (j, p') (S - {(j, p)})"

definition give_back :: "client \<Rightarrow> uint32 set \<Rightarrow> 'v Job \<times> place \<Rightarrow> 'v Job \<times> place" where
  "give_back c ids x = (if snd x = Working c \<and> JobID (fst x) \<in> ids then (fst x, Waiting) else x)"

inductive centre_spec ::
  "'v event \<Rightarrow> ('v Job \<times> place) set \<Rightarrow> 'v response \<Rightarrow> ('v Job \<times> place) set \<Rightarrow> bool" where
  sp_connect: "centre_spec (Connect c) S NoResponse S"
| sp_put: "(\<And>k p. (k, p) \<in> S \<Longrightarrow> JobID k \<noteq> i) \<Longrightarrow>
    centre_spec (Put q v pr) S (PutOk i)
      (insert (\<lparr>Queue = q, JobID = i, Payload = v, Priority = pr\<rparr>, Waiting) S)"
| sp_take: "top_job qs S j \<Longrightarrow>
    centre_spec (GetStart iter False c qs wait) S NoResponse (move j Waiting (Taken c) S)"
| sp_no_job: "no_job qs S \<Longrightarrow>
    centre_spec (GetStart iter False c qs False) S (GetResponse (GetErr ErrNoJob)) S"
| sp_wait: "no_job qs S \<Longrightarrow> centre_spec (GetStart iter False c qs True) S NoResponse S"
| sp_done: "centre_spec (GetStart iter True c qs wait) S (GetResponse (GetErr (ErrQueue CtxErr))) S"
| sp_wake_take: "top_job qs S j \<Longrightarrow>
    centre_spec (GetWake iter False c) S NoResponse (move j Waiting (Taken c) S)"
| sp_wake_wait: "centre_spec (GetWake iter False c) S NoResponse S"
| sp_wake_done: "centre_spec (GetWake iter True c) S (GetResponse (GetErr (ErrQueue CtxErr))) S"
| sp_register: "(j, Taken c) \<in> S \<Longrightarrow>
    centre_spec (GetRegister c) S (GetResponse (job_reply j)) (move j (Taken c) (Working c) S)"
| sp_delete: "(j, p) \<in> S \<Longrightarrow> \<forall>c. p \<noteq> Taken c \<Longrightarrow>
    centre_spec (Delete (JobID j)) S (Status None) (S - {(j, p)})"
| sp_delete_missing: "(\<And>j p. (j, p) \<in> S \<Longrightarrow> JobID j = i \<Longrightarrow> \<exists>c. p = Taken c) \<Longrightarrow>
    centre_spec (Delete i) S (Status (Some ErrNoJob)) S"
| sp_abort: "(j, Working c) \<in> S \<Longrightarrow>
    centre_spec (Abort c (JobID j)) S (Status None) (move j (Working c) Waiting S)"
| sp_abort_other: "(j, Working c') \<in> S \<Longrightarrow> c' \<noteq> c \<Longrightarrow>
    centre_spec (Abort c (JobID j)) S (Status (Some (ErrNotAllowed (JobID j)))) S"
| sp_abort_missing: "(\<And>j c'. (j, Working c') \<in> S \<Longrightarrow> JobID j \<noteq> i) \<Longrightarrow>
    centre_spec (Abort c i) S (Status (Some ErrNoJob)) S"
| sp_disconnect: "centre_spec (Disconnect ids c) S NoResponse (give_back c UNIV ` S)"

section \<open>The handler refines the abstract job centre\<close>

text \<open>What one event must establish.\<close>

definition refines_at :: "'v event \<Rightarrow> 'v centre \<Rightarrow> bool" where
  "refines_at e s \<longleftrightarrow>
     centre_inv (snd (centre_exec e s)) \<and>
     centre_spec e (centre_abs s) (fst (centre_exec e s)) (centre_abs (snd (centre_exec e s)))"

lemma refine_put:
  assumes inv: "centre_inv s" and ok: "event_ok (Put q v p) s"
  shows "refines_at (Put q v p) s"
proof -
  let ?h = "handler s"
  let ?i = "jobID ?h + 1"
  let ?j = "\<lparr>Queue = q, JobID = ?i, Payload = v, Priority = p\<rparr>"
  let ?w = "jq_abs (queues ?h)" and ?ip = "inProgress ?h"
  have pi: "place_inv ?w ?ip (clientJob ?h) (phase s) (jobID ?h)" and jq: "jq_inv (queues ?h)"
    using inv by (simp_all add: centre_inv_def)
  have lt: "jobID ?h < ?i" using ok by (simp add: event_ok_def word_less_inc)
  have new: "\<not> lies ?w ?ip (phase s) k x" if "JobID k = ?i" for k x
    using place_inv_bound [OF pi] that lt by (metis not_less)
  have w: "?w ?i = None"
    using place_inv_waiting [OF pi, of ?i] lt by (cases "?w ?i") auto
  have ip: "?ip ?i = None"
    using place_inv_working [OF pi, of ?i] lt by (cases "?ip ?i") auto
  have hold: "JobID k \<noteq> ?i" if "phase s c = Holding k" for c k
    using place_inv_holding [OF pi that] lt by auto
  have push: "jq_inv (JobQueues_Push ?j (queues ?h))" "jq_abs (JobQueues_Push ?j (queues ?h)) = ?w(?i \<mapsto> ?j)"
    using jobs.push_store [OF jq, of ?j] w by simp_all
  have pi': "place_inv ?w ?ip (clientJob ?h) (phase s) ?i"
    using place_inv_bound_mono [OF pi] lt by simp
  have add: "place_inv (?w(?i \<mapsto> ?j)) ?ip (clientJob ?h) (phase s) ?i"
    "places (?w(?i \<mapsto> ?j)) ?ip (phase s) = insert (?j, Waiting) (places ?w ?ip (phase s))"
    using place_inv_add [OF pi', of ?j] w ip hold by simp_all
  have "centre_spec (Put q v p) (centre_abs s) (PutOk ?i) (insert (?j, Waiting) (centre_abs s))"
    using new by (intro sp_put) (auto simp: centre_abs_def)
  then show ?thesis
    using push add by (simp add: refines_at_def centre_exec_def PutJob_def Let_def centre_inv_def centre_abs_def)
qed

lemma place_inv_take:
  assumes inv: "place_inv w ip cj ph n" and w: "w (JobID j) = Some j"
    and ph: "\<And>j. ph c \<noteq> Holding j" and cj: "cj c \<noteq> None"
  shows "place_inv (w(JobID j := None)) ip cj (ph(c := Holding j)) n"
    and "places (w(JobID j := None)) ip (ph(c := Holding j)) = move j Waiting (Taken c) (places w ip ph)"
proof -
  note r = place_inv_remove_waiting [OF inv w]
  have hold: "JobID k \<noteq> JobID j" if "ph c' = Holding k" for c' k
    using place_inv_holding [OF inv that] w by auto
  note h = place_inv_hold [OF r(1) ph cj, of j]
  from h hold place_inv_waiting [OF inv w] r(2)
  show "place_inv (w(JobID j := None)) ip cj (ph(c := Holding j)) n"
    and "places (w(JobID j := None)) ip (ph(c := Holding j)) = move j Waiting (Taken c) (places w ip ph)"
    by (simp_all add: move_def)
qed

lemma after_pass_refines:
  assumes inv: "centre_inv s" and jq: "jq_inv jq'"
    and step: "spec_step (OpPop qs wait) (jq_abs (queues (handler s))) (Popped out) (jq_abs jq')"
    and c: "clientJob (handler s) c \<noteq> None" "\<And>j. phase s c \<noteq> Holding j"
    and r: "after_pass c valid (out, jq') s = (resp, s')"
  shows "centre_inv s' \<and>
    ((\<exists>j. top_job qs (centre_abs s) j \<and> resp = NoResponse \<and> centre_abs s' = move j Waiting (Taken c) (centre_abs s)) \<or>
     no_job qs (centre_abs s) \<and> centre_abs s' = centre_abs s \<and>
     resp = (if wait then NoResponse else GetResponse (GetErr ErrNoJob)))"
proof -
  let ?h = "handler s"
  let ?w = "jq_abs (queues ?h)" and ?ip = "inProgress ?h"
  have pi: "place_inv ?w ?ip (clientJob ?h) (phase s) (jobID ?h)"
    using inv by (simp add: centre_inv_def)
  have none: "no_job qs (centre_abs s)"
    if "\<And>i k. ?w i = Some k \<Longrightarrow> Queue k \<in> set qs \<Longrightarrow> Priority k = 0"
    using that by (auto simp: no_job_def centre_abs_def)
  from step show ?thesis
  proof (rule spec_pop_cases)
    fix j
    assume j: "out = Got j" "jq_abs jq' = ?w(JobID j := None)" "?w (JobID j) = Some j" "Queue j \<in> set qs"
      "0 < Priority j" and max: "\<And>i' j'. ?w i' = Some j' \<Longrightarrow> Queue j' \<in> set qs \<Longrightarrow> Priority j' \<le> Priority j"
    have "top_job qs (centre_abs s) j"
      using j max by (auto simp: top_job_def centre_abs_def)
    moreover note place_inv_take [OF pi j(3) c(2) c(1)]
    ultimately show ?thesis
      using r j(1,2) jq by (auto simp: after_pass_def Let_def centre_inv_def centre_abs_def)
  next
    assume e: "\<not> wait" "out = Failed ErrJobQueueEmpty" "jq_abs jq' = ?w"
      and z: "\<And>i k. ?w i = Some k \<Longrightarrow> Queue k \<in> set qs \<Longrightarrow> Priority k = 0"
    note p = place_inv_phase [OF pi c(2), of Idle]
    show ?thesis
      using r e jq p none [OF z]
      by (auto simp: after_pass_def Let_def centre_inv_def centre_abs_def pop_error_def)
  next
    fix ch
    assume e: wait "out = Blocked ch" "jq_abs jq' = ?w"
      and z: "\<And>i k. ?w i = Some k \<Longrightarrow> Queue k \<in> set qs \<Longrightarrow> Priority k = 0"
    note p = place_inv_phase [OF pi c(2), of "InPop valid ch"]
    show ?thesis
      using r e jq p c(1) none [OF z] by (auto simp: after_pass_def Let_def centre_inv_def centre_abs_def)
  qed
qed

lemma after_pass_done:
  assumes "centre_inv s" "\<And>j. phase s c \<noteq> Holding j"
    and "after_pass c valid (Failed CtxErr, queues (handler s)) s = (resp, s')"
  shows "centre_inv s' \<and> centre_abs s' = centre_abs s \<and> resp = GetResponse (GetErr (ErrQueue CtxErr))"
proof -
  have "place_inv (jq_abs (queues (handler s))) (inProgress (handler s)) (clientJob (handler s)) (phase s)
      (jobID (handler s))"
    using assms(1) by (simp add: centre_inv_def)
  note p = place_inv_phase [OF this assms(2), of Idle]
  have s': "s' = \<lparr>handler = handler s, phase = (phase s)(c := Idle)\<rparr>"
    "resp = GetResponse (GetErr (ErrQueue CtxErr))"
    using assms(3) by (simp_all add: after_pass_def Let_def pop_error_def)
  show ?thesis using assms(1) p by (simp add: s' centre_inv_def centre_abs_def)
qed

lemma refine_get_start:
  assumes inv: "centre_inv s" and ok: "event_ok (GetStart iter d c qs wait) s"
  shows "refines_at (GetStart iter d c qs wait) s"
proof -
  let ?jq = "queues (handler s)"
  have jq: "jq_inv ?jq" using inv by (simp add: centre_inv_def)
  have c: "map_order iter" "clientJob (handler s) c \<noteq> None" "\<And>j. phase s c \<noteq> Holding j"
    using ok by (auto simp: event_ok_def Let_def)
  obtain out jq' where pop: "JobQueues_Pop iter d qs wait ?jq = (out, jq')" by fastforce
  obtain r s' where a: "after_pass c (validQueues ?jq qs) (out, jq') s = (r, s')" by fastforce
  have ex: "centre_exec (GetStart iter d c qs wait) s = (r, s')"
    using pop a by (simp add: centre_exec_def Let_def)
  show ?thesis
  proof (cases d)
    case True
    then have "(out, jq') = (Failed CtxErr, ?jq)" using pop jobs.pop_done by (metis (full_types))
    with after_pass_done [OF inv c(3)] a True ex show ?thesis by (auto simp: refines_at_def intro: sp_done)
  next
    case False
    then have st: "jq_inv jq'" "spec_step (OpPop qs wait) (jq_abs ?jq) (Popped out) (jq_abs jq')"
      using jobs.pop_store [OF jq c(1)] pop by auto
    from after_pass_refines [OF inv st c(2,3) a] False ex show ?thesis
      by (cases wait) (auto simp: refines_at_def intro: sp_take sp_no_job sp_wait)
  qed
qed

lemma refine_get_wake:
  assumes inv: "centre_inv s" and ok: "event_ok (GetWake iter d c) s"
  shows "refines_at (GetWake iter d c) s"
proof -
  let ?jq = "queues (handler s)"
  have jq: "jq_inv ?jq" using inv by (simp add: centre_inv_def)
  obtain valid ch where ph: "phase s c = InPop valid ch"
    using ok by (auto simp: event_ok_def Let_def split: phase.splits)
  then have hold: "\<And>j. phase s c \<noteq> Holding j" and "phase s c \<noteq> Idle" by simp_all
  then have c: "clientJob (handler s) c \<noteq> None"
    using inv place_inv_phase_client unfolding centre_inv_def by blast
  obtain out jq' where pop: "Pop_pass d True (iter valid) ?jq = (out, jq')" by fastforce
  obtain r s' where a: "after_pass c valid (out, jq') s = (r, s')" by fastforce
  have ex: "centre_exec (GetWake iter d c) s = (r, s')"
    using pop a ph by (simp add: centre_exec_def Let_def)
  show ?thesis
  proof (cases d)
    case True
    then have "(out, jq') = (Failed CtxErr, ?jq)" using pop jobs.pass_done by (metis (full_types))
    with after_pass_done [OF inv hold] a True ex show ?thesis by (auto simp: refines_at_def intro: sp_wake_done)
  next
    case False
    then have st: "jq_inv jq'" "spec_step (OpPop (iter valid) True) (jq_abs ?jq) (Popped out) (jq_abs jq')"
      using jobs.pass_store [OF jq] pop by auto
    from after_pass_refines [OF inv st c hold a] False ex show ?thesis
      by (auto simp: refines_at_def intro: sp_wake_take sp_wake_wait)
  qed
qed

lemma refine_register:
  assumes inv: "centre_inv s" and ok: "event_ok (GetRegister c) s"
  shows "refines_at (GetRegister c) s"
proof -
  let ?h = "handler s"
  have pi: "place_inv (jq_abs (queues ?h)) (inProgress ?h) (clientJob ?h) (phase s) (jobID ?h)"
    using inv by (simp add: centre_inv_def)
  obtain j where j: "phase s c = Holding j"
    using ok by (auto simp: event_ok_def Let_def split: phase.splits)
  then obtain ids where ids: "clientJob ?h c = Some ids"
    using place_inv_holding [OF pi j] by auto
  note r = place_inv_register [OF pi j ids]
  have "(j, Taken c) \<in> centre_abs s" using j by (simp add: centre_abs_def)
  from sp_register [OF this] r inv j ids show ?thesis
    by (simp add: refines_at_def centre_exec_def GetJob_register_def centre_inv_def centre_abs_def move_def Let_def)
qed

lemma refine_delete:
  assumes inv: "centre_inv s"
  shows "refines_at (Delete i) s"
proof -
  let ?h = "handler s"
  let ?w = "jq_abs (queues ?h)" and ?ip = "inProgress ?h"
  have pi: "place_inv ?w ?ip (clientJob ?h) (phase s) (jobID ?h)" and jq: "jq_inv (queues ?h)"
    using inv by (simp_all add: centre_inv_def)
  show ?thesis
  proof (cases "?w i")
    case (Some j)
    then have j: "JobID j = i" "?ip i = None" using place_inv_waiting [OF pi] by auto
    obtain jq' where rm: "JobQueues_Remove i (queues ?h) = Inr jq'" "jq_inv jq'" "jq_abs jq' = ?w(i := None)"
      using jobs.remove_store [OF jq Some] by blast
    have "(j, Waiting) \<in> centre_abs s" using Some j(1) by (simp add: centre_abs_def)
    from sp_delete [OF this] place_inv_remove_waiting [OF pi Some] j rm show ?thesis
      by (simp add: refines_at_def centre_exec_def DeleteJob_def Let_def centre_inv_def centre_abs_def)
  next
    case None
    have rm: "JobQueues_Remove i (queues ?h) = Inl ErrJobQueueNotFound" using jobs.remove_none [OF jq None] .
    show ?thesis
    proof (cases "?ip i")
      case (Some jc)
      then obtain ids where jc: "JobID (client_Job jc) = i" "clientJob ?h (ClientID jc) = Some ids"
        using place_inv_working [OF pi] by blast
      then have "(client_Job jc, Working (ClientID jc)) \<in> centre_abs s"
        using Some by (simp add: centre_abs_def)
      from sp_delete [OF this] place_inv_remove_working [OF pi Some jc(2)] jc rm Some jq show ?thesis
        by (simp add: refines_at_def centre_exec_def DeleteJob_def Let_def centre_inv_def centre_abs_def)
    next
      case none: None
      have "\<exists>c. p = Taken c" if "(j, p) \<in> centre_abs s" "JobID j = i" for j p
        using that None none by (cases p) (auto simp: centre_abs_def)
      from sp_delete_missing [of "centre_abs s" i, OF this] none rm inv show ?thesis
        by (simp add: refines_at_def centre_exec_def DeleteJob_def Let_def)
    qed
  qed
qed

text \<open>Putting a job in progress back into its queue: the common step of abort and disconnect.\<close>

lemma place_inv_give_back:
  assumes inv: "place_inv w ip cj ph n" and jc: "ip i = Some jc" "cj (ClientID jc) = Some ids"
  shows "w i = None" "JobID (client_Job jc) = i"
    and "place_inv (w(i \<mapsto> client_Job jc)) (ip(i := None)) (cj(ClientID jc \<mapsto> ids - {i})) ph n"
    and "places (w(i \<mapsto> client_Job jc)) (ip(i := None)) ph =
      move (client_Job jc) (Working (ClientID jc)) Waiting (places w ip ph)"
proof -
  have i: "JobID (client_Job jc) = i" "i \<le> n" using place_inv_working [OF inv jc(1)] by auto
  show w: "w i = None" using place_inv_waiting [OF inv, of i] jc(1) by (cases "w i") auto
  show "JobID (client_Job jc) = i" using i(1) .
  have hold: "JobID k \<noteq> i" if "ph c = Holding k" for c k
    using place_inv_holding [OF inv that] jc(1) by auto
  note r = place_inv_remove_working [OF inv jc]
  note a = place_inv_add [OF r(1), of "client_Job jc"]
  from a i w hold r(2)
  show "place_inv (w(i \<mapsto> client_Job jc)) (ip(i := None)) (cj(ClientID jc \<mapsto> ids - {i})) ph n"
    and "places (w(i \<mapsto> client_Job jc)) (ip(i := None)) ph =
      move (client_Job jc) (Working (ClientID jc)) Waiting (places w ip ph)"
    by (simp_all add: move_def)
qed

lemma refine_abort:
  assumes inv: "centre_inv s" and ok: "event_ok (Abort c i) s"
  shows "refines_at (Abort c i) s"
proof -
  let ?h = "handler s"
  let ?w = "jq_abs (queues ?h)" and ?ip = "inProgress ?h"
  have pi: "place_inv ?w ?ip (clientJob ?h) (phase s) (jobID ?h)" and jq: "jq_inv (queues ?h)"
    using inv by (simp_all add: centre_inv_def)
  obtain ids where ids: "clientJob ?h c = Some ids" using ok by (auto simp: event_ok_def Let_def)
  then have c: "GetClientID (Some c) = Inr c"
    using place_inv_no_empty [OF pi] by (auto simp: GetClientID_def)
  show ?thesis
  proof (cases "?ip i")
    case None
    then have "JobID j \<noteq> i" if "(j, Working c') \<in> centre_abs s" for j c'
      using that by (auto simp: centre_abs_def)
    from sp_abort_missing [of "centre_abs s" i c, OF this] None inv c show ?thesis
      by (simp add: refines_at_def centre_exec_def AbortJob_def Let_def)
  next
    case (Some jc)
    have jc: "JobID (client_Job jc) = i" "(client_Job jc, Working (ClientID jc)) \<in> centre_abs s"
      using place_inv_working [OF pi Some] Some by (auto simp: centre_abs_def)
    show ?thesis
    proof (cases "i \<in> ids")
      case True
      then have own: "ClientID jc = c" using place_inv_mem [OF pi Some ids] by simp
      note g = place_inv_give_back [OF pi Some, unfolded own, OF ids]
      have push: "jq_inv (JobQueues_Push (client_Job jc) (queues ?h))"
        "jq_abs (JobQueues_Push (client_Job jc) (queues ?h)) = ?w(i \<mapsto> client_Job jc)"
        using jobs.push_store [OF jq, of "client_Job jc"] g(1,2) by simp_all
      from sp_abort [OF jc(2) [unfolded own]] g(3,4) push True Some ids c jc(1) own show ?thesis
        by (simp add: refines_at_def centre_exec_def AbortJob_def Let_def centre_inv_def centre_abs_def)
    next
      case False
      then have "ClientID jc \<noteq> c" using place_inv_in [OF pi Some] ids by auto
      from sp_abort_other [OF jc(2) this] False Some ids c jc(1) inv show ?thesis
        by (simp add: refines_at_def centre_exec_def AbortJob_def Let_def)
    qed
  qed
qed

lemma refine_connect:
  assumes inv: "centre_inv s" and ok: "event_ok (Connect c) s"
  shows "refines_at (Connect c) s"
proof -
  have c: "clientJob (handler s) c = None" "c \<noteq> []" using ok by (simp_all add: event_ok_def Let_def)
  have "place_inv (jq_abs (queues (handler s))) (inProgress (handler s)) (clientJob (handler s)) (phase s)
      (jobID (handler s))"
    using inv by (simp add: centre_inv_def)
  note p = place_inv_connect [OF this c]
  from p inv c show ?thesis
    by (simp add: refines_at_def centre_exec_def OnClientConnected_def Let_def centre_inv_def centre_abs_def
        sp_connect)
qed

lemma give_back_insert:
  assumes one: "one_place S" and j: "(j, Working c) \<in> S"
  shows "give_back c ids ` move j (Working c) Waiting S = give_back c (insert (JobID j) ids) ` S"
proof -
  have "give_back c ids x = give_back c (insert (JobID j) ids) x" if "x \<in> S - {(j, Working c)}" for x
  proof -
    have "JobID (fst x) \<noteq> JobID j" using one j that unfolding one_place_def by fastforce
    then show ?thesis by (simp add: give_back_def)
  qed
  then have "give_back c ids ` (S - {(j, Working c)}) = give_back c (insert (JobID j) ids) ` (S - {(j, Working c)})"
    by simp
  moreover have "give_back c ids (j, Waiting) = give_back c (insert (JobID j) ids) (j, Working c)"
    by (simp add: give_back_def)
  ultimately have "give_back c ids ` move j (Working c) Waiting S =
      give_back c (insert (JobID j) ids) ` insert (j, Working c) (S - {(j, Working c)})"
    unfolding move_def image_insert by simp
  also have "insert (j, Working c) (S - {(j, Working c)}) = S" using j by blast
  finally show ?thesis .
qed

lemma give_back_none: "give_back c {} ` S = S"
  by (simp add: give_back_def [abs_def])

lemma abort_loop_correct:
  assumes "jq_inv (queues h)" "distinct ids"
    and "place_inv (jq_abs (queues h)) (inProgress h) (cj(c \<mapsto> set ids)) ph n"
    and "h' = abort_loop ids h"
  shows "jq_inv (queues h') \<and> place_inv (jq_abs (queues h')) (inProgress h') (cj(c \<mapsto> {})) ph n \<and>
    places (jq_abs (queues h')) (inProgress h') ph =
      give_back c (set ids) ` places (jq_abs (queues h)) (inProgress h) ph \<and>
    clientJob h' = clientJob h \<and> jobID h' = jobID h"
  using assms
proof (induction ids arbitrary: h)
  case Nil
  then show ?case by (simp add: give_back_none)
next
  case (Cons i ids)
  let ?w = "jq_abs (queues h)" and ?ip = "inProgress h" and ?cj = "cj(c \<mapsto> set (i # ids))"
  obtain jc where jc: "?ip i = Some jc" "ClientID jc = c"
    using place_inv_client [OF Cons.prems(3), of c "set (i # ids)" i] by auto
  have own: "?cj (ClientID jc) = Some (set (i # ids))" using jc(2) by simp
  note g = place_inv_give_back [OF Cons.prems(3) jc(1) own]
  let ?h = "h\<lparr>queues := JobQueues_Push (client_Job jc) (queues h), inProgress := ?ip(i := None)\<rparr>"
  have push: "jq_inv (queues ?h)" "jq_abs (queues ?h) = ?w(i \<mapsto> client_Job jc)"
    using jobs.push_store [OF Cons.prems(1), of "client_Job jc"] g(1,2) by simp_all
  have cj: "?cj(ClientID jc \<mapsto> set (i # ids) - {i}) = cj(c \<mapsto> set ids)"
    using Cons.prems(2) jc(2) by auto
  have pi: "place_inv (jq_abs (queues ?h)) (inProgress ?h) (cj(c \<mapsto> set ids)) ph n"
    using g(3) unfolding push(2) cj by simp
  have j: "(client_Job jc, Working c) \<in> places ?w ?ip ph" using jc g(2) by simp
  have "h' = abort_loop ids ?h" using Cons.prems(4) jc(1) by simp
  note IH = Cons.IH [OF push(1) _ pi this]
  have "places (jq_abs (queues ?h)) (inProgress ?h) ph = move (client_Job jc) (Working c) Waiting (places ?w ?ip ph)"
    using g(4) unfolding push(2) jc(2) by simp
  then have "give_back c (set ids) ` places (jq_abs (queues ?h)) (inProgress ?h) ph =
      give_back c (set (i # ids)) ` places ?w ?ip ph"
    using give_back_insert [OF place_inv_one [OF Cons.prems(3)] j, of "set ids"] g(2) by simp
  then show ?case using IH Cons.prems(2) by (simp add: fun_upd_def)
qed

lemma refine_disconnect:
  assumes inv: "centre_inv s" and ok: "event_ok (Disconnect ids c) s"
  shows "refines_at (Disconnect ids c) s"
proof -
  let ?h = "handler s"
  let ?w = "jq_abs (queues ?h)" and ?ip = "inProgress ?h"
  have pi: "place_inv ?w ?ip (clientJob ?h) (phase s) (jobID ?h)" and jq: "jq_inv (queues ?h)"
    using inv by (simp_all add: centre_inv_def)
  have c: "phase s c = Idle" "distinct ids" "clientJob ?h c = Some (set ids)"
    using ok by (auto simp: event_ok_def Let_def split: option.splits)
  then have same: "(clientJob ?h)(c \<mapsto> set ids) = clientJob ?h" by auto
  have pi': "place_inv ?w ?ip ((clientJob ?h)(c \<mapsto> set ids)) (phase s) (jobID ?h)"
    unfolding same by (rule pi)
  note a = abort_loop_correct [OF jq c(2) pi' refl]
  have "give_back c (set ids) x = give_back c UNIV x" if x: "x \<in> places ?w ?ip (phase s)" for x
  proof -
    obtain j p where jp: "x = (j, p)" by fastforce
    have "JobID j \<in> set ids" if "p = Working c"
      using place_inv_in [OF pi, of "JobID j"] x c(3) that jp by fastforce
    then show ?thesis by (auto simp: give_back_def jp)
  qed
  then have "give_back c (set ids) ` places ?w ?ip (phase s) = give_back c UNIV ` places ?w ?ip (phase s)"
    by simp
  moreover note place_inv_leave [of _ _ "clientJob ?h" c "phase s"]
  ultimately show ?thesis
    using a c sp_disconnect [of ids c "centre_abs s"]
    by (simp add: refines_at_def centre_exec_def OnClientDisconnected_def Let_def centre_inv_def centre_abs_def)
qed

lemmas refine_events =
  refine_connect refine_put refine_get_start refine_get_wake refine_register refine_delete refine_abort refine_disconnect

lemma centre_refines: "centre_inv s \<Longrightarrow> event_ok e s \<Longrightarrow> refines_at e s"
  by (cases e) (simp_all add: refine_events)

interpretation centre: event_system centre_step event_ok centre_inv
  by unfold_locales (drule (1) centre_refines, simp add: refines_at_def centre_step_def)

lemma centre_inv_init: "centre_inv (centre_init nil_job)"
  by (simp add: centre_inv_def centre_init_def initQueueHandler_def jq_inv_New jq_abs_New place_inv_def)

lemma centre_abs_init: "centre_abs (centre_init nil_job) = {}"
proof -
  have "\<not> lies Map.empty Map.empty (\<lambda>_. Idle) j p" for j p by (cases p) auto
  then show ?thesis
    by (auto simp: centre_abs_def centre_init_def initQueueHandler_def jq_abs_New places_def)
qed

lemma centre_inv_one: "centre_inv s \<Longrightarrow> one_place (centre_abs s)"
  unfolding centre_inv_def centre_abs_def using place_inv_one by blast

section \<open>Properties of the job centre\<close>

lemma centre_run_inv:
  "admissible_run centre_step event_ok es (centre_init nil_job) \<Longrightarrow>
   centre_inv (run_events centre_step es (centre_init nil_job))"
  using centre.run_invariant [OF centre_inv_init] .

lemma centre_exec_spec:
  "centre_inv s \<Longrightarrow> event_ok e s \<Longrightarrow> centre_exec e s = (r, s') \<Longrightarrow>
   centre_inv s' \<and> centre_spec e (centre_abs s) r (centre_abs s')"
  using centre_refines [of s e] by (simp add: refines_at_def)

lemma spec_keeps_job:
  assumes "centre_spec e S r S'" "(j, p) \<in> S" "e \<noteq> Delete (JobID j)"
  shows "\<exists>p'. (j, p') \<in> S'"
  using assms
proof cases
  case (sp_disconnect ids c)
  have "give_back c UNIV (j, p) \<in> S'" using assms(2) sp_disconnect(3) by simp
  then show ?thesis by (auto simp: give_back_def split: if_splits)
qed (use assms(2,3) in \<open>auto simp: move_def\<close>)

lemma job_kept:
  assumes "centre_inv s" "(j, p) \<in> centre_abs s" "admissible_run centre_step event_ok es s"
    and "Delete (JobID j) \<notin> set es"
  shows "\<exists>p'. (j, p') \<in> centre_abs (run_events centre_step es s)"
  using assms
proof (induction es arbitrary: s p)
  case (Cons e es)
  have st: "centre_inv (centre_step e s)" "centre_spec e (centre_abs s) (fst (centre_exec e s)) (centre_abs (centre_step e s))"
    using centre_refines [of s e] Cons.prems(1,3) by (simp_all add: refines_at_def centre_step_def)
  obtain p' where "(j, p') \<in> centre_abs (centre_step e s)"
    using spec_keeps_job [OF st(2) Cons.prems(2)] Cons.prems(4) by auto
  from Cons.IH [OF st(1) this] Cons.prems(3,4) show ?case by simp
qed auto

lemmas centre_eval =
  centre_step_def centre_exec_def event_ok_def centre_init_def initQueueHandler_def PutJob_def
  OnClientConnected_def GetJob_register_def after_pass_def

definition put_events :: "nat event list" where
  "put_events = [Connect ''c'', Put ''q1'' 10 5]"

definition take_events :: "nat event list" where
  "take_events = put_events @ [GetStart id False ''c'' [''q1''] False]"

lemma take_events_ok: "admissible_run centre_step event_ok take_events (centre_init nil_jobN)"
  by (simp add: take_events_def put_events_def centre_eval jq_eval)

lemma put_events_ok: "admissible_run centre_step event_ok put_events (centre_init nil_jobN)"
  by (simp add: put_events_def centre_eval jq_eval)

definition job1 :: "nat Job" where
  "job1 = \<lparr>Queue = ''q1'', JobID = 1, Payload = 10, Priority = 5\<rparr>"

lemma take_events_holds: "phase (run_events centre_step take_events (centre_init nil_jobN)) ''c'' = Holding job1"
  by (simp add: take_events_def put_events_def job1_def centre_eval jq_eval)



text \<open>
  C3: No job is lost: a job that is anywhere in the job centre is still there, unchanged, after
  any further interleaving of requests, connects and disconnects that does not delete it.
\<close>

theorem job_never_lost:
  assumes "admissible_run centre_step event_ok (es @ fs) (centre_init nil_job)"
    and "(j, p) \<in> centre_abs (run_events centre_step es (centre_init nil_job))"
    and "Delete (JobID j) \<notin> set fs"
  shows "\<exists>p'. (j, p') \<in> centre_abs (run_events centre_step (es @ fs) (centre_init nil_job))"
proof -
  let ?s = "run_events centre_step es (centre_init nil_job)"
  have "centre_inv ?s" "admissible_run centre_step event_ok fs ?s"
    using assms(1) centre_run_inv [of es nil_job] by (auto simp: admissible_run_append)
  then show ?thesis using job_kept [OF _ assms(2) _ assms(3)] by (simp add: run_events_append)
qed

theorem job_never_lost_witness:
  "\<exists>p'. (job1, p') \<in> centre_abs (run_events centre_step (take_events @ [GetRegister ''c'', Disconnect [1] ''c''])
     (centre_init nil_jobN))"
proof (rule job_never_lost)
  show "admissible_run centre_step event_ok (take_events @ [GetRegister ''c'', Disconnect [1] ''c'']) (centre_init nil_jobN)"
    by (simp add: take_events_def put_events_def centre_eval jq_eval)
  show "(job1, Taken ''c'') \<in> centre_abs (run_events centre_step take_events (centre_init nil_jobN))"
    using take_events_holds by (simp add: centre_abs_def)
qed simp

text \<open>
  No request makes the handler panic: whatever the interleaving, registering a job finds
  the client's set (no write to a nil map), and removing a job finds it in its queue (no index
  out of range).
\<close>

theorem job_centre_no_panic:
  assumes "admissible_run centre_step event_ok es (centre_init nil_job)"
    and "event_ok e (run_events centre_step es (centre_init nil_job))"
  defines "r \<equiv> fst (centre_exec e (run_events centre_step es (centre_init nil_job)))"
  shows "r \<noteq> GetResponse (GetErr QHPanic) \<and> r \<noteq> Status (Some QHPanic)"
proof -
  obtain S S' where "centre_spec e S r S'"
    using centre_refines [OF centre_run_inv [OF assms(1)] assms(2)] r_def by (auto simp: refines_at_def)
  then show ?thesis by cases (simp_all add: job_reply_def)
qed

theorem job_centre_no_panic_witness:
  defines "s \<equiv> run_events centre_step take_events (centre_init nil_jobN)"
  shows "fst (centre_exec (Delete 1) s) \<noteq> Status (Some QHPanic)"
  using job_centre_no_panic [OF take_events_ok, of "Delete 1"] by (simp add: s_def event_ok_def Let_def)

text \<open>
  C35: A job that a client has just popped and not yet registered cannot be deleted: the delete
  request answers that there is no such job, and the job is then worked on as if nobody had
  asked (\<open>GetJob\<close> releases the lock of the queues before it takes the lock of the handler).
\<close>

theorem delete_misses_taken_job:
  assumes "admissible_run centre_step event_ok es (centre_init nil_job)"
    and "s = run_events centre_step es (centre_init nil_job)" and "phase s c = Holding j"
  shows "fst (centre_exec (Delete (JobID j)) s) = Status (Some ErrNoJob) \<and>
    (j, Working c) \<in> centre_abs (run_events centre_step [Delete (JobID j), GetRegister c] s)"
proof -
  have inv: "centre_inv s" using centre_run_inv [OF assms(1)] assms(2) by simp
  have h: "jq_abs (queues (handler s)) (JobID j) = None" "inProgress (handler s) (JobID j) = None"
    "clientJob (handler s) c \<noteq> None"
    using place_inv_holding [OF inv [unfolded centre_inv_def, THEN conjunct2] assms(3)] by simp_all
  have "JobQueues_Remove (JobID j) (queues (handler s)) = Inl ErrJobQueueNotFound"
    using jobs.remove_none [OF _ h(1)] inv by (simp add: centre_inv_def)
  then have d: "centre_exec (Delete (JobID j)) s = (Status (Some ErrNoJob), s)"
    using h(2) by (simp add: centre_exec_def DeleteJob_def)
  have "(j, Working c) \<in> centre_abs (centre_step (GetRegister c) s)"
    using assms(3) h(3)
    by (auto simp: centre_step_def centre_exec_def GetJob_register_def centre_abs_def Let_def split: option.splits)
  with d show ?thesis by (simp add: centre_step_def)
qed

theorem delete_misses_taken_job_witness:
  "fst (centre_exec (Delete 1) (run_events centre_step take_events (centre_init nil_jobN))) = Status (Some ErrNoJob)"
  using delete_misses_taken_job [OF take_events_ok refl take_events_holds] by (simp add: job1_def)

text \<open>
  Without interference the two halves of \<open>GetJob\<close> are \<open>GetJob\<close>: serving the pop and then
  the registration of one request gives the reply and the state that the function as written
  computes in one go, in each of its outcomes (a job, an error, waiting).
\<close>

theorem get_job_sequential:
  assumes "phase s c = Idle" "c \<noteq> []"
    and "centre_exec (GetStart iter d c qs wait) s = (r, s')"
    and "centre_exec (GetRegister c) s' = (r', s'')"
  shows "case phase s' c of
      Holding j \<Rightarrow> r' = GetResponse (fst (GetJob iter d (Some c) qs wait (handler s))) \<and>
        handler s'' = snd (GetJob iter d (Some c) qs wait (handler s))
    | InPop valid ch \<Rightarrow> GetJob iter d (Some c) qs wait (handler s) = (GetBlocked ch, handler s')
    | Idle \<Rightarrow> r = GetResponse (fst (GetJob iter d (Some c) qs wait (handler s))) \<and>
        handler s' = snd (GetJob iter d (Some c) qs wait (handler s))"
proof -
  obtain out jq' where pop: "JobQueues_Pop iter d qs wait (queues (handler s)) = (out, jq')" by fastforce
  have c: "GetClientID (Some c) = Inr c" using assms(2) by (simp add: GetClientID_def)
  show ?thesis
  proof (cases out)
    case (Got j)
    then have "s' = \<lparr>handler = (handler s)\<lparr>queues := jq'\<rparr>, phase = (phase s)(c := Holding j)\<rparr>"
      using assms(3) pop by (simp add: centre_exec_def after_pass_def Let_def)
    then show ?thesis
      using assms(4) pop Got c
      by (cases "clientJob (handler s) c") (auto simp: centre_exec_def GetJob_def GetJob_register_def)
  qed (use assms(3) pop c in \<open>auto simp: centre_exec_def after_pass_def GetJob_def Let_def\<close>)
qed

theorem get_job_sequential_witness:
  defines "s \<equiv> run_events centre_step put_events (centre_init nil_jobN)"
  shows "handler (run_events centre_step [GetStart id False ''c'' [''q1''] False, GetRegister ''c''] s) =
    snd (GetJob id False (Some ''c'') [''q1''] False (handler s))"
proof -
  have idle: "phase s ''c'' = Idle" by (simp add: s_def put_events_def centre_eval jq_eval)
  have hold: "phase (centre_step (GetStart id False ''c'' [''q1''] False) s) ''c'' = Holding job1"
    using take_events_holds by (simp add: s_def take_events_def run_events_append)
  show ?thesis
    using get_job_sequential [OF idle _ surjective_pairing surjective_pairing, of id False "[''q1'']" False] hold
    by (simp add: centre_step_def)
qed

end
