(* ===== verification/RequestBuffer.thy ===== *)
theory RequestBuffer
  imports Prelude
begin

text \<open>
  How the job centre cuts a connection's byte stream into requests:
  \<open>9-job-centre/proto/server.go\<close>, \<open>nextRequestBuffer\<close> and the type \<open>requestBuffer\<close>. A request is
  kept in chunks of one capacity (\<open>bufSize\<close>, the buffer bufSize of the pool); a chunk is the list of
  its bytes up to its length. The connection is the list of what its reads give: some bytes
  (at most \<open>bufSize\<close>, maybe none) or an error; \<open>CtxDone\<close> marks the moment at which the context is
  cancelled, and the empty list is a connection on which nothing more has arrived yet.

  Shown: whatever the reads cut the stream into, the requests are the lines of the stream, in
  order, and nothing is lost or duplicated; a request's chunks can be read back in pieces of
  any bufSize and give the line; the loops end.
\<close>

datatype read = Data string | ReadErr | CtxDone

datatype read_error = RdErr | RdCtx | RdBlocked

record requestBuffer =
  rb_closed :: bool
  rb_data :: "string list"
  rb_pos :: nat

definition new_requestBuffer :: requestBuffer where
  "new_requestBuffer = \<lparr>rb_closed = False, rb_data = [], rb_pos = 0\<rparr>"

text \<open>The loop that copies a piece of the request into the last chunk, opening new chunks.\<close>

partial_function (option) fill_chunks :: "nat \<Rightarrow> string list \<Rightarrow> string \<Rightarrow> string list option" where
  "fill_chunks bufSize chunks dataBeforeNewLine =
     (if dataBeforeNewLine = [] then Some chunks
      else let chunks' = (if length (last chunks) = bufSize then chunks @ [[]] else chunks);
               bufData = last chunks';
               n = min (bufSize - length bufData) (length dataBeforeNewLine)
           in fill_chunks bufSize (butlast chunks' @ [bufData @ take n dataBeforeNewLine])
                (drop n dataBeforeNewLine))"

text \<open>
  One iteration on the bytes \<open>buf\<close>: the piece before the first line feed goes to the request;
  \<open>Some rest\<close> says that a line feed was found and gives what follows it.
\<close>

definition take_piece :: "nat \<Rightarrow> string \<Rightarrow> requestBuffer \<Rightarrow> (requestBuffer \<times> string option) option" where
  "take_piece bufSize buf rb =
     (let before = takeWhile (\<lambda>b. b \<noteq> newline) buf;
          chunks = (if rb_data rb = [] then [[]] else rb_data rb)
      in case fill_chunks bufSize chunks before of
           None \<Rightarrow> None
         | Some chunks' \<Rightarrow>
             Some (rb\<lparr>rb_data := chunks'\<rparr>,
                   if newline \<in> set buf then Some (drop (Suc (length before)) buf) else None))"

fun read_loop ::
  "nat \<Rightarrow> read list \<Rightarrow> requestBuffer \<Rightarrow> ((read_error + string) \<times> requestBuffer \<times> read list) option" where
  "read_loop bufSize [] rb = Some (Inl RdBlocked, rb, [])"
| "read_loop bufSize (CtxDone # rds) rb = Some (Inl RdCtx, rb, CtxDone # rds)"
| "read_loop bufSize (ReadErr # rds) rb = Some (Inl RdErr, rb, rds)"
| "read_loop bufSize (Data buf # rds) rb =
     (if buf = [] then read_loop bufSize rds rb
      else case take_piece bufSize buf rb of
             None \<Rightarrow> None
           | Some (rb', Some rest) \<Rightarrow> Some (Inr rest, rb', rds)
           | Some (rb', None) \<Rightarrow> read_loop bufSize rds rb')"

definition finish_read ::
  "((read_error + string) \<times> requestBuffer \<times> read list) option \<Rightarrow>
   ((read_error + requestBuffer \<times> string) \<times> requestBuffer \<times> read list) option" where
  "finish_read res =
     (case res of
        None \<Rightarrow> None
      | Some (Inl e, rb, rds) \<Rightarrow> Some (Inl e, rb, rds)
      | Some (Inr rest, rb, rds) \<Rightarrow> Some (Inr (new_requestBuffer, rest), rb, rds))"

definition nextRequestBuffer ::
  "nat \<Rightarrow> read list \<Rightarrow> requestBuffer \<Rightarrow> string \<Rightarrow>
   ((read_error + requestBuffer \<times> string) \<times> requestBuffer \<times> read list) option" where
  "nextRequestBuffer bufSize rds rb prevBuf =
     (if rds \<noteq> [] \<and> hd rds = CtxDone then Some (Inl RdCtx, rb, rds)
      else if prevBuf \<noteq> [] then
        (case take_piece bufSize (take bufSize prevBuf) rb of
           None \<Rightarrow> None
         | Some (rb', Some rest) \<Rightarrow> Some (Inr (new_requestBuffer, rest), rb', rds)
         | Some (rb', None) \<Rightarrow> finish_read (read_loop bufSize rds rb'))
      else finish_read (read_loop bufSize rds rb))"

text \<open>
  The reading goroutine of \<open>looper\<close>: the requests it sends to the other goroutine, until an
  error (or until it waits for more bytes). \<open>fuel\<close> bounds the number of requests.
\<close>

fun request_loop ::
  "nat \<Rightarrow> nat \<Rightarrow> read list \<Rightarrow> requestBuffer \<Rightarrow> string \<Rightarrow> (requestBuffer list \<times> read_error) option" where
  "request_loop 0 bufSize rds rb prevBuf = None"
| "request_loop (Suc fuel) bufSize rds rb prevBuf =
     (case nextRequestBuffer bufSize rds rb prevBuf of
        None \<Rightarrow> None
      | Some (Inl e, rb', rds') \<Rightarrow> Some ([], e)
      | Some (Inr (nextRb, restBuf), rb', rds') \<Rightarrow>
          (case request_loop fuel bufSize rds' nextRb restBuf of
             None \<Rightarrow> None
           | Some (rbs, e) \<Rightarrow> Some (rb' # rbs, e)))"

section \<open>Reading a request back\<close>

datatype rb_error = RBClosed | EOF | OutOfRange | Unimplemented | UnknownWhence | RBPanic

definition requestBuffer_Len :: "nat \<Rightarrow> requestBuffer \<Rightarrow> nat" where
  "requestBuffer_Len bufSize r =
     (if length (rb_data r) = 0 then 0
      else (length (rb_data r) - 1) * bufSize + length (last (rb_data r)))"

text \<open>\<open>whence\<close> is 0, 1 or 2 for \<open>io.SeekStart\<close>, \<open>io.SeekCurrent\<close> and \<open>io.SeekEnd\<close>.\<close>

definition requestBuffer_Seek :: "nat \<Rightarrow> int \<Rightarrow> nat \<Rightarrow> requestBuffer \<Rightarrow> (rb_error + nat) \<times> requestBuffer" where
  "requestBuffer_Seek bufSize off whence r =
     (if rb_closed r then (Inl RBClosed, r)
      else if rb_data r = [] then (Inl RBPanic, r)
      else let maxSize = (length (rb_data r) - 1) * bufSize + length (last (rb_data r)) in
        if whence = 0 then
          if off < 0 then (Inr 0, r)
          else if off \<ge> int maxSize then (Inl OutOfRange, r)
          else (Inr (rb_pos r), r\<lparr>rb_pos := 0\<rparr>)
        else if whence = 1 \<or> whence = 2 then (Inl Unimplemented, r)
        else (Inl UnknownWhence, r))"

text \<open>The copying loop of \<open>Read\<close>: \<open>room\<close> is what is left of the destination.\<close>

partial_function (option) read_chunks :: "nat \<Rightarrow> nat \<Rightarrow> string list \<Rightarrow> nat \<Rightarrow> nat \<Rightarrow> string \<Rightarrow> (string \<times> nat) option" where
  "read_chunks bufSize maxSize chunks pos room out =
     (if 0 < room \<and> pos < maxSize then
        let piece = take room (drop (pos mod bufSize) (chunks ! (pos div bufSize)))
        in read_chunks bufSize maxSize chunks (pos + length piece) (room - length piece) (out @ piece)
      else Some (out, pos))"

definition requestBuffer_Read ::
  "nat \<Rightarrow> nat \<Rightarrow> requestBuffer \<Rightarrow> ((rb_error + string) \<times> requestBuffer) option" where
  "requestBuffer_Read bufSize room r =
     (if rb_closed r then Some (Inl RBClosed, r)
      else if rb_data r = [] then Some (Inl EOF, r)
      else let maxSize = (length (rb_data r) - 1) * bufSize + length (last (rb_data r)) in
        if rb_pos r \<ge> maxSize then Some (Inl EOF, r)
        else case read_chunks bufSize maxSize (rb_data r) (rb_pos r) room [] of
               None \<Rightarrow> None
             | Some (out, pos) \<Rightarrow> Some (Inr out, r\<lparr>rb_pos := pos\<rparr>))"

definition requestBuffer_Close :: "requestBuffer \<Rightarrow> requestBuffer" where
  "requestBuffer_Close r = (if rb_closed r then r else r\<lparr>rb_closed := True, rb_data := []\<rparr>)"

section \<open>The chunks of a request\<close>

definition chunks_ok :: "nat \<Rightarrow> string list \<Rightarrow> bool" where
  "chunks_ok bufSize chunks \<longleftrightarrow>
     chunks \<noteq> [] \<and> (\<forall>c\<in>set (butlast chunks). length c = bufSize) \<and> length (last chunks) \<le> bufSize"

lemma chunks_ok_snoc [simp]:
  "chunks_ok bufSize (cs @ [c]) \<longleftrightarrow> (\<forall>d\<in>set cs. length d = bufSize) \<and> length c \<le> bufSize"
  by (simp add: chunks_ok_def)

lemma fill_chunks_correct:
  assumes "0 < bufSize" "chunks_ok bufSize chunks"
  shows "\<exists>chunks'. fill_chunks bufSize chunks d = Some chunks' \<and> chunks_ok bufSize chunks' \<and>
    concat chunks' = concat chunks @ d"
  using assms(2)
proof (induction d arbitrary: chunks rule: length_induct)
  case (1 d)
  obtain cs c where chunks: "chunks = cs @ [c]" using "1.prems" by (cases chunks rule: rev_cases) (auto simp: chunks_ok_def)
  show ?case
  proof (cases "d = []")
    case True
    then show ?thesis using "1.prems" by (subst fill_chunks.simps) simp
  next
    case False
    obtain cs' c' where c': "length c' < bufSize" "\<forall>x\<in>set cs'. length x = bufSize" "concat cs' @ c' = concat chunks"
      "(if length (last chunks) = bufSize then chunks @ [[]] else chunks) = cs' @ [c']"
    proof (cases "length c = bufSize")
      case True
      then show ?thesis using that [of "[]" "cs @ [c]"] assms(1) "1.prems" by (simp add: chunks)
    next
      case False
      then show ?thesis using that [of c cs] "1.prems" by (simp add: chunks)
    qed
    let ?n = "min (bufSize - length c') (length d)"
    have ok: "chunks_ok bufSize (cs' @ [c' @ take ?n d])" using c'(1,2) by simp
    have step: "fill_chunks bufSize chunks d = fill_chunks bufSize (cs' @ [c' @ take ?n d]) (drop ?n d)"
      using False by (subst fill_chunks.simps) (simp add: c'(4) Let_def)
    have len: "length (drop ?n d) < length d" using c'(1) False by simp
    have "concat (cs' @ [c' @ take ?n d]) @ drop ?n d = concat chunks @ d"
      unfolding c'(3) [symmetric] by simp
    with "1.IH" [rule_format, OF len ok] show ?thesis unfolding step by auto
  qed
qed

definition rb_ok :: "nat \<Rightarrow> requestBuffer \<Rightarrow> bool" where
  "rb_ok bufSize rb \<longleftrightarrow>
     \<not> rb_closed rb \<and> rb_pos rb = 0 \<and> (rb_data rb = [] \<or> chunks_ok bufSize (rb_data rb))"

abbreviation rb_content :: "requestBuffer \<Rightarrow> string" where
  "rb_content rb \<equiv> concat (rb_data rb)"

lemma rb_ok_new [simp]: "rb_ok bufSize new_requestBuffer" "rb_content new_requestBuffer = []"
  by (simp_all add: rb_ok_def new_requestBuffer_def)

lemma take_piece_correct:
  assumes "0 < bufSize" "rb_ok bufSize rb"
  shows "\<exists>rb'. take_piece bufSize buf rb = Some (rb', if newline \<in> set buf then Some (after_nl buf) else None) \<and>
    rb_ok bufSize rb' \<and> rb_data rb' \<noteq> [] \<and> rb_content rb' = rb_content rb @ before_nl buf"
proof -
  let ?cs = "if rb_data rb = [] then [[]] else rb_data rb"
  have "chunks_ok bufSize ?cs" using assms(2) by (auto simp: rb_ok_def chunks_ok_def)
  from fill_chunks_correct [OF assms(1) this, of "before_nl buf"] obtain cs' where cs':
    "fill_chunks bufSize ?cs (before_nl buf) = Some cs'" "chunks_ok bufSize cs'" "concat cs' = rb_content rb @ before_nl buf"
    by auto
  moreover note drop_before_nl [of buf]
  moreover have "cs' \<noteq> []" using cs'(2) by (simp add: chunks_ok_def)
  ultimately show ?thesis
    using assms(2) by (simp add: take_piece_def rb_ok_def)
qed

section \<open>The stream of a connection\<close>

fun stream :: "read list \<Rightarrow> string" where
  "stream (Data buf # rds) = buf @ stream rds"
| "stream rds = []"

fun ending :: "read list \<Rightarrow> read_error" where
  "ending (Data buf # rds) = ending rds"
| "ending [] = RdBlocked"
| "ending (CtxDone # rds) = RdCtx"
| "ending (ReadErr # rds) = RdErr"

definition reads_ok :: "nat \<Rightarrow> read list \<Rightarrow> bool" where
  "reads_ok bufSize rds \<longleftrightarrow> (\<forall>rd\<in>set rds. case rd of Data buf \<Rightarrow> length buf \<le> bufSize | CtxDone \<Rightarrow> False | _ \<Rightarrow> True)"

lemma reads_ok_simps [simp]:
  "reads_ok bufSize []" "reads_ok bufSize (Data buf # rds) \<longleftrightarrow> length buf \<le> bufSize \<and> reads_ok bufSize rds"
  "\<not> reads_ok bufSize (CtxDone # rds)" "reads_ok bufSize (ReadErr # rds) \<longleftrightarrow> reads_ok bufSize rds"
  by (simp_all add: reads_ok_def)

text \<open>What a call that reads \<open>s\<close> does: deliver the first line of it, or report why there is none.\<close>

definition reads_line ::
  "nat \<Rightarrow> requestBuffer \<Rightarrow> string \<Rightarrow> read_error \<Rightarrow> ((read_error + string) \<times> requestBuffer \<times> read list) option \<Rightarrow> bool" where
  "reads_line bufSize rb s e res \<longleftrightarrow>
     (if newline \<in> set s
      then \<exists>rest rb' rds'. res = Some (Inr rest, rb', rds') \<and> rb_ok bufSize rb' \<and> rb_data rb' \<noteq> [] \<and>
             rb_content rb' = rb_content rb @ before_nl s \<and> rest @ stream rds' = after_nl s \<and>
             length rest \<le> bufSize \<and> reads_ok bufSize rds' \<and> ending rds' = e
      else \<exists>rb' rds'. res = Some (Inl e, rb', rds') \<and> rb_ok bufSize rb' \<and> rb_content rb' = rb_content rb @ s)"

lemma reads_line_skip:
  assumes "newline \<notin> set buf" "rb_content rb' = rb_content rb @ buf" "reads_line bufSize rb' s e res"
  shows "reads_line bufSize rb (buf @ s) e res"
proof (cases "newline \<in> set s")
  case True
  then show ?thesis
    using assms(2,3) before_after_append(2) [OF assms(1), of s] by (simp add: reads_line_def)
next
  case False
  then show ?thesis using assms by (simp add: reads_line_def)
qed

lemma read_loop_correct:
  assumes "0 < bufSize" "rb_ok bufSize rb" "reads_ok bufSize rds"
  shows "reads_line bufSize rb (stream rds) (ending rds) (read_loop bufSize rds rb)"
  using assms(2,3)
proof (induction rds arbitrary: rb rule: stream.induct)
  case (1 buf rds)
  obtain rb' where rb': "take_piece bufSize buf rb = Some (rb', if newline \<in> set buf then Some (after_nl buf) else None)"
    "rb_ok bufSize rb'" "rb_data rb' \<noteq> []" "rb_content rb' = rb_content rb @ before_nl buf"
    using take_piece_correct [OF assms(1) "1.prems"(1)] by blast
  show ?case
  proof (cases "newline \<in> set buf")
    case True
    then show ?thesis
      using rb' "1.prems"(2) before_after_append(1) [OF True, of "stream rds"] length_after_nl [of buf]
      by (auto simp: reads_line_def)
  next
    case False
    have "reads_line bufSize rb' (stream rds) (ending rds) (read_loop bufSize rds rb')"
      using "1.IH" [OF rb'(2)] "1.prems"(2) by simp
    moreover have "reads_line bufSize rb (stream rds) (ending rds) (read_loop bufSize rds rb)"
      using "1.IH" [OF "1.prems"(1)] "1.prems"(2) by simp
    ultimately show ?thesis
      using rb' False reads_line_skip [OF False, of rb' rb bufSize] before_nl_id [OF False] by (cases "buf = []") simp_all
  qed
qed (auto simp: reads_line_def)

text \<open>The whole call: the same, over the bytes kept from the previous call and the stream.\<close>

definition delivers_line ::
  "nat \<Rightarrow> requestBuffer \<Rightarrow> string \<Rightarrow> read_error \<Rightarrow>
   ((read_error + requestBuffer \<times> string) \<times> requestBuffer \<times> read list) option \<Rightarrow> bool" where
  "delivers_line bufSize rb s e res \<longleftrightarrow>
     (if newline \<in> set s
      then \<exists>rest rb' rds'. res = Some (Inr (new_requestBuffer, rest), rb', rds') \<and> rb_ok bufSize rb' \<and>
             rb_data rb' \<noteq> [] \<and> rb_content rb' = rb_content rb @ before_nl s \<and>
             rest @ stream rds' = after_nl s \<and> length rest \<le> bufSize \<and> reads_ok bufSize rds' \<and> ending rds' = e
      else \<exists>rb' rds'. res = Some (Inl e, rb', rds'))"

lemma nextRequestBuffer_correct:
  assumes "0 < bufSize" "rb_ok bufSize rb" "reads_ok bufSize rds" "length prevBuf \<le> bufSize"
  shows "delivers_line bufSize rb (prevBuf @ stream rds) (ending rds) (nextRequestBuffer bufSize rds rb prevBuf)"
proof -
  have go: "\<not> (rds \<noteq> [] \<and> hd rds = CtxDone)" using assms(3) by (cases rds) auto
  obtain rb' where rb': "take_piece bufSize prevBuf rb =
      Some (rb', if newline \<in> set prevBuf then Some (after_nl prevBuf) else None)"
    "rb_ok bufSize rb'" "rb_data rb' \<noteq> []" "rb_content rb' = rb_content rb @ before_nl prevBuf"
    using take_piece_correct [OF assms(1,2)] by blast
  have fin: "delivers_line bufSize rb1 s e (finish_read res)" if "reads_line bufSize rb1 s e res" for rb1 s e res
    using that by (auto simp: reads_line_def delivers_line_def finish_read_def split: if_splits)
  show ?thesis
  proof (cases "newline \<in> set prevBuf")
    case True
    then have "nextRequestBuffer bufSize rds rb prevBuf = Some (Inr (new_requestBuffer, after_nl prevBuf), rb', rds)"
      using go rb'(1) assms(4) unfolding nextRequestBuffer_def by auto
    then show ?thesis
      using True rb' assms(3,4) before_after_append(1) [OF True, of "stream rds"] length_after_nl [of prevBuf]
      by (simp add: delivers_line_def)
  next
    case False
    have r1: "reads_line bufSize rb (prevBuf @ stream rds) (ending rds) (read_loop bufSize rds rb')"
      using read_loop_correct [OF assms(1) rb'(2) assms(3)] reads_line_skip [OF False] rb'(4) before_nl_id [OF False]
      by simp
    show ?thesis
    proof (cases "prevBuf = []")
      case True
      then have "nextRequestBuffer bufSize rds rb prevBuf = finish_read (read_loop bufSize rds rb)"
        using go unfolding nextRequestBuffer_def by auto
      then show ?thesis using fin [OF read_loop_correct [OF assms(1,2,3)]] True by simp
    next
      case ne: False
      then have "nextRequestBuffer bufSize rds rb prevBuf = finish_read (read_loop bufSize rds rb')"
        using go rb'(1) False assms(4) unfolding nextRequestBuffer_def by auto
      then show ?thesis using fin [OF r1] by simp
    qed
  qed
qed

lemma count_after_nl: "newline \<in> set s \<Longrightarrow> count_list s newline = Suc (count_list (after_nl s) newline)"
  by (induction s) auto

lemma request_loop_lines:
  assumes "0 < bufSize" "rb_ok bufSize rb" "reads_ok bufSize rds" "length prevBuf \<le> bufSize"
    and "count_list (prevBuf @ stream rds) newline < fuel"
  shows "\<exists>rbs. request_loop fuel bufSize rds rb prevBuf = Some (rbs, ending rds) \<and>
    map rb_content rbs = fst (lines_from newline (rb_content rb) (prevBuf @ stream rds)) \<and>
    (\<forall>r\<in>set rbs. rb_ok bufSize r \<and> rb_data r \<noteq> [])"
  using assms(2-5)
proof (induction fuel arbitrary: rb rds prevBuf)
  case (Suc fuel)
  let ?s = "prevBuf @ stream rds"
  note d = nextRequestBuffer_correct [OF assms(1) Suc.prems(1-3)]
  show ?case
  proof (cases "newline \<in> set ?s")
    case True
    then obtain rest rb' rds' where r:
      "nextRequestBuffer bufSize rds rb prevBuf = Some (Inr (new_requestBuffer, rest), rb', rds')"
      "rb_ok bufSize rb'" "rb_data rb' \<noteq> []" "rb_content rb' = rb_content rb @ before_nl ?s"
      "rest @ stream rds' = after_nl ?s" "length rest \<le> bufSize" "reads_ok bufSize rds'" "ending rds' = ending rds"
      using d unfolding delivers_line_def by auto
    have "count_list (rest @ stream rds') newline < fuel"
      using Suc.prems(4) count_after_nl [OF True] r(5) by simp
    from Suc.IH [OF rb_ok_new(1) r(7,6) this] obtain rbs where rbs:
      "request_loop fuel bufSize rds' new_requestBuffer rest = Some (rbs, ending rds)"
      "map rb_content rbs = fst (split_lines newline (after_nl ?s))"
      "\<forall>r\<in>set rbs. rb_ok bufSize r \<and> rb_data r \<noteq> []"
      using r(5,8) by auto
    show ?thesis
      using r(1-4) rbs first_line [OF True, of "rb_content rb"] by simp
  next
    case False
    then obtain rb' rds' where "nextRequestBuffer bufSize rds rb prevBuf = Some (Inl (ending rds), rb', rds')"
      using d unfolding delivers_line_def by auto
    then show ?thesis using no_line [OF False] by simp
  qed
qed simp

section \<open>Reading the chunks\<close>

lemma chunks_ok_Cons:
  "chunks_ok bufSize (c # cs) \<longleftrightarrow> (if cs = [] then length c \<le> bufSize else length c = bufSize \<and> chunks_ok bufSize cs)"
  by (auto simp: chunks_ok_def)

lemma chunks_length:
  "chunks_ok bufSize cs \<Longrightarrow> (length cs - 1) * bufSize + length (last cs) = length (concat cs)"
proof (induction cs)
  case (Cons c cs)
  then show ?case by (cases cs) (auto simp: chunks_ok_Cons)
qed (simp add: chunks_ok_def)

lemma chunk_at:
  assumes "0 < bufSize" "chunks_ok bufSize cs" "pos < length (concat cs)"
  shows "drop pos (concat cs) = drop (pos mod bufSize) (cs ! (pos div bufSize)) @ concat (drop (Suc (pos div bufSize)) cs) \<and>
    drop (pos mod bufSize) (cs ! (pos div bufSize)) \<noteq> []"
  using assms(2,3)
proof (induction cs arbitrary: pos)
  case (Cons c cs)
  show ?case
  proof (cases "pos < length c")
    case True
    moreover have "length c \<le> bufSize" using Cons.prems(1) by (auto simp: chunks_ok_Cons split: if_splits)
    ultimately show ?thesis by simp
  next
    case False
    then have ne: "cs \<noteq> []" using Cons.prems(2) by auto
    then have c: "length c = bufSize" "chunks_ok bufSize cs" using Cons.prems(1) by (simp_all add: chunks_ok_Cons)
    define p where "p = pos - bufSize"
    have pos: "pos = p + bufSize" using False c(1) by (simp add: p_def)
    have "p < length (concat cs)" using Cons.prems(2) c(1) pos by simp
    moreover have "pos div bufSize = Suc (p div bufSize)" "pos mod bufSize = p mod bufSize"
      using assms(1) by (simp_all add: pos div_add_self2)
    ultimately show ?thesis using Cons.IH [OF c(2)] c(1) pos by simp
  qed
qed simp

lemma read_position:
  "k \<le> L - p \<Longrightarrow> p + min room k + min (room - min room k) (L - (p + min room k)) = p + min room (L - p)"
  for k L p room :: nat
  by linarith

lemma read_chunks_correct:
  assumes "0 < bufSize" "chunks_ok bufSize cs" "pos \<le> length (concat cs)"
  shows "read_chunks bufSize (length (concat cs)) cs pos room out =
    Some (out @ take room (drop pos (concat cs)), pos + min room (length (concat cs) - pos))"
  using assms(3)
proof (induction room arbitrary: pos out rule: less_induct)
  case (less room)
  show ?case
  proof (cases "0 < room \<and> pos < length (concat cs)")
    case False
    then show ?thesis using less.prems by (subst read_chunks.simps) auto
  next
    case True
    let ?rest = "drop (pos mod bufSize) (cs ! (pos div bufSize))"
    let ?piece = "take room ?rest"
    have at: "drop pos (concat cs) = ?rest @ concat (drop (Suc (pos div bufSize)) cs)" "?rest \<noteq> []"
      using chunk_at [OF assms(1,2)] True by auto
    have len: "length ?rest \<le> length (concat cs) - pos"
      using arg_cong [OF at(1), of length] by simp
    have "0 < length ?piece" using True at(2) by simp
    then have room: "room - length ?piece < room" using True by simp
    have "length ?piece \<le> length ?rest" by simp
    then have "pos + length ?piece \<le> length (concat cs)" using len True by linarith
    note IH = less.IH [OF room this, of "out @ ?piece"]
    have "drop (pos + length ?piece) (concat cs) = drop (length ?piece) (drop pos (concat cs))"
      by (simp add: add.commute)
    also have "\<dots> = drop (length ?piece) ?rest @ concat (drop (Suc (pos div bufSize)) cs)"
      unfolding at(1) by simp
    finally have d: "drop (pos + length ?piece) (concat cs) =
        drop (length ?piece) ?rest @ concat (drop (Suc (pos div bufSize)) cs)" .
    have t: "take room (drop pos (concat cs)) = ?piece @ take (room - length ?piece) (drop (pos + length ?piece) (concat cs))"
      unfolding d at(1) by (simp add: min_def)
    have "read_chunks bufSize (length (concat cs)) cs pos room out =
        read_chunks bufSize (length (concat cs)) cs (pos + length ?piece) (room - length ?piece) (out @ ?piece)"
      using True by (subst read_chunks.simps) (simp add: Let_def)
    also have "\<dots> = Some (out @ take room (drop pos (concat cs)), pos + min room (length (concat cs) - pos))"
      unfolding IH t using read_position [OF len] by (simp add: min.commute)
    finally show ?thesis .
  qed
qed

lemma Read_correct:
  assumes "0 < bufSize" "chunks_ok bufSize (rb_data r)" "\<not> rb_closed r"
  shows "requestBuffer_Read bufSize room r =
    Some (if rb_pos r \<ge> length (rb_content r) then (Inl EOF, r)
          else (Inr (take room (drop (rb_pos r) (rb_content r))),
                r\<lparr>rb_pos := rb_pos r + min room (length (rb_content r) - rb_pos r)\<rparr>))"
proof -
  have "rb_data r \<noteq> []" using assms(2) by (simp add: chunks_ok_def)
  then show ?thesis
    using assms chunks_length [OF assms(2)] read_chunks_correct [OF assms(1,2), of "rb_pos r" room "[]"]
    by (simp add: requestBuffer_Read_def Let_def)
qed

section \<open>Properties of the request reader\<close>

text \<open>
  C6: Framing. However the reads cut the stream (buffers of any positive size, empty reads
  included), the goroutine that reads a connection hands on exactly the complete lines of the
  stream, in order, and then stops for the reason the connection gave; it never loops.
\<close>

theorem requests_are_lines:
  assumes "0 < bufSize" "reads_ok bufSize rds" "count_list (stream rds) newline < fuel"
  shows "\<exists>rbs. request_loop fuel bufSize rds new_requestBuffer [] = Some (rbs, ending rds) \<and>
    map rb_content rbs = fst (split_lines newline (stream rds))"
  using request_loop_lines [OF assms(1) rb_ok_new(1) assms(2), of "[]" fuel] assms(3) by auto

theorem requests_are_lines_witness:
  "\<exists>rbs. request_loop 3 5 [Data ''1234'', Data [], Data [CHR ''5'', newline, CHR ''a''], Data [newline]]
     new_requestBuffer [] = Some (rbs, RdBlocked) \<and> map rb_content rbs = [''12345'', ''a'']"
  using requests_are_lines [of 5 "[Data ''1234'', Data [], Data [CHR ''5'', newline, CHR ''a''], Data [newline]]" 3]
  by simp

text \<open>
  A request can be read back: each \<open>Read\<close> of a delivered request gives the next bytes of its
  line, as many as the destination takes, and end of file exactly at its end; \<open>Len\<close> is the
  length of the line.
\<close>

theorem request_read_back:
  assumes "0 < bufSize" "reads_ok bufSize rds" "request_loop fuel bufSize rds new_requestBuffer [] = Some (rbs, e)"
    and "count_list (stream rds) newline < fuel" "rb \<in> set rbs"
  shows "rb_content rb \<in> set (fst (split_lines newline (stream rds))) \<and>
    requestBuffer_Len bufSize rb = length (rb_content rb) \<and>
    requestBuffer_Read bufSize room (rb\<lparr>rb_pos := pos\<rparr>) =
      Some (if pos \<ge> length (rb_content rb) then (Inl EOF, rb\<lparr>rb_pos := pos\<rparr>)
            else (Inr (take room (drop pos (rb_content rb))),
                  rb\<lparr>rb_pos := pos + min room (length (rb_content rb) - pos)\<rparr>))"
proof -
  have "map rb_content rbs = fst (split_lines newline (stream rds))" and rb: "rb_ok bufSize rb" "rb_data rb \<noteq> []"
    using request_loop_lines [OF assms(1) rb_ok_new(1) assms(2), of "[]" fuel] assms(3-5) by auto
  then have mem: "rb_content rb \<in> set (fst (split_lines newline (stream rds)))"
    using assms(5) by (metis image_eqI set_map)
  have ok: "chunks_ok bufSize (rb_data rb)" "\<not> rb_closed rb" using rb by (auto simp: rb_ok_def)
  show ?thesis
    using mem chunks_length [OF ok(1)] rb(2) Read_correct [OF assms(1), of "rb\<lparr>rb_pos := pos\<rparr>" room] ok
    by (simp add: requestBuffer_Len_def)
qed

theorem request_read_back_witness:
  defines "rb \<equiv> new_requestBuffer\<lparr>rb_data := [''123'', ''45'']\<rparr>"
  shows "requestBuffer_Read 3 4 rb = Some (Inr ''1234'', rb\<lparr>rb_pos := 4\<rparr>)"
proof -
  have "request_loop 2 3 [Data ''123'', Data [CHR ''4'', CHR ''5'', newline]] new_requestBuffer [] = Some ([rb], RdBlocked)"
    by (simp add: rb_def eval_nat_numeral nextRequestBuffer_def take_piece_def finish_read_def fill_chunks.simps
        new_requestBuffer_def)
  then show ?thesis
    using request_read_back [of 3 "[Data ''123'', Data [CHR ''4'', CHR ''5'', newline]]" 2 "[rb]" RdBlocked rb 4 0]
    by (simp add: rb_def new_requestBuffer_def)
qed

text \<open>
  \<open>Seek\<close> always rewinds to the start of the request and returns the position it left: right for
  the offset 0, the only one the server uses, and not the contract of \<open>io.Seeker\<close> for others.
\<close>

theorem seek_rewinds:
  assumes "rb_ok bufSize rb" "rb_data rb \<noteq> []" "0 \<le> off" "off < int (length (rb_content rb))"
  shows "requestBuffer_Seek bufSize off 0 (rb\<lparr>rb_pos := pos\<rparr>) = (Inr pos, rb\<lparr>rb_pos := 0\<rparr>)"
  using assms chunks_length [of bufSize "rb_data rb"] by (auto simp: requestBuffer_Seek_def rb_ok_def Let_def)

theorem seek_rewinds_witness:
  defines "rb \<equiv> new_requestBuffer\<lparr>rb_data := [''123'', ''45'']\<rparr>"
  shows "requestBuffer_Seek 3 2 0 (rb\<lparr>rb_pos := 4\<rparr>) = (Inr 4, rb\<lparr>rb_pos := 0\<rparr>)"
  using seek_rewinds [of 3 rb 2 4] by (simp add: rb_def new_requestBuffer_def rb_ok_def chunks_ok_def)

end
