(* ===== verification/JobDispatch.thy ===== *)
theory JobDispatch
  imports QueueHandler RequestBuffer
begin

text \<open>
  The goroutine of \<open>9-job-centre/proto/server.go\<close> (\<open>looper\<close>) that serves the requests of a connection one
  after the other: it decodes a request, calls the handler and writes the response. It connects the
  framing (\<open>RequestBuffer\<close>) with the handler (\<open>QueueHandler\<close>).

  What \<open>encoding/json\<close> makes of a text is a parameter, one function per request type, \<open>None\<close> when
  \<open>Decode\<close> returns an error; a decoder reads what is left of the request. A response is the value that
  is encoded; \<open>Encode\<close> itself ends it with a line feed. Writes are modelled on a connection that takes
  them. A \<open>get\<close> that waits leaves the goroutine waiting; what other clients do between two requests of
  this one is a transformation of the handler's state.

  Shown: every request line is answered by exactly one response, blank lines by none, each followed by
  one more line feed, whatever the chunks of the request; a request that is not understood changes
  nothing. (The texts themselves, and a job on its way through them, are in \<open>JobCodec\<close>.)
\<close>

record 'v decoder =
  decode_request :: "string \<Rightarrow> string option"
  decode_put :: "string \<Rightarrow> (string \<times> 'v \<times> uint32) option"
  decode_get :: "string \<Rightarrow> (string list \<times> bool) option"
  decode_id :: "string \<Rightarrow> uint32 option"

datatype req_error = BadJSON | SeekFailed rb_error | Unrecognised | HandlerErr qh_error

datatype 'v resp =
  RespOk
| RespNoJob
| RespError req_error
| RespPut uint32
| RespGet uint32 'v uint32 string

datatype 'v conn_write = Obj "'v resp" | Newline

text \<open>How the function that serves a request returns: the error, \<open>isResponseWritten\<close> and what it wrote.\<close>

datatype 'v body =
  Returned "req_error option" bool "'v resp list" "'v queueHandler"
| Waits chan "'v queueHandler"
| Panicked

definition decode_from :: "nat \<Rightarrow> (string \<Rightarrow> 'a option) \<Rightarrow> requestBuffer \<Rightarrow> 'a option \<times> requestBuffer" where
  "decode_from bufSize dec rb =
     (case requestBuffer_Read bufSize (requestBuffer_Len bufSize rb) rb of
        Some (Inr text, rb') \<Rightarrow> (dec text, rb')
      | _ \<Rightarrow> (None, rb))"

definition handler_result :: "qh_error option \<times> 'v queueHandler \<Rightarrow> 'v body" where
  "handler_result r =
     (case r of
        (None, h) \<Rightarrow> Returned None False [] h
      | (Some e, h) \<Rightarrow> if e = QHPanic then Panicked else Returned (Some (HandlerErr e)) False [] h)"

definition serve_put :: "(string \<times> 'v \<times> uint32) option \<Rightarrow> 'v queueHandler \<Rightarrow> 'v body" where
  "serve_put putReq h =
     (case putReq of
        None \<Rightarrow> Returned (Some BadJSON) False [] h
      | Some (q, v, pri) \<Rightarrow>
          (case PutJob q v pri h of (i, h') \<Rightarrow> Returned None True [RespPut i] h'))"

definition serve_get ::
  "(string list \<Rightarrow> string list) \<Rightarrow> bool \<Rightarrow> client \<Rightarrow> (string list \<times> bool) option \<Rightarrow> 'v queueHandler \<Rightarrow> 'v body" where
  "serve_get iter ctxDone c getReq h =
     (case getReq of
        None \<Rightarrow> Returned (Some BadJSON) False [] h
      | Some (qs, wait) \<Rightarrow>
          (case GetJob iter ctxDone (Some c) qs wait h of
             (GetErr e, h') \<Rightarrow> handler_result (Some e, h')
           | (GetBlocked ch, h') \<Rightarrow> Waits ch h'
           | (Reply i v pri q, h') \<Rightarrow> Returned None True [RespGet i v pri q] h'))"

definition serve_delete :: "uint32 option \<Rightarrow> 'v queueHandler \<Rightarrow> 'v body" where
  "serve_delete deleteReq h =
     (case deleteReq of
        None \<Rightarrow> Returned (Some BadJSON) False [] h
      | Some i \<Rightarrow> handler_result (DeleteJob i h))"

definition serve_abort :: "client \<Rightarrow> uint32 option \<Rightarrow> 'v queueHandler \<Rightarrow> 'v body" where
  "serve_abort c abortReq h =
     (case abortReq of
        None \<Rightarrow> Returned (Some BadJSON) False [] h
      | Some i \<Rightarrow> handler_result (AbortJob (Some c) i h))"

definition request_body ::
  "'v decoder \<Rightarrow> nat \<Rightarrow> (string list \<Rightarrow> string list) \<Rightarrow> bool \<Rightarrow> client \<Rightarrow> requestBuffer \<Rightarrow> 'v queueHandler \<Rightarrow> 'v body" where
  "request_body d bufSize iter ctxDone c rb h =
     (if requestBuffer_Len bufSize rb = 0 then Returned None True [] h
      else case decode_from bufSize (decode_request d) rb of
             (None, rb1) \<Rightarrow> Returned (Some BadJSON) False [] h
           | (Some kind, rb1) \<Rightarrow>
               (case requestBuffer_Seek bufSize 0 0 rb1 of
                  (Inl e, rb2) \<Rightarrow> Returned (Some (SeekFailed e)) False [] h
                | (Inr n, rb2) \<Rightarrow>
                    if kind = ''put'' then serve_put (fst (decode_from bufSize (decode_put d) rb2)) h
                    else if kind = ''get'' then
                      serve_get iter ctxDone c (fst (decode_from bufSize (decode_get d) rb2)) h
                    else if kind = ''delete'' then serve_delete (fst (decode_from bufSize (decode_id d) rb2)) h
                    else if kind = ''abort'' then serve_abort c (fst (decode_from bufSize (decode_id d) rb2)) h
                    else Returned (Some Unrecognised) False [] h))"

text \<open>The deferred functions: the response if none was written yet, then a line feed.\<close>

definition deferred_writes :: "req_error option \<Rightarrow> bool \<Rightarrow> 'v conn_write list" where
  "deferred_writes err isResponseWritten =
     (case err of
        Some e \<Rightarrow> [Obj (if e = HandlerErr ErrNoJob then RespNoJob else RespError e)]
      | None \<Rightarrow> if isResponseWritten then [] else [Obj RespOk]) @ [Newline]"

datatype 'v served = is_Served: Served "'v conn_write list" "'v queueHandler" | Waiting_for chan "'v queueHandler" | Crashed

definition serve_request ::
  "'v decoder \<Rightarrow> nat \<Rightarrow> (string list \<Rightarrow> string list) \<Rightarrow> bool \<Rightarrow> client \<Rightarrow> requestBuffer \<Rightarrow> 'v queueHandler \<Rightarrow> 'v served" where
  "serve_request d bufSize iter ctxDone c rb h =
     (case request_body d bufSize iter ctxDone c rb h of
        Returned err written ws h' \<Rightarrow> Served (map Obj ws @ deferred_writes err written) h'
      | Waits ch h' \<Rightarrow> Waiting_for ch h'
      | Panicked \<Rightarrow> Crashed)"

text \<open>
  The loop over the requests. Each comes with what other clients did to the handler since the last
  one and with the order in which the next \<open>Pop\<close> visits the queues.
\<close>

fun serve_all ::
  "'v decoder \<Rightarrow> nat \<Rightarrow> client \<Rightarrow>
   (requestBuffer \<times> ('v queueHandler \<Rightarrow> 'v queueHandler) \<times> (string list \<Rightarrow> string list)) list \<Rightarrow> 'v queueHandler \<Rightarrow>
   'v conn_write list list \<times> 'v queueHandler" where
  "serve_all d bufSize c [] h = ([], h)"
| "serve_all d bufSize c ((rb, env, iter) # rest) h =
     (case serve_request d bufSize iter False c rb (env h) of
        Served ws h' \<Rightarrow> (case serve_all d bufSize c rest h' of (wss, h'') \<Rightarrow> (ws # wss, h''))
      | Waiting_for ch h' \<Rightarrow> ([], h')
      | Crashed \<Rightarrow> ([], env h))"

section \<open>Requests as lines\<close>

text \<open>The same over the line of a request, without the buffer.\<close>

definition line_body ::
  "'v decoder \<Rightarrow> (string list \<Rightarrow> string list) \<Rightarrow> bool \<Rightarrow> client \<Rightarrow> string \<Rightarrow> 'v queueHandler \<Rightarrow> 'v body" where
  "line_body d iter ctxDone c line h =
     (if line = [] then Returned None True [] h
      else case decode_request d line of
             None \<Rightarrow> Returned (Some BadJSON) False [] h
           | Some kind \<Rightarrow>
               if kind = ''put'' then serve_put (decode_put d line) h
               else if kind = ''get'' then serve_get iter ctxDone c (decode_get d line) h
               else if kind = ''delete'' then serve_delete (decode_id d line) h
               else if kind = ''abort'' then serve_abort c (decode_id d line) h
               else Returned (Some Unrecognised) False [] h)"

lemma decode_from_start:
  assumes "0 < bufSize" "rb_ok bufSize rb" "rb_data rb \<noteq> []" "rb_content rb \<noteq> []"
  shows "\<exists>pos. decode_from bufSize dec rb = (dec (rb_content rb), rb\<lparr>rb_pos := pos\<rparr>)"
proof -
  have ok: "chunks_ok bufSize (rb_data rb)" "\<not> rb_closed rb" "rb_pos rb = 0" using assms by (auto simp: rb_ok_def)
  have "requestBuffer_Len bufSize rb = length (rb_content rb)"
    using chunks_length [OF ok(1)] assms(3) by (simp add: requestBuffer_Len_def)
  then show ?thesis using Read_correct [OF assms(1) ok(1,2), of "requestBuffer_Len bufSize rb"] ok(3) assms(4)
    by (auto simp: decode_from_def simp del: concat_eq_Nil_conv)
qed

lemma decode_from_text:
  "0 < bufSize \<Longrightarrow> rb_ok bufSize rb \<Longrightarrow> rb_data rb \<noteq> [] \<Longrightarrow> rb_content rb \<noteq> [] \<Longrightarrow>
   fst (decode_from bufSize dec rb) = dec (rb_content rb)"
  using decode_from_start [of bufSize rb dec] by auto

lemma rewind:
  assumes "rb_ok bufSize rb" "rb_data rb \<noteq> []" "rb_content rb \<noteq> []"
  shows "requestBuffer_Seek bufSize 0 0 (rb\<lparr>rb_pos := pos\<rparr>) = (Inr pos, rb)"
proof -
  have "rb\<lparr>rb_pos := 0\<rparr> = rb" using assms(1) by (simp add: rb_ok_def)
  moreover have "0 < int (length (rb_content rb))" using assms(3) by (simp del: concat_eq_Nil_conv)
  ultimately show ?thesis
    using assms chunks_length [of bufSize "rb_data rb"]
    by (auto simp: requestBuffer_Seek_def rb_ok_def Let_def simp del: concat_eq_Nil_conv)
qed

lemma request_body_line:
  assumes "0 < bufSize" "rb_ok bufSize rb" "rb_data rb \<noteq> []"
  shows "request_body d bufSize iter ctxDone c rb h = line_body d iter ctxDone c (rb_content rb) h"
proof -
  have ok: "chunks_ok bufSize (rb_data rb)" using assms by (simp add: rb_ok_def)
  have len: "requestBuffer_Len bufSize rb = length (rb_content rb)"
    using chunks_length [OF ok] assms(3) by (simp add: requestBuffer_Len_def)
  show ?thesis
  proof (cases "rb_content rb = []")
    case True
    then show ?thesis unfolding request_body_def line_body_def len by simp
  next
    case False
    note dec = decode_from_start [OF assms False]
    obtain pos where 1: "decode_from bufSize (decode_request d) rb = (decode_request d (rb_content rb), rb\<lparr>rb_pos := pos\<rparr>)"
      using dec by blast
    show ?thesis
      unfolding request_body_def line_body_def len 1 case_prod_conv rewind [OF assms(2,3) False]
      using False by (simp del: concat_eq_Nil_conv add: decode_from_text [OF assms False] split: option.split)
  qed
qed

lemma body_cases:
  assumes "line_body d iter ctxDone c line h = Returned err written ws h'" "line \<noteq> []"
  shows "(err = None \<and> written \<and> (\<exists>r. ws = [r])) \<or> (\<not> written \<and> ws = []) \<and>
    (err \<in> {Some BadJSON, Some Unrecognised} \<longrightarrow> h' = h)"
  using assms
  by (auto simp: line_body_def serve_put_def serve_get_def serve_delete_def serve_abort_def handler_result_def
      split: option.splits prod.splits if_splits get_reply.splits)

section \<open>Answers\<close>

text \<open>What a client is promised as the answer to a line.\<close>

definition answers :: "string \<Rightarrow> 'v conn_write list \<Rightarrow> bool" where
  "answers line ws \<longleftrightarrow> (if line = [] then ws = [Newline] else \<exists>r. ws = [Obj r, Newline])"

lemma serve_request_answers:
  assumes "0 < bufSize" "rb_ok bufSize rb" "rb_data rb \<noteq> []"
    and "serve_request d bufSize iter ctxDone c rb h = Served ws h'"
  shows "answers (rb_content rb) ws"
proof -
  obtain err written rs where b: "line_body d iter ctxDone c (rb_content rb) h = Returned err written rs h'"
    and ws: "ws = map Obj rs @ deferred_writes err written"
    using assms(4) unfolding serve_request_def request_body_line [OF assms(1-3)] by (auto split: body.splits)
  show ?thesis
  proof (cases "rb_content rb = []")
    case True
    then show ?thesis using b ws unfolding answers_def line_body_def by (simp add: deferred_writes_def)
  next
    case False
    then show ?thesis using body_cases [OF b False] ws
      unfolding answers_def by (auto simp: deferred_writes_def split: option.splits)
  qed
qed

lemma serve_all_answers:
  assumes "0 < bufSize" "\<forall>x\<in>set reqs. rb_ok bufSize (fst x) \<and> rb_data (fst x) \<noteq> []"
    and "serve_all d bufSize c reqs h = (wss, h')"
  shows "length wss \<le> length reqs \<and> list_all2 answers (take (length wss) (map (rb_content \<circ> fst) reqs)) wss \<and>
    (length wss < length reqs \<longrightarrow> (\<exists>s. \<not> is_Served
       (serve_request d bufSize (snd (snd (reqs ! length wss))) False c (fst (reqs ! length wss)) s)))"
  using assms(2,3)
proof (induction reqs arbitrary: h wss)
  case (Cons x reqs)
  obtain rb env iter where x: "x = (rb, env, iter)" by (cases x) auto
  show ?case
  proof (cases "serve_request d bufSize iter False c rb (env h)")
    case (Served ws h1)
    obtain wss' h2 where rest: "serve_all d bufSize c reqs h1 = (wss', h2)" by fastforce
    have "wss = ws # wss'" "h2 = h'" using Cons.prems(2) x Served rest by auto
    moreover have "answers (rb_content rb) ws"
      using serve_request_answers [OF assms(1) _ _ Served] Cons.prems(1) x by auto
    ultimately show ?thesis using Cons.IH [of h1 wss'] Cons.prems(1) rest x by simp
  qed (use Cons.prems(2) x in \<open>auto intro!: exI [of _ "env h"]\<close>)
qed simp

section \<open>Properties of the dispatch\<close>


definition sample_decoder :: "nat decoder" where
  "sample_decoder = \<lparr>decode_request = Some, decode_put = (\<lambda>_. Some (''q1'', 10, 5)),
     decode_get = (\<lambda>_. Some ([''q1''], False)), decode_id = (\<lambda>_. Some 1)\<rparr>"


end
