(* ===== verification/Go_Strconv.thy ===== *)
theory Go_Strconv
  imports Prelude
begin

text \<open>
  Decimal numbers as \<open>fmt\<close>'s \<open>%d\<close> and \<open>strconv.FormatInt\<close> print them and \<open>strconv.ParseInt(s, 10, 32)\<close>
  reads them: an optional sign and at least one digit, and an error outside the 32 bit range.
  Shown: every 32 bit number is read back from its print.
\<close>

definition int32_range :: "int \<Rightarrow> bool" where
  "int32_range i \<longleftrightarrow> - (2 ^ 31) \<le> i \<and> i < 2 ^ 31"

definition digit :: "nat \<Rightarrow> char" where
  "digit d = char_of (48 + d)"

fun show_nat :: "nat \<Rightarrow> string" where
  "show_nat n = (if n < 10 then [digit n] else show_nat (n div 10) @ [digit (n mod 10)])"

declare show_nat.simps [simp del]

definition show_int :: "int \<Rightarrow> string" where
  "show_int i = (if i < 0 then CHR ''-'' # show_nat (nat (- i)) else show_nat (nat i))"

definition is_digit :: "char \<Rightarrow> bool" where
  "is_digit c \<longleftrightarrow> 48 \<le> (of_char c :: nat) \<and> (of_char c :: nat) < 58"

fun parse_digits :: "nat \<Rightarrow> string \<Rightarrow> nat option" where
  "parse_digits acc [] = Some acc"
| "parse_digits acc (c # cs) =
     (if is_digit c then parse_digits (acc * 10 + (of_char c - 48)) cs else None)"

definition parse_nat :: "string \<Rightarrow> nat option" where
  "parse_nat s = (if s = [] then None else parse_digits 0 s)"

definition ParseInt32 :: "string \<Rightarrow> int option" where
  "ParseInt32 s =
     (let (neg, ds) = (case s of
            [] \<Rightarrow> (False, [])
          | c # cs \<Rightarrow> if c = CHR ''-'' then (True, cs) else if c = CHR ''+'' then (False, cs) else (False, s))
      in case parse_nat ds of
           None \<Rightarrow> None
         | Some n \<Rightarrow>
             if neg then if n \<le> 2 ^ 31 then Some (- int n) else None
             else if n < 2 ^ 31 then Some (int n) else None)"

lemma of_char_digit: "d < 10 \<Longrightarrow> (of_char (digit d) :: nat) = 48 + d"
  by (simp add: digit_def)

lemma is_digit_digit: "d < 10 \<Longrightarrow> is_digit (digit d)"
  by (simp add: is_digit_def of_char_digit)

lemma parse_digits_append:
  "parse_digits acc (xs @ ys) = (case parse_digits acc xs of None \<Rightarrow> None | Some a \<Rightarrow> parse_digits a ys)"
  by (induction xs arbitrary: acc) auto

lemma parse_show_nat: "parse_digits acc (show_nat n) = Some (acc * 10 ^ length (show_nat n) + n)"
proof (induction n arbitrary: acc rule: show_nat.induct)
  case (1 n)
  show ?case
  proof (cases "n < 10")
    case True
    then show ?thesis by (subst (1 2) show_nat.simps) (simp add: is_digit_digit of_char_digit)
  next
    case False
    from 1 [OF False] show ?thesis
      by (subst (1 2) show_nat.simps) (simp add: False parse_digits_append is_digit_digit of_char_digit algebra_simps)
  qed
qed

lemma show_nat_ne: "show_nat n \<noteq> []"
  by (subst show_nat.simps) simp

lemma show_nat_digits: "c \<in> set (show_nat n) \<Longrightarrow> is_digit c"
proof (induction n rule: show_nat.induct)
  case (1 n)
  then show ?case by (subst (asm) (2) show_nat.simps) (auto simp: is_digit_digit split: if_splits)
qed

lemma is_digit_neq: "is_digit c \<Longrightarrow> c \<noteq> CHR ''/'' \<and> c \<noteq> CHR 0x5C \<and> c \<noteq> CHR ''-'' \<and> c \<noteq> CHR ''+''"
  by (auto simp: is_digit_def)

lemma show_int_ne: "show_int i \<noteq> []"
  by (simp add: show_int_def show_nat_ne)

lemma ParseInt32_show: "int32_range i \<Longrightarrow> ParseInt32 (show_int i) = Some i"
proof (cases "i < 0")
  case True
  assume "int32_range i"
  then have "nat (- i) \<le> 2 ^ 31" by (auto simp: int32_range_def)
  with True show ?thesis
    by (simp add: ParseInt32_def show_int_def parse_nat_def show_nat_ne parse_show_nat)
next
  case False
  assume "int32_range i"
  then have lt: "nat i < 2 ^ 31" by (auto simp: int32_range_def)
  obtain c cs where s: "show_nat (nat i) = c # cs" using show_nat_ne by (cases "show_nat (nat i)") auto
  then have "c \<noteq> CHR ''-''" "c \<noteq> CHR ''+''" using show_nat_digits [of c "nat i"] is_digit_neq by auto
  moreover have "parse_digits 0 (c # cs) = Some (nat i)" using parse_show_nat [of 0 "nat i"] s by simp
  ultimately show ?thesis using False lt s by (simp add: ParseInt32_def show_int_def parse_nat_def)
qed

lemma length_show_nat: "n < 10 ^ k \<Longrightarrow> 0 < k \<Longrightarrow> length (show_nat n) \<le> k"
proof (induction n arbitrary: k rule: show_nat.induct)
  case (1 n)
  show ?case
  proof (cases "n < 10")
    case True
    then show ?thesis using "1.prems" by (subst show_nat.simps) simp
  next
    case False
    then obtain j where k: "k = Suc j" "0 < j" using "1.prems" by (cases k; cases "k - 1") auto
    then have "n div 10 < 10 ^ j" using "1.prems" by (simp add: less_mult_imp_div_less mult.commute)
    then show ?thesis using "1.IH" [OF False] k False by (subst show_nat.simps) simp
  qed
qed

lemma length_show_int: "int32_range i \<Longrightarrow> length (show_int i) \<le> 11"
  using length_show_nat [of "nat i" 10] length_show_nat [of "nat (- i)" 10]
  by (cases "i < 0") (simp_all add: show_int_def int32_range_def nat_less_iff)

lemma show_int_chars: "c \<in> set (show_int i) \<Longrightarrow> is_digit c \<or> c = CHR ''-''"
  by (auto simp: show_int_def dest: show_nat_digits split: if_splits)

end
