(* ===== verification/Go_Json.thy ===== *)
theory Go_Json
  imports Go_Strconv
begin

text \<open>
  What the servers use of \<open>encoding/json\<close>: the grammar that \<open>Unmarshal\<close> and \<open>Decoder.Decode\<close> accept, the
  decoding of strings (escapes, surrogate pairs, invalid UTF-8), the matching of object keys with the
  fields of a struct, and the texts that \<open>Marshal\<close> and \<open>Encoder.Encode\<close> write. A text is a list of bytes.
  Numbers keep their literal, as \<open>UnmarshalJSON\<close> methods and the integer fields of a struct see it.

  Shown: a string that is written and read again is the string with its invalid UTF-8 replaced, and a
  value that is written is read back, whatever follows it, if its literals are numbers and it is not
  nested deeper than the decoder accepts.
\<close>

abbreviation dquote :: char where
  "dquote \<equiv> CHR 0x22"

abbreviation backslash :: char where
  "backslash \<equiv> CHR 0x5C"

definition is_space :: "char \<Rightarrow> bool" where
  "is_space c \<longleftrightarrow> c \<in> {CHR '' '', CHR 0x09, CHR 0x0A, CHR 0x0D}"

abbreviation skip_space :: "string \<Rightarrow> string" where
  "skip_space \<equiv> dropWhile is_space"

section \<open>UTF-8\<close>

definition byte_in :: "nat \<Rightarrow> nat \<Rightarrow> char \<Rightarrow> bool" where
  "byte_in lo hi c \<longleftrightarrow> lo \<le> (of_char c :: nat) \<and> (of_char c :: nat) \<le> hi"

text \<open>The width of the valid encoding at the start of a text, as \<open>utf8.DecodeRune\<close> finds it.\<close>

fun utf8_width :: "string \<Rightarrow> nat option" where
  "utf8_width [] = None"
| "utf8_width (a # s) =
     (let n = of_char a :: nat in
      if n < 0x80 then Some 1
      else if n < 0xC2 \<or> 0xF4 < n then None
      else let w = (if n < 0xE0 then 2 else if n < 0xF0 then 3 else 4);
               lo = (if n = 0xE0 then 0xA0 else if n = 0xF0 then 0x90 else 0x80);
               hi = (if n = 0xED then 0x9F else if n = 0xF4 then 0x8F else 0xBF)
           in case s of
                [] \<Rightarrow> None
              | b # t \<Rightarrow>
                  if byte_in lo hi b \<and> w - 2 \<le> length t \<and> list_all (byte_in 0x80 0xBF) (take (w - 2) t)
                  then Some w else None)"

lemma utf8_width_bounds: "utf8_width s = Some w \<Longrightarrow> 1 \<le> w \<and> w \<le> length s"
  by (cases s) (auto simp: Let_def split: if_splits list.splits)

lemma utf8_width_take: "utf8_width s = Some w \<Longrightarrow> utf8_width (take w s @ t) = Some w"
  by (cases s) (auto simp: Let_def min_def split: if_splits list.splits)

lemma utf8_width_ascii: "(of_char c :: nat) < 128 \<Longrightarrow> utf8_width (c # s) = Some 1"
  by simp

lemma utf8_width_wide: "utf8_width (c # s) = Some w \<Longrightarrow> 128 \<le> (of_char c :: nat) \<Longrightarrow> 2 \<le> w"
  by (auto simp: Let_def split: if_splits list.splits)

definition replacement :: string where
  "replacement = [CHR 0xEF, CHR 0xBF, CHR 0xBD]"

text \<open>\<open>utf8.EncodeRune\<close> on a code point.\<close>

definition encode_rune :: "nat \<Rightarrow> string" where
  "encode_rune r =
     (if r < 0x80 then [char_of r]
      else if r < 0x800 then [char_of (0xC0 + r div 64), char_of (0x80 + r mod 64)]
      else if 0xD800 \<le> r \<and> r < 0xE000 \<or> 0x10FFFF < r then replacement
      else if r < 0x10000 then
        [char_of (0xE0 + r div 4096), char_of (0x80 + r div 64 mod 64), char_of (0x80 + r mod 64)]
      else [char_of (0xF0 + r div 262144), char_of (0x80 + r div 4096 mod 64),
            char_of (0x80 + r div 64 mod 64), char_of (0x80 + r mod 64)])"

text \<open>Invalid bytes become U+FFFD, one by one.\<close>

function to_valid_utf8 :: "string \<Rightarrow> string" where
  "to_valid_utf8 [] = []"
| "to_valid_utf8 (c # s) =
     (case utf8_width (c # s) of
        None \<Rightarrow> replacement @ to_valid_utf8 s
      | Some w \<Rightarrow> take w (c # s) @ to_valid_utf8 (drop (w - 1) s))"
  by pat_completeness auto
termination by (relation "measure length") auto

declare to_valid_utf8.simps(2) [simp del]

definition valid_utf8 :: "string \<Rightarrow> bool" where
  "valid_utf8 s \<longleftrightarrow> to_valid_utf8 s = s"

lemma valid_ascii: "\<forall>c\<in>set s. (of_char c :: nat) < 128 \<Longrightarrow> to_valid_utf8 s = s"
  by (induction s) (simp_all add: to_valid_utf8.simps(2))

section \<open>Strings\<close>

fun hex_digit :: "char \<Rightarrow> nat option" where
  "hex_digit c =
     (let n = of_char c :: nat in
      if 48 \<le> n \<and> n < 58 then Some (n - 48)
      else if 65 \<le> n \<and> n < 71 then Some (n - 55)
      else if 97 \<le> n \<and> n < 103 then Some (n - 87)
      else None)"

fun hex4 :: "string \<Rightarrow> (nat \<times> string) option" where
  "hex4 (a # b # c # d # s) =
     (case (hex_digit a, hex_digit b, hex_digit c, hex_digit d) of
        (Some i, Some j, Some k, Some l) \<Rightarrow> Some (((i * 16 + j) * 16 + k) * 16 + l, s)
      | _ \<Rightarrow> None)"
| "hex4 _ = None"

text \<open>What follows a backslash: the decoded bytes and the rest.\<close>

definition unicode_escape :: "string \<Rightarrow> (string \<times> string) option" where
  "unicode_escape s =
     (case hex4 s of
        None \<Rightarrow> None
      | Some (r, t) \<Rightarrow>
          if 0xD800 \<le> r \<and> r < 0xE000 then
            (case t of
               b # u # t' \<Rightarrow>
                 if r < 0xDC00 \<and> b = backslash \<and> u = CHR ''u'' then
                   (case hex4 t' of
                      Some (r', t'') \<Rightarrow>
                        if 0xDC00 \<le> r' \<and> r' < 0xE000
                        then Some (encode_rune (0x10000 + (r - 0xD800) * 1024 + (r' - 0xDC00)), t'')
                        else Some (replacement, t)
                    | None \<Rightarrow> Some (replacement, t))
                 else Some (replacement, t)
             | _ \<Rightarrow> Some (replacement, t))
          else Some (encode_rune r, t))"

fun escape :: "string \<Rightarrow> (string \<times> string) option" where
  "escape [] = None"
| "escape (c # s) =
     (if c = dquote \<or> c = backslash \<or> c = CHR ''/'' then Some ([c], s)
      else if c = CHR ''b'' then Some ([CHR 0x08], s)
      else if c = CHR ''f'' then Some ([CHR 0x0C], s)
      else if c = CHR ''n'' then Some ([CHR 0x0A], s)
      else if c = CHR ''r'' then Some ([CHR 0x0D], s)
      else if c = CHR ''t'' then Some ([CHR 0x09], s)
      else if c = CHR ''u'' then unicode_escape s
      else None)"

lemma hex4_shorter: "hex4 s = Some (r, t) \<Longrightarrow> length t < length s"
  by (induction s rule: hex4.induct) (auto split: option.splits)

lemma unicode_escape_shorter: "unicode_escape s = Some (out, t) \<Longrightarrow> length t < length s"
  by (auto simp: unicode_escape_def dest!: hex4_shorter split: option.splits if_splits list.splits)

lemma escape_shorter: "escape s = Some (out, t) \<Longrightarrow> length t < length s"
  by (cases s) (auto dest!: unicode_escape_shorter split: if_splits)

text \<open>A string after its opening quote: the decoded bytes, and what follows the closing quote.\<close>

function json_string :: "string \<Rightarrow> (string \<times> string) option" where
  "json_string [] = None"
| "json_string (c # s) =
     (if c = dquote then Some ([], s)
      else if c = backslash then
        (case escape s of
           None \<Rightarrow> None
         | Some (out, t) \<Rightarrow> map_option (apfst ((@) out)) (json_string t))
      else if (of_char c :: nat) < 32 then None
      else case utf8_width (c # s) of
             None \<Rightarrow> map_option (apfst ((@) replacement)) (json_string s)
           | Some w \<Rightarrow> map_option (apfst ((@) (take w (c # s)))) (json_string (drop (w - 1) s)))"
  by pat_completeness auto
termination
  by (relation "measure length") (auto dest: escape_shorter)

declare json_string.simps(2) [simp del]

lemma json_string_shorter: "json_string s = Some (out, t) \<Longrightarrow> length t < length s"
proof (induction s arbitrary: out rule: json_string.induct)
  case (2 c s)
  show ?case
  proof (cases "c = dquote")
    case False
    consider (esc) e u where "c = backslash" "escape s = Some (e, u)"
      | (plain) "c \<noteq> backslash" "\<not> (of_char c :: nat) < 32"
      using "2.prems" False by (auto simp: json_string.simps(2) split: if_splits option.splits)
    then show ?thesis
    proof cases
      case esc
      then obtain out' where "json_string u = Some (out', t)"
        using "2.prems" False by (auto simp: json_string.simps(2))
      then show ?thesis using "2.IH"(1) [OF False esc(1,2) refl] escape_shorter [OF esc(2)] by fastforce
    next
      case plain
      show ?thesis
      proof (cases "utf8_width (c # s)")
        case None
        then obtain out' where "json_string s = Some (out', t)"
          using "2.prems" False plain by (auto simp: json_string.simps(2))
        then show ?thesis using "2.IH"(2) [OF False plain None] by fastforce
      next
        case (Some w)
        then obtain out' where "json_string (drop (w - 1) s) = Some (out', t)"
          using "2.prems" False plain by (auto simp: json_string.simps(2))
        then show ?thesis using "2.IH"(3) [OF False plain Some] by fastforce
      qed
    qed
  qed (use "2.prems" in \<open>simp add: json_string.simps(2)\<close>)
qed simp

text \<open>Strings as they are written, without the quotes around them.\<close>

definition hex_char :: "nat \<Rightarrow> char" where
  "hex_char n = (if n < 10 then char_of (48 + n) else char_of (87 + n))"

definition html_safe :: "char \<Rightarrow> bool" where
  "html_safe c \<longleftrightarrow> 32 \<le> (of_char c :: nat) \<and> c \<notin> {dquote, backslash, CHR ''<'', CHR ''>'', CHR ''&''}"

definition quote_ascii :: "char \<Rightarrow> string" where
  "quote_ascii c =
     (if html_safe c then [c]
      else if c = dquote \<or> c = backslash then [backslash, c]
      else if c = CHR 0x08 then [backslash, CHR ''b'']
      else if c = CHR 0x0C then [backslash, CHR ''f'']
      else if c = CHR 0x0A then [backslash, CHR ''n'']
      else if c = CHR 0x0D then [backslash, CHR ''r'']
      else if c = CHR 0x09 then [backslash, CHR ''t'']
      else [backslash, CHR ''u'', CHR ''0'', CHR ''0'', hex_char (of_char c div 16), hex_char (of_char c mod 16)])"

definition quote_wide :: "string \<Rightarrow> string" where
  "quote_wide r =
     (if r = [CHR 0xE2, CHR 0x80, CHR 0xA8] then backslash # ''u2028''
      else if r = [CHR 0xE2, CHR 0x80, CHR 0xA9] then backslash # ''u2029''
      else r)"

function quote :: "string \<Rightarrow> string" where
  "quote [] = []"
| "quote (c # s) =
     (if (of_char c :: nat) < 128 then quote_ascii c @ quote s
      else case utf8_width (c # s) of
             None \<Rightarrow> (backslash # ''ufffd'') @ quote s
           | Some w \<Rightarrow> quote_wide (take w (c # s)) @ quote (drop (w - 1) s))"
  by pat_completeness auto
termination by (relation "measure length") auto

declare quote.simps(2) [simp del]

definition json_quote :: "string \<Rightarrow> string" where
  "json_quote s = dquote # quote s @ [dquote]"

lemma append_single: "(@) [c] = (#) c"
  by (simp add: fun_eq_iff)

lemma encode_rune_samples:
  "encode_rune 0x2028 = [CHR 0xE2, CHR 0x80, CHR 0xA8]" "encode_rune 0x2029 = [CHR 0xE2, CHR 0x80, CHR 0xA9]"
  "encode_rune 0xFFFD = replacement"
  by (simp_all add: encode_rune_def replacement_def char_of_def bit_0)

lemma hex_digit_char: "n < 16 \<Longrightarrow> hex_digit (hex_char n) = Some n"
  by (simp add: hex_char_def Let_def)

lemma string_of_ascii:
  "(of_char c :: nat) < 128 \<Longrightarrow>
   json_string (quote_ascii c @ s) = map_option (apfst ((#) c)) (json_string s)"
proof -
  assume a: "(of_char c :: nat) < 128"
  show ?thesis
  proof (cases "html_safe c")
    case True
    then show ?thesis using a by (simp add: quote_ascii_def html_safe_def json_string.simps(2) append_single)
  next
    case False
    show ?thesis
    proof (cases "c \<in> {dquote, backslash, CHR 0x08, CHR 0x0C, CHR 0x0A, CHR 0x0D, CHR 0x09}")
      case True
      then show ?thesis using False
        by (elim insertE emptyE) (simp_all add: quote_ascii_def json_string.simps(2) html_safe_def append_single)
    next
      case named: False
      let ?n = "of_char c :: nat"
      have "hex_digit (hex_char (?n div 16)) = Some (?n div 16)" "hex_digit (hex_char (?n mod 16)) = Some (?n mod 16)"
        using a by (simp_all add: hex_digit_char del: hex_digit.simps)
      moreover have "hex_digit CHR ''0'' = Some 0" by (simp add: Let_def)
      ultimately have "unicode_escape (CHR ''0'' # CHR ''0'' # hex_char (?n div 16) # hex_char (?n mod 16) # s) = Some ([c], s)"
        using a by (simp add: unicode_escape_def encode_rune_def del: hex_digit.simps)
      then show ?thesis using False named by (simp add: quote_ascii_def json_string.simps(2) append_single)
    qed
  qed
qed

lemma string_of_wide:
  assumes "utf8_width (c # s) = Some w" "128 \<le> (of_char c :: nat)"
  shows "json_string (quote_wide (take w (c # s)) @ t) = map_option (apfst ((@) (take w (c # s)))) (json_string t)"
proof -
  let ?r = "take w (c # s)"
  consider (ls) "?r = [CHR 0xE2, CHR 0x80, CHR 0xA8]" | (ps) "?r = [CHR 0xE2, CHR 0x80, CHR 0xA9]"
    | (other) "quote_wide ?r = ?r" by (metis quote_wide_def)
  then show ?thesis
  proof cases
    case other
    obtain v where w: "w = Suc v" using utf8_width_bounds [OF assms(1)] by (cases w) auto
    have neq: "c \<noteq> dquote" "c \<noteq> backslash" "\<not> (of_char c :: nat) < 32" using assms(2) by auto
    have r: "?r @ t = c # take v s @ t" by (simp add: w)
    have width: "utf8_width (c # take v s @ t) = Some w" using utf8_width_take [OF assms(1), of t] by (simp add: w)
    have "v \<le> length s" using utf8_width_bounds [OF assms(1)] by (simp add: w)
    then have "take w (c # take v s @ t) = ?r" "drop (w - 1) (take v s @ t) = t" by (auto simp: w)
    then show ?thesis unfolding other r by (simp add: json_string.simps(2) neq width del: utf8_width.simps)
  qed (simp_all add: quote_wide_def json_string.simps(2) unicode_escape_def encode_rune_samples Let_def)
qed

lemma string_of_replacement:
  "json_string ((backslash # ''ufffd'') @ t) = map_option (apfst ((@) replacement)) (json_string t)"
  by (simp add: json_string.simps(2) unicode_escape_def encode_rune_samples Let_def)

lemma json_string_quote: "json_string (quote s @ dquote # t) = Some (to_valid_utf8 s, t)"
proof (induction s rule: quote.induct)
  case 1
  show ?case by (simp add: json_string.simps(2))
next
  case (2 c s)
  show ?case
  proof (cases "(of_char c :: nat) < 128")
    case True
    then show ?thesis using "2.IH"(1) [OF True] string_of_ascii [OF True, of "quote s @ dquote # t"]
      by (simp add: quote.simps(2) to_valid_utf8.simps(2))
  next
    case False
    then have wide: "128 \<le> (of_char c :: nat)" by simp
    show ?thesis
    proof (cases "utf8_width (c # s)")
      case None
      then have q: "quote (c # s) = (backslash # ''ufffd'') @ quote s" using False by (simp add: quote.simps(2))
      show ?thesis unfolding q append_assoc string_of_replacement
        using "2.IH"(2) [OF False None] None by (simp add: to_valid_utf8.simps(2))
    next
      case (Some w)
      then have q: "quote (c # s) = quote_wide (take w (c # s)) @ quote (drop (w - 1) s)"
        using False by (simp add: quote.simps(2))
      show ?thesis unfolding q append_assoc string_of_wide [OF Some wide]
        using "2.IH"(3) [OF False Some] Some by (simp add: to_valid_utf8.simps(2))
    qed
  qed
qed

section \<open>Numbers\<close>

text \<open>A number is a literal; its longest prefix that the grammar takes, and the rest.\<close>

definition digits_of :: "string \<Rightarrow> string" where
  "digits_of = takeWhile is_digit"

definition int_literal :: "string \<Rightarrow> (string \<times> string) option" where
  "int_literal s =
     (case s of
        [] \<Rightarrow> None
      | c # t \<Rightarrow>
          if c = CHR ''0'' then Some ([c], t)
          else if is_digit c then Some (digits_of s, dropWhile is_digit s)
          else None)"

definition frac_literal :: "string \<Rightarrow> (string \<times> string) option" where
  "frac_literal s =
     (case s of
        [] \<Rightarrow> Some ([], s)
      | c # t \<Rightarrow>
          if c = CHR ''.'' then if digits_of t = [] then None else Some (c # digits_of t, dropWhile is_digit t)
          else Some ([], s))"

definition exp_literal :: "string \<Rightarrow> (string \<times> string) option" where
  "exp_literal s =
     (case s of
        [] \<Rightarrow> Some ([], s)
      | c # t \<Rightarrow>
          if c = CHR ''e'' \<or> c = CHR ''E'' then
            (let (sign, u) = (case t of
                   [] \<Rightarrow> ([], t)
                 | d # t' \<Rightarrow> if d = CHR ''+'' \<or> d = CHR ''-'' then ([d], t') else ([], t))
             in if digits_of u = [] then None else Some (c # sign @ digits_of u, dropWhile is_digit u))
          else Some ([], s))"

definition number_literal :: "string \<Rightarrow> (string \<times> string) option" where
  "number_literal s =
     (let (neg, s0) = (case s of [] \<Rightarrow> ([], s) | c # t \<Rightarrow> if c = CHR ''-'' then ([c], t) else ([], s))
      in case int_literal s0 of
           None \<Rightarrow> None
         | Some (i, s1) \<Rightarrow>
             (case frac_literal s1 of
                None \<Rightarrow> None
              | Some (f, s2) \<Rightarrow>
                  (case exp_literal s2 of
                     None \<Rightarrow> None
                   | Some (e, s3) \<Rightarrow> Some (neg @ i @ f @ e, s3))))"

definition is_number :: "string \<Rightarrow> bool" where
  "is_number l \<longleftrightarrow> number_literal l = Some (l, [])"

text \<open>What may follow a literal without becoming a part of it.\<close>

definition ends_number :: "string \<Rightarrow> bool" where
  "ends_number s \<longleftrightarrow> (case s of [] \<Rightarrow> True | c # t \<Rightarrow> \<not> is_digit c \<and> c \<notin> {CHR ''.'', CHR ''e'', CHR ''E''})"

lemma digits_append:
  "ends_number r \<Longrightarrow> digits_of (s @ r) = digits_of s"
  "ends_number r \<Longrightarrow> dropWhile is_digit (s @ r) = dropWhile is_digit s @ r"
  by (induction s) (auto simp: digits_of_def ends_number_def split: list.splits)

lemma digits_of_Cons: "digits_of (c # s) = (if is_digit c then c # digits_of s else [])"
  by (simp add: digits_of_def)

lemma int_literal_append:
  "ends_number r \<Longrightarrow> int_literal s = Some (l, t) \<Longrightarrow> int_literal (s @ r) = Some (l, t @ r)"
  by (cases s) (auto simp: int_literal_def digits_of_Cons digits_append split: if_splits)

lemma frac_literal_append:
  assumes "ends_number r" "frac_literal s = Some (l, t)"
  shows "frac_literal (s @ r) = Some (l, t @ r)"
proof (cases s)
  case Nil
  then show ?thesis using assms by (auto simp: frac_literal_def ends_number_def split: list.splits)
next
  case (Cons c u)
  then show ?thesis using assms by (simp add: frac_literal_def digits_append split: if_splits)
qed

lemma exp_literal_append:
  assumes "ends_number r" "exp_literal s = Some (l, t)"
  shows "exp_literal (s @ r) = Some (l, t @ r)"
proof (cases s)
  case Nil
  then show ?thesis using assms by (auto simp: exp_literal_def ends_number_def split: list.splits)
next
  case (Cons c u)
  show ?thesis
  proof (cases u)
    case Nil
    then show ?thesis using assms Cons by (auto simp: exp_literal_def digits_of_def split: if_splits)
  next
    case (Cons d v)
    then show ?thesis using assms \<open>s = c # u\<close>
      by (auto simp: exp_literal_def digits_of_Cons digits_append split: if_splits)
  qed
qed

lemma int_literal_ne: "int_literal s = Some (l, t) \<Longrightarrow> s \<noteq> [] \<and> length t < length s"
  by (auto simp: int_literal_def split: list.splits if_splits)
     (metis is_digit_def length_dropWhile_le le_imp_less_Suc)

lemma number_literal_append:
  assumes "ends_number r" "number_literal s = Some (l, t)"
  shows "number_literal (s @ r) = Some (l, t @ r)"
proof -
  obtain neg s0 where n: "(case s of [] \<Rightarrow> ([], s) | c # t \<Rightarrow> if c = CHR ''-'' then ([c], t) else ([], s)) = (neg, s0)"
    by force
  obtain i s1 f s2 e where parts: "int_literal s0 = Some (i, s1)" "frac_literal s1 = Some (f, s2)"
      "exp_literal s2 = Some (e, t)" "l = neg @ i @ f @ e"
    using assms(2) by (auto simp: number_literal_def n split: option.splits)
  have "s \<noteq> []" using n int_literal_ne [OF parts(1)] by (cases s) auto
  then have "(case s @ r of [] \<Rightarrow> ([], s @ r) | c # t \<Rightarrow> if c = CHR ''-'' then ([c], t) else ([], s @ r)) = (neg, s0 @ r)"
    using n by (cases s) (auto split: if_splits)
  then show ?thesis
    using int_literal_append [OF assms(1) parts(1)] frac_literal_append [OF assms(1) parts(2)]
      exp_literal_append [OF assms(1) parts(3)] parts(4) by (simp add: number_literal_def)
qed

section \<open>Values\<close>

datatype json =
  JNull
| JBool bool
| JNum string
| JStr string
| JArr "json list"
| JObj "(string \<times> json) list"

definition max_depth :: int where
  "max_depth = 10000"

definition literal :: "string \<Rightarrow> (json \<times> string) option" where
  "literal s =
     (if take 4 s = ''null'' then Some (JNull, drop 4 s)
      else if take 4 s = ''true'' then Some (JBool True, drop 4 s)
      else if take 5 s = ''false'' then Some (JBool False, drop 5 s)
      else map_option (apfst JNum) (number_literal s))"

text \<open>
  The value at the start of a text without leading space, inside \<open>d\<close> arrays and objects. The first
  argument is the fuel; \<open>value_of_enough\<close> below shows that twice the length of the text is enough.
\<close>

fun value_of :: "nat \<Rightarrow> int \<Rightarrow> string \<Rightarrow> (json \<times> string) option"
  and elements_of :: "nat \<Rightarrow> int \<Rightarrow> string \<Rightarrow> (json list \<times> string) option"
  and members_of :: "nat \<Rightarrow> int \<Rightarrow> string \<Rightarrow> ((string \<times> json) list \<times> string) option" where
  "value_of 0 d s = None"
| "value_of (Suc n) d s =
     (case s of
        [] \<Rightarrow> None
      | c # t \<Rightarrow>
          if c = CHR ''{'' then
            (if max_depth \<le> d then None
             else case skip_space t of
                    [] \<Rightarrow> None
                  | e # u \<Rightarrow> if e = CHR ''}'' then Some (JObj [], u)
                            else map_option (apfst JObj) (members_of n (d + 1) (e # u)))
          else if c = CHR ''['' then
            (if max_depth \<le> d then None
             else case skip_space t of
                    [] \<Rightarrow> None
                  | e # u \<Rightarrow> if e = CHR '']'' then Some (JArr [], u)
                            else map_option (apfst JArr) (elements_of n (d + 1) (e # u)))
          else if c = dquote then map_option (apfst JStr) (json_string t)
          else literal s)"
| "elements_of 0 d s = None"
| "elements_of (Suc n) d s =
     (case value_of n d s of
        None \<Rightarrow> None
      | Some (v, t) \<Rightarrow>
          (case skip_space t of
             [] \<Rightarrow> None
           | c # u \<Rightarrow>
               if c = CHR '','' then map_option (apfst ((#) v)) (elements_of n d (skip_space u))
               else if c = CHR '']'' then Some ([v], u)
               else None))"
| "members_of 0 d s = None"
| "members_of (Suc n) d s =
     (case s of
        [] \<Rightarrow> None
      | q # s' \<Rightarrow>
          if q \<noteq> dquote then None
          else case json_string s' of
                 None \<Rightarrow> None
               | Some (k, t) \<Rightarrow>
                   (case skip_space t of
                      [] \<Rightarrow> None
                    | c # u \<Rightarrow>
                        if c \<noteq> CHR '':'' then None
                        else case value_of n d (skip_space u) of
                               None \<Rightarrow> None
                             | Some (v, x) \<Rightarrow>
                                 (case skip_space x of
                                    [] \<Rightarrow> None
                                  | e # y \<Rightarrow>
                                      if e = CHR '','' then map_option (apfst ((#) (k, v))) (members_of n d (skip_space y))
                                      else if e = CHR ''}'' then Some ([(k, v)], y)
                                      else None)))"

definition json_value :: "string \<Rightarrow> (json \<times> string) option" where
  "json_value s = value_of (2 * length s + 1) 0 s"

text \<open>\<open>Unmarshal\<close> takes the whole text; a \<open>Decoder\<close> stops after the first value.\<close>

definition parse_all :: "string \<Rightarrow> json option" where
  "parse_all s =
     (case json_value (skip_space s) of
        None \<Rightarrow> None
      | Some (v, t) \<Rightarrow> if skip_space t = [] then Some v else None)"

fun self_delimiting :: "json \<Rightarrow> bool" where
  "self_delimiting (JArr vs) = True"
| "self_delimiting (JObj kvs) = True"
| "self_delimiting _ = False"

definition parse_first :: "string \<Rightarrow> json option" where
  "parse_first s =
     (case json_value (skip_space s) of
        None \<Rightarrow> None
      | Some (v, t) \<Rightarrow> if self_delimiting v \<or> t = [] \<or> is_space (hd t) then Some v else None)"

subsection \<open>The fuel is enough\<close>

lemma skip_space_shorter: "skip_space s = c # t \<Longrightarrow> length t < length s"
  by (metis length_dropWhile_le length_Cons Suc_le_eq)

lemma literal_shorter: "literal s = Some (v, t) \<Longrightarrow> length t < length s"
proof -
  have num: "length t < length s" if n: "number_literal s = Some (l, t)" for l
  proof -
    obtain neg s0 where 0: "(case s of [] \<Rightarrow> ([], s) | c # t \<Rightarrow> if c = CHR ''-'' then ([c], t) else ([], s)) = (neg, s0)"
      by force
    obtain i s1 f s2 e where parts: "int_literal s0 = Some (i, s1)" "frac_literal s1 = Some (f, s2)"
        "exp_literal s2 = Some (e, t)" using n by (auto simp: number_literal_def 0 split: option.splits)
    have "length s0 \<le> length s" using 0 by (cases s) (auto split: if_splits)
    moreover have "length s1 < length s0" using int_literal_ne [OF parts(1)] by simp
    moreover have "length s2 \<le> length s1" using parts(2) length_dropWhile_le
      by (auto simp: frac_literal_def intro: le_SucI split: list.splits if_splits)
    moreover have "length t \<le> length s2" using parts(3) length_dropWhile_le
      by (auto simp: exp_literal_def intro: le_SucI split: list.splits if_splits)
    ultimately show ?thesis by simp
  qed
  have word: "length (drop k s) < length s" if "take k s = w" "w \<noteq> []" for k w
    using that by (cases k; cases s) auto
  assume "literal s = Some (v, t)"
  then show ?thesis using num word [of 4 "''null''"] word [of 4 "''true''"] word [of 5 "''false''"]
    by (auto simp: literal_def split: if_splits)
qed

lemma parsers_shorter:
  "value_of n d s = Some (v, t) \<Longrightarrow> length t < length s"
  "elements_of n d s = Some (vs, t) \<Longrightarrow> length t < length s"
  "members_of n d s = Some (kvs, t) \<Longrightarrow> length t < length s"
proof (induction n d s and n d s and n d s arbitrary: v t and vs t and kvs t
       rule: value_of_elements_of_members_of.induct)
  case (2 n d s)
  then obtain c s' where s: "s = c # s'" by (auto split: list.splits)
  show ?case
  proof (cases "c = CHR ''{'' \<or> c = CHR ''[''")
    case True
    then obtain e u where u: "skip_space s' = e # u" "\<not> max_depth \<le> d"
      using "2.prems" s by (cases "skip_space s'") (auto simp del: dropWhile_eq_Nil_conv split: if_splits)
    have "length t < Suc (length u)" 
    proof (cases "c = CHR ''{''")
      case True
      then show ?thesis using "2.prems" "2.IH"(1) [OF s True u(2,1)] u s by (auto split: if_splits)
    next
      case False
      then show ?thesis using "2.prems" "2.IH"(2) [OF s False _ u(2,1)] True u s by (auto split: if_splits)
    qed
    then show ?thesis using skip_space_shorter [OF u(1)] s by simp
  next
    case False
    then show ?thesis using "2.prems" s by (auto dest: json_string_shorter literal_shorter split: if_splits)
  qed
next
  case (4 n d s)
  then obtain v0 t0 where v: "value_of n d s = Some (v0, t0)" by (auto split: option.splits)
  with 4 obtain c u where u: "skip_space t0 = c # u" by (auto split: list.splits)
  have "length t0 < length s" "length u < length t0" using "4.IH"(1) [OF v] skip_space_shorter [OF u] by auto
  moreover have "length t \<le> length u"
    using "4.prems" v u "4.IH"(2) [OF v refl u] length_dropWhile_le [of is_space u] by (auto split: if_splits)
  ultimately show ?case by simp
next
  case (6 n d s)
  then obtain s' where s: "s = dquote # s'" by (auto split: list.splits if_splits)
  with 6 obtain k t0 where k: "json_string s' = Some (k, t0)" by (auto split: option.splits)
  with 6 s obtain u where u: "skip_space t0 = CHR '':'' # u" by (auto split: list.splits if_splits)
  with 6 s k obtain v0 x where v: "value_of n d (skip_space u) = Some (v0, x)" by (auto split: option.splits)
  with 6 s k u obtain e y where y: "skip_space x = e # y" by (auto split: list.splits)
  note IH = "6.IH"(1) [OF s _ k refl u] "6.IH"(2) [OF s _ k refl u _ v refl y]
  have "length t0 < length s'" "length u < length t0" "length x < length (skip_space u)" "length y < length x"
    using json_string_shorter [OF k] skip_space_shorter [OF u] skip_space_shorter [OF y] IH(1) [OF _ _ v] by auto
  moreover have "length t \<le> length y"
    using "6.prems" s k u v y IH(2) length_dropWhile_le [of is_space y] by (auto split: if_splits)
  ultimately show ?case using s length_dropWhile_le [of is_space u] by simp
qed simp_all

lemmas parser_steps = value_of.simps(2) elements_of.simps(2) members_of.simps(2)

declare parser_steps [simp del]

lemma more_fuel:
  "(2 * length s + 1 \<le> n \<longrightarrow> value_of (Suc n) d s = value_of n d s) \<and>
   (2 * length s + 2 \<le> n \<longrightarrow> elements_of (Suc n) d s = elements_of n d s) \<and>
   (2 * length s + 2 \<le> n \<longrightarrow> members_of (Suc n) d s = members_of n d s)"
proof (induction n arbitrary: d s)
  case (Suc m)
  have v: "value_of (Suc m) d s = value_of m d s" if "2 * length s + 1 \<le> m" for d s using Suc.IH that by blast
  have e: "elements_of (Suc m) d s = elements_of m d s" if "2 * length s + 2 \<le> m" for d s using Suc.IH that by blast
  have k: "members_of (Suc m) d s = members_of m d s" if "2 * length s + 2 \<le> m" for d s using Suc.IH that by blast
  show ?case
  proof (intro conjI impI)
    assume len: "2 * length s + 1 \<le> Suc m"
    show "value_of (Suc (Suc m)) d s = value_of (Suc m) d s"
    proof (cases s)
      case (Cons c t)
      show ?thesis
      proof (cases "skip_space t")
        case Nil
        show ?thesis unfolding Cons value_of.simps(2) list.case Nil by simp
      next
        case u: (Cons x u)
        then have "2 * length (x # u) + 2 \<le> m" using len Cons skip_space_shorter [OF u] by simp
        then show ?thesis unfolding Cons value_of.simps(2) list.case u using e k by simp
      qed
    qed (simp add: value_of.simps(2))
  next
    assume len: "2 * length s + 2 \<le> Suc m"
    then have vs: "value_of (Suc m) d s = value_of m d s" using v by simp
    show "elements_of (Suc (Suc m)) d s = elements_of (Suc m) d s"
    proof (cases "value_of m d s")
      case (Some p)
      obtain v0 t where p: "p = (v0, t)" by force
      show ?thesis
      proof (cases "skip_space t")
        case (Cons c u)
        have "length t < length s" using parsers_shorter(1) Some p by blast
        then have "2 * length (skip_space u) + 2 \<le> m"
          using len skip_space_shorter [OF Cons] length_dropWhile_le [of is_space u] by linarith
        then show ?thesis
          unfolding elements_of.simps(2) [of "Suc m" d s] elements_of.simps(2) [of m d s] vs Some p option.case prod.case Cons list.case
          using e by simp
      qed (simp del: dropWhile_eq_Nil_conv add: elements_of.simps(2) vs Some p)
    qed (simp add: elements_of.simps(2) vs)
  next
    assume len: "2 * length s + 2 \<le> Suc m"
    show "members_of (Suc (Suc m)) d s = members_of (Suc m) d s"
    proof (cases "\<exists>s' k t u. s = dquote # s' \<and> json_string s' = Some (k, t) \<and> skip_space t = CHR '':'' # u")
      case True
      then obtain s' k0 t u where s: "s = dquote # s'" "json_string s' = Some (k0, t)" "skip_space t = CHR '':'' # u" by blast
      have "length (skip_space u) + 2 \<le> length s"
        using s(1) json_string_shorter [OF s(2)] skip_space_shorter [OF s(3)] length_dropWhile_le [of is_space u] by simp
      then have vu: "value_of (Suc m) d (skip_space u) = value_of m d (skip_space u)" using v len by simp
      show ?thesis
      proof (cases "value_of m d (skip_space u)")
        case None
        then show ?thesis
          unfolding s members_of.simps(2) [of "Suc m" d "dquote # s'"] members_of.simps(2) [of m d "dquote # s'"]
            list.case option.case prod.case vu by simp
      next
        case (Some p)
        obtain v0 x where p: "p = (v0, x)" by force
        have x: "length x < length (skip_space u)" using parsers_shorter(1) Some p by blast
        show ?thesis
        proof (cases "skip_space x")
          case Nil
          show ?thesis
            unfolding s members_of.simps(2) [of "Suc m" d "dquote # s'"] members_of.simps(2) [of m d "dquote # s'"]
              vu Some p Nil list.case option.case prod.case by simp
        next
          case (Cons c y)
          have "2 * length (skip_space y) + 2 \<le> m"
            using len \<open>length (skip_space u) + 2 \<le> length s\<close> x skip_space_shorter [OF Cons] length_dropWhile_le [of is_space y]
            by linarith
          then show ?thesis
            unfolding s members_of.simps(2) [of "Suc m" d "dquote # s'"] members_of.simps(2) [of m d "dquote # s'"]
              vu Some p Cons list.case option.case prod.case using k by simp
        qed
      qed
    next
      case False
      have "members_of n d s = None" for n
        by (cases n) (use False in \<open>auto simp: members_of.simps(2) simp del: dropWhile_eq_Cons_conv split: list.splits option.splits\<close>)
      then show ?thesis by simp
    qed
  qed
qed simp

lemma value_of_enough: "2 * length s + 1 \<le> n \<Longrightarrow> value_of n d s = value_of (2 * length s + 1) d s"
proof (induction n rule: nat_induct_at_least)
  case (Suc n)
  then show ?case using more_fuel [of s n d] by simp
qed simp

subsection \<open>Literals of a parsed value are numbers\<close>

definition no_digit :: "string \<Rightarrow> bool" where
  "no_digit r \<longleftrightarrow> r = [] \<or> \<not> is_digit (hd r)"

lemma digits_again: "no_digit r \<Longrightarrow> digits_of (digits_of s @ r) = digits_of s \<and> dropWhile is_digit (digits_of s @ r) = r"
  by (cases r; induction s) (auto simp: digits_of_def no_digit_def)

lemma int_literal_again: "int_literal s = Some (i, t) \<Longrightarrow> no_digit r \<Longrightarrow> int_literal (i @ r) = Some (i, r)"
  using digits_again [of r s] by (auto simp: int_literal_def digits_of_Cons split: list.splits if_splits)

lemma frac_literal_again:
  assumes "frac_literal s = Some (f, t)" "no_digit r" "r = [] \<or> hd r \<noteq> CHR ''.''"
  shows "frac_literal (f @ r) = Some (f, r) \<and> (f = [] \<or> hd f = CHR ''.'')"
proof (cases "f = []")
  case True
  then show ?thesis using assms by (auto simp: frac_literal_def split: list.splits)
next
  case False
  then obtain u where "f = CHR ''.'' # digits_of u" "digits_of u \<noteq> []"
    using assms(1) by (auto simp: frac_literal_def split: list.splits if_splits)
  then show ?thesis using digits_again [OF assms(2), of u] by (simp add: frac_literal_def)
qed

lemma exp_literal_again:
  assumes "exp_literal s = Some (e, t)"
  shows "exp_literal e = Some (e, []) \<and> (e = [] \<or> hd e = CHR ''e'' \<or> hd e = CHR ''E'')"
proof (cases "e = []")
  case False
  then obtain c t' where s: "s = c # t'" "c = CHR ''e'' \<or> c = CHR ''E''"
    using assms by (auto simp: exp_literal_def split: list.splits if_splits)
  obtain sign u where u: "(case t' of [] \<Rightarrow> ([], t')
      | d # t'' \<Rightarrow> if d = CHR ''+'' \<or> d = CHR ''-'' then ([d], t'') else ([], t')) = (sign, u)" by force
  then have sign: "sign = [] \<or> sign = [CHR ''+''] \<or> sign = [CHR ''-'']" by (auto split: list.splits if_splits)
  have e: "e = c # sign @ digits_of u" "digits_of u \<noteq> []"
    using assms s u by (simp_all add: exp_literal_def split: if_splits)
  note e = e s(2) sign
  then obtain d ds where d: "digits_of u = d # ds" by (cases "digits_of u") auto
  then have "is_digit d" by (metis digits_of_def list.set_intros(1) set_takeWhileD)
  then have "d \<noteq> CHR ''+''" "d \<noteq> CHR ''-''" by (auto simp: is_digit_def)
  then show ?thesis using e d digits_again [of "[]" u] by (auto simp: exp_literal_def no_digit_def)
qed (simp add: exp_literal_def)

lemma int_literal_head: "int_literal s = Some (i, t) \<Longrightarrow> i \<noteq> [] \<and> is_digit (hd i)"
proof -
  assume i: "int_literal s = Some (i, t)"
  then obtain c u where s: "s = c # u" by (cases s) (simp_all add: int_literal_def)
  have "is_digit CHR ''0''" by (simp add: is_digit_def)
  then show ?thesis using i by (auto simp: s int_literal_def digits_of_Cons split: if_splits)
qed

lemma number_literal_number: "number_literal s = Some (l, t) \<Longrightarrow> is_number l"
proof -
  assume n: "number_literal s = Some (l, t)"
  obtain neg s0 where 0: "(case s of [] \<Rightarrow> ([], s) | c # t \<Rightarrow> if c = CHR ''-'' then ([c], t) else ([], s)) = (neg, s0)"
    by force
  obtain i s1 f s2 e where p: "int_literal s0 = Some (i, s1)" "frac_literal s1 = Some (f, s2)"
      "exp_literal s2 = Some (e, t)" "l = neg @ i @ f @ e" using n by (auto simp: number_literal_def 0 split: option.splits)
  have e: "exp_literal e = Some (e, [])" "no_digit e" "e = [] \<or> hd e \<noteq> CHR ''.''"
    using exp_literal_again [OF p(3)] by (auto simp: no_digit_def is_digit_def)
  have f: "frac_literal (f @ e) = Some (f, e)" "f = [] \<or> hd f = CHR ''.''"
    using frac_literal_again [OF p(2) e(2,3)] by simp_all
  have fe: "no_digit (f @ e)" 
  proof (cases "f = []")
    case False
    then have "hd (f @ e) = CHR ''.''" using f(2) by simp
    then show ?thesis by (simp add: no_digit_def is_digit_def)
  qed (use e(2) in simp)
  have i: "int_literal (i @ f @ e) = Some (i, f @ e)" using int_literal_again [OF p(1) fe] .
  obtain c v where c: "i = c # v" "is_digit c"
    using int_literal_head [OF p(1)] by (cases i) auto
  have "c \<noteq> CHR ''-''" using c(2) by (auto simp: is_digit_def)
  moreover have "neg = [] \<or> neg = [CHR ''-'']" using 0 by (auto split: list.splits if_splits)
  ultimately have "(case l of [] \<Rightarrow> ([], l) | c # t \<Rightarrow> if c = CHR ''-'' then ([c], t) else ([], l)) = (neg, i @ f @ e)"
    by (elim disjE) (simp_all add: p(4) c(1))
  then show ?thesis unfolding is_number_def number_literal_def by (simp add: i f(1) e(1) p(4) [symmetric])
qed

section \<open>Writing values\<close>

fun commas :: "string list \<Rightarrow> string" where
  "commas [] = []"
| "commas [s] = s"
| "commas (s # t # ss) = s @ CHR '','' # commas (t # ss)"

function print_json :: "json \<Rightarrow> string" where
  "print_json JNull = ''null''"
| "print_json (JBool b) = (if b then ''true'' else ''false'')"
| "print_json (JNum l) = l"
| "print_json (JStr s) = json_quote s"
| "print_json (JArr vs) = CHR ''['' # commas (map print_json vs) @ '']''"
| "print_json (JObj kvs) =
     CHR ''{'' # commas (map (\<lambda>kv. json_quote (fst kv) @ CHR '':'' # print_json (snd kv)) kvs) @ ''}''"
  by pat_completeness auto

lemma size_member: "kv \<in> set kvs \<Longrightarrow> size (snd kv) < Suc (size_list (size_prod (\<lambda>x. 0) size) kvs)"
  by (induction kvs) auto

lemma size_element: "v \<in> set vs \<Longrightarrow> size v < Suc (size_list size vs)" for v :: json
  by (induction vs) auto

termination print_json
  by (relation "measure size") (auto dest: size_member size_element)

text \<open>What is read back, what can be written, and how deep a value is nested.\<close>

function clean :: "json \<Rightarrow> json" where
  "clean JNull = JNull"
| "clean (JBool b) = JBool b"
| "clean (JNum l) = JNum l"
| "clean (JStr s) = JStr (to_valid_utf8 s)"
| "clean (JArr vs) = JArr (map clean vs)"
| "clean (JObj kvs) = JObj (map (\<lambda>kv. (to_valid_utf8 (fst kv), clean (snd kv))) kvs)"
  by pat_completeness auto
termination by (relation "measure size") (auto dest: size_member size_element)

function json_ok :: "json \<Rightarrow> bool" where
  "json_ok JNull = True"
| "json_ok (JBool b) = True"
| "json_ok (JNum l) = is_number l"
| "json_ok (JStr s) = True"
| "json_ok (JArr vs) = (\<forall>v\<in>set vs. json_ok v)"
| "json_ok (JObj kvs) = (\<forall>kv\<in>set kvs. json_ok (snd kv))"
  by pat_completeness auto
termination by (relation "measure size") (auto dest: size_member size_element)

function depth :: "json \<Rightarrow> nat" where
  "depth JNull = 0"
| "depth (JBool b) = 0"
| "depth (JNum l) = 0"
| "depth (JStr s) = 0"
| "depth (JArr vs) = Suc (fold max (map depth vs) 0)"
| "depth (JObj kvs) = Suc (fold max (map (\<lambda>kv. depth (snd kv)) kvs) 0)"
  by pat_completeness auto
termination by (relation "measure size") (auto dest: size_member size_element)

lemma fold_max_init: "a \<le> fold max xs a" for a :: nat
  by (induction xs arbitrary: a) (auto intro: max.cobounded2 [THEN order.trans])

lemma fold_max_ge: "x \<in> set xs \<Longrightarrow> x \<le> fold max xs a" for a :: nat
  by (induction xs arbitrary: a) (auto intro: max.cobounded1 [THEN order.trans] fold_max_init)

lemma commas_Cons: "commas (s # ss) = s @ (if ss = [] then [] else CHR '','' # commas ss)"
  by (cases ss) auto

lemma number_first:
  assumes "number_literal s = Some (l, t)"
  shows "\<exists>c u. s = c # u \<and> (c = CHR ''-'' \<or> is_digit c)"
proof -
  obtain neg s0 where 0: "(case s of [] \<Rightarrow> ([], s) | c # t \<Rightarrow> if c = CHR ''-'' then ([c], t) else ([], s)) = (neg, s0)"
    by force
  obtain i s1 where "int_literal s0 = Some (i, s1)" using assms by (auto simp: number_literal_def 0 split: option.splits)
  then show ?thesis using 0 by (auto simp: int_literal_def is_digit_def split: list.splits if_splits)
qed

lemma literal_number:
  assumes "is_number l" "ends_number r"
  shows "literal (l @ r) = Some (JNum l, r)"
proof -
  have n: "number_literal (l @ r) = Some (l, r)"
    using number_literal_append [OF assms(2)] assms(1) by (auto simp: is_number_def)
  obtain c u where "l @ r = c # u" "c = CHR ''-'' \<or> is_digit c" using number_first [OF n] by auto
  then have "take 4 (l @ r) \<noteq> ''null''" "take 4 (l @ r) \<noteq> ''true''" "take 5 (l @ r) \<noteq> ''false''"
    by (auto simp: is_digit_def)
  then show ?thesis using n by (simp add: literal_def)
qed

lemma print_first:
  "json_ok v \<Longrightarrow> \<exists>c t. print_json v = c # t \<and> \<not> is_space c \<and> c \<noteq> CHR '']'' \<and> c \<noteq> CHR ''}'' \<and> c \<noteq> CHR '',''"
proof (cases v)
  case (JNum l)
  assume "json_ok v"
  with JNum obtain c u where "l = c # u" "c = CHR ''-'' \<or> is_digit c" using number_first [of l l "[]"] by (auto simp: is_number_def)
  then show ?thesis using JNum by (auto simp: is_space_def is_digit_def)
qed (auto simp: is_space_def json_quote_def)

lemma skip_print: "json_ok v \<Longrightarrow> skip_space (print_json v @ r) = print_json v @ r"
  using print_first [of v] by auto

lemma ends_number_sep: "ends_number (CHR '','' # r)" "ends_number (CHR '']'' # r)" "ends_number (CHR ''}'' # r)"
    "ends_number []" "is_space c \<Longrightarrow> ends_number (c # r)"
  by (auto simp: ends_number_def is_digit_def is_space_def)

lemma sep_not_space: "\<not> is_space CHR '',''" "\<not> is_space CHR '']''" "\<not> is_space CHR ''}''" "\<not> is_space CHR '':''"
    "\<not> is_space dquote"
  by (auto simp: is_space_def)

definition reads_back :: "json \<Rightarrow> bool" where
  "reads_back v \<longleftrightarrow>
     (\<forall>n d r. json_ok v \<longrightarrow> d + int (depth v) \<le> max_depth \<longrightarrow> length (print_json v) \<le> n \<longrightarrow> ends_number r \<longrightarrow>
        value_of n d (print_json v @ r) = Some (clean v, r))"

lemma reads_backD:
  "reads_back v \<Longrightarrow> json_ok v \<Longrightarrow> d + int (depth v) \<le> max_depth \<Longrightarrow> length (print_json v) \<le> n \<Longrightarrow> ends_number r \<Longrightarrow>
   value_of n d (print_json v @ r) = Some (clean v, r)"
  by (simp add: reads_back_def)

lemma elements_read_back:
  "vs \<noteq> [] \<Longrightarrow> \<forall>v\<in>set vs. reads_back v \<and> json_ok v \<and> d + int (depth v) \<le> max_depth \<Longrightarrow>
   length (commas (map print_json vs)) < n \<Longrightarrow>
   elements_of n d (commas (map print_json vs) @ CHR '']'' # r) = Some (map clean vs, r)"
proof (induction vs arbitrary: n)
  case (Cons v vs)
  then obtain m where n: "n = Suc m" "length (commas (map print_json (v # vs))) \<le> m" by (cases n) auto
  show ?case
  proof (cases "vs = []")
    case True
    then show ?thesis using Cons.prems n
      by (simp add: elements_of.simps(2) reads_backD ends_number_sep sep_not_space)
  next
    case False
    then obtain w ws where w: "vs = w # ws" by (cases vs) auto
    have fit: "length (commas (map print_json vs)) < m" "length (print_json v) \<le> m" using n(2) False by (auto simp: commas_Cons)
    have skip: "skip_space (commas (map print_json vs) @ CHR '']'' # r) = commas (map print_json vs) @ CHR '']'' # r"
      using Cons.prems(2) w by (auto simp: commas_Cons skip_print)
    show ?thesis using Cons.prems(2) fit Cons.IH [OF False _ fit(1)]
      unfolding n(1) by (simp add: False commas_Cons elements_of.simps(2) reads_backD ends_number_sep sep_not_space skip)
  qed
qed simp

lemma members_read_back:
  "kvs \<noteq> [] \<Longrightarrow> \<forall>kv\<in>set kvs. reads_back (snd kv) \<and> json_ok (snd kv) \<and> d + int (depth (snd kv)) \<le> max_depth \<Longrightarrow>
   length (commas (map (\<lambda>kv. json_quote (fst kv) @ CHR '':'' # print_json (snd kv)) kvs)) < n \<Longrightarrow>
   members_of n d (commas (map (\<lambda>kv. json_quote (fst kv) @ CHR '':'' # print_json (snd kv)) kvs) @ CHR ''}'' # r) =
   Some (map (\<lambda>kv. (to_valid_utf8 (fst kv), clean (snd kv))) kvs, r)"
proof (induction kvs arbitrary: n)
  case (Cons kv kvs)
  let ?p = "\<lambda>kvs. commas (map (\<lambda>kv. json_quote (fst kv) @ CHR '':'' # print_json (snd kv)) kvs)"
  obtain m where n: "n = Suc m" "length (?p (kv # kvs)) \<le> m" using Cons.prems(3) by (cases n) auto
  have v: "reads_back (snd kv)" "json_ok (snd kv)" "d + int (depth (snd kv)) \<le> max_depth" using Cons.prems(2) by auto
  have len: "length (print_json (snd kv)) \<le> m" using n(2) by (auto simp: commas_Cons)
  note again = reads_backD [OF v len]
  show ?case
  proof (cases "kvs = []")
    case True
    then show ?thesis using Cons.prems n(1) v(2)
      by (simp add: members_of.simps(2) json_quote_def json_string_quote skip_print again ends_number_sep sep_not_space)
  next
    case False
    then obtain w ws where w: "kvs = w # ws" by (cases kvs) auto
    have fit: "length (?p kvs) < m" using n(2) False by (auto simp: commas_Cons json_quote_def)
    have skip: "skip_space (?p kvs @ CHR ''}'' # r) = ?p kvs @ CHR ''}'' # r"
      using w by (auto simp: commas_Cons json_quote_def sep_not_space)
    have one: "members_of (Suc m) d (json_quote (fst kv) @ CHR '':'' # print_json (snd kv) @ CHR '','' # P) =
        Some ((to_valid_utf8 (fst kv), clean (snd kv)) # X, r)"
      if "skip_space P = P" "members_of m d P = Some (X, r)" for P X
      using that v(2)
      by (simp add: members_of.simps(2) json_quote_def json_string_quote skip_print again ends_number_sep sep_not_space)
    show ?thesis using one [OF skip Cons.IH [OF False _ fit]] Cons.prems(2) unfolding n(1)
      by (simp add: False commas_Cons)
  qed
qed simp

text \<open>A value that is written is read back, whatever follows it.\<close>

lemma print_read_back: "reads_back v"
proof (induction v)
  case (JArr vs)
  show ?case unfolding reads_back_def
  proof (intro allI impI)
    fix n d r
    assume ok: "json_ok (JArr vs)" and d: "d + int (depth (JArr vs)) \<le> max_depth"
      and n: "length (print_json (JArr vs)) \<le> n"
    obtain m where m: "n = Suc m" using n by (cases n) auto
    show "value_of n d (print_json (JArr vs) @ r) = Some (clean (JArr vs), r)"
    proof (cases "vs = []")
      case True
      then show ?thesis using d by (simp add: m value_of.simps(2) sep_not_space max_depth_def)
    next
      case False
      then obtain w ws where w: "vs = w # ws" by (cases vs) auto
      have "d + 1 + int (depth v) \<le> max_depth" if "v \<in> set vs" for v
        using d fold_max_ge [of "depth v" "map depth vs" 0] that by simp
      then have es: "elements_of m (d + 1) (commas (map print_json vs) @ CHR '']'' # r) = Some (map clean vs, r)"
        using JArr ok n m by (intro elements_read_back False) auto
      obtain c t where c: "commas (map print_json vs) @ CHR '']'' # r = c # t" "\<not> is_space c" "c \<noteq> CHR '']''"
        using print_first [of w] ok w by (auto simp: commas_Cons)
      show ?thesis using d es unfolding m by (simp add: value_of.simps(2) c)
    qed
  qed
next
  case (JObj kvs)
  show ?case unfolding reads_back_def
  proof (intro allI impI)
    fix n d r
    let ?p = "commas (map (\<lambda>kv. json_quote (fst kv) @ CHR '':'' # print_json (snd kv)) kvs)"
    assume ok: "json_ok (JObj kvs)" and d: "d + int (depth (JObj kvs)) \<le> max_depth"
      and n: "length (print_json (JObj kvs)) \<le> n"
    obtain m where m: "n = Suc m" using n by (cases n) auto
    show "value_of n d (print_json (JObj kvs) @ r) = Some (clean (JObj kvs), r)"
    proof (cases "kvs = []")
      case True
      then show ?thesis using d by (simp add: m value_of.simps(2) sep_not_space max_depth_def)
    next
      case False
      then obtain w ws where w: "kvs = w # ws" by (cases kvs) auto
      have dep: "d + 1 + int (depth (snd kv)) \<le> max_depth" if "kv \<in> set kvs" for kv
        using d fold_max_ge [of "depth (snd kv)" "map (\<lambda>kv. depth (snd kv)) kvs" 0] that by simp
      have IH: "reads_back (snd kv)" if "kv \<in> set kvs" for kv
        using JObj [of kv "snd kv"] that by (cases kv) auto
      have ms: "members_of m (d + 1) (?p @ CHR ''}'' # r) = Some (map (\<lambda>kv. (to_valid_utf8 (fst kv), clean (snd kv))) kvs, r)"
        using IH dep ok n m by (intro members_read_back False) auto
      obtain c t where c: "?p @ CHR ''}'' # r = c # t" "\<not> is_space c" "c \<noteq> CHR ''}''"
        using w sep_not_space by (auto simp: commas_Cons json_quote_def)
      show ?thesis using d ms unfolding m by (simp add: value_of.simps(2) c)
    qed
  qed
next
  case (JNum l)
  show ?case unfolding reads_back_def
  proof (intro allI impI)
    fix n d r
    assume ok: "json_ok (JNum l)" and n: "length (print_json (JNum l)) \<le> n" and r: "ends_number r"
    obtain c t where c: "l = c # t" "c = CHR ''-'' \<or> is_digit c" using number_first [of l l "[]"] ok by (auto simp: is_number_def)
    then obtain m where m: "n = Suc m" using n by (cases n) auto
    have "value_of n d (l @ r) = literal (l @ r)" using c by (auto simp: m value_of.simps(2) is_digit_def)
    then show "value_of n d (print_json (JNum l) @ r) = Some (clean (JNum l), r)"
      using literal_number [of l r] ok r by simp
  qed
next
  case (JStr s)
  show ?case unfolding reads_back_def
  proof (intro allI impI)
    fix n d r
    assume n: "length (print_json (JStr s)) \<le> n"
    then obtain m where m: "n = Suc m" by (cases n) (auto simp: json_quote_def)
    show "value_of n d (print_json (JStr s) @ r) = Some (clean (JStr s), r)"
      by (simp add: m value_of.simps(2) json_quote_def json_string_quote)
  qed
qed (auto simp: reads_back_def literal_def value_of.simps(2) split: nat.splits elim: Suc_le_D [THEN exE])

lemma literal_ok: "literal s = Some (v, t) \<Longrightarrow> json_ok v"
  by (auto simp: literal_def split: if_splits dest: number_literal_number)

lemma parsed_ok:
  "(value_of n d s = Some (v, t) \<longrightarrow> json_ok v) \<and>
   (elements_of n d s = Some (vs, t) \<longrightarrow> (\<forall>v\<in>set vs. json_ok v)) \<and>
   (members_of n d s = Some (kvs, t) \<longrightarrow> (\<forall>kv\<in>set kvs. json_ok (snd kv)))"
proof (induction n arbitrary: d s v vs kvs t)
  case (Suc m)
  have v: "json_ok v" if "value_of m d s = Some (v, t)" for d s v t using Suc.IH that by blast
  have es: "\<forall>v\<in>set vs. json_ok v" if "elements_of m d s = Some (vs, t)" for d s vs t using Suc.IH that by blast
  have ms: "json_ok b" if "members_of m d s = Some (kvs, t)" "(a, b) \<in> set kvs" for d s kvs t a b
    using Suc.IH that by fastforce
  show ?case
  proof (intro conjI impI)
    assume "value_of (Suc m) d s = Some (v, t)"
    then show "json_ok v" using es ms
      by (auto simp: value_of.simps(2) simp del: dropWhile_eq_Cons_conv split: list.splits if_splits dest!: literal_ok)
  next
    assume "elements_of (Suc m) d s = Some (vs, t)"
    then show "\<forall>v\<in>set vs. json_ok v" using v es
      by (auto simp: elements_of.simps(2) simp del: dropWhile_eq_Cons_conv split: option.splits list.splits if_splits)
  next
    assume "members_of (Suc m) d s = Some (kvs, t)"
    then show "\<forall>kv\<in>set kvs. json_ok (snd kv)" using v ms
      by (auto simp: members_of.simps(2) simp del: dropWhile_eq_Cons_conv split: option.splits list.splits if_splits)
  qed
qed simp

lemma parse_all_ok: "parse_all s = Some v \<Longrightarrow> json_ok v"
  using parsed_ok by (auto simp: parse_all_def json_value_def split: option.splits if_splits)

definition writable :: "json \<Rightarrow> bool" where
  "writable v \<longleftrightarrow> json_ok v \<and> int (depth v) \<le> max_depth"

lemma json_value_print:
  "writable v \<Longrightarrow> ends_number r \<Longrightarrow> json_value (print_json v @ r) = Some (clean v, r)"
  using reads_backD [OF print_read_back, of v 0 "2 * length (print_json v @ r) + 1" r]
  by (simp add: writable_def json_value_def)

lemma parse_all_print: "writable v \<Longrightarrow> parse_all (print_json v) = Some (clean v)"
  using json_value_print [of v "[]"] skip_print [of v "[]"]
  by (simp add: parse_all_def writable_def ends_number_sep)

lemma parse_all_print_line:
  "writable v \<Longrightarrow> parse_all (print_json v @ [newline]) = Some (clean v)"
  using json_value_print [of v "[newline]"] skip_print [of v "[newline]"]
  by (simp add: parse_all_def writable_def ends_number_sep is_space_def)

lemma parse_first_print: "writable v \<Longrightarrow> ends_number r \<Longrightarrow> self_delimiting v \<Longrightarrow> parse_first (print_json v @ r) = Some (clean v)"
  using json_value_print [of v r] skip_print [of v r]
  by (cases v) (simp_all add: parse_first_def writable_def)

section \<open>Fields of a struct\<close>

text \<open>
  A key selects the field with its name, or else the field whose name agrees with it up to simple case
  folding; besides the letters, the long s and the Kelvin sign fold to ASCII.
\<close>

definition upper :: "char \<Rightarrow> char" where
  "upper c = (if 97 \<le> (of_char c :: nat) \<and> (of_char c :: nat) \<le> 122 then char_of (of_char c - 32 :: nat) else c)"

function fold_name :: "string \<Rightarrow> string" where
  "fold_name [] = []"
| "fold_name (c # s) =
     (if take 2 (c # s) = [CHR 0xC5, CHR 0xBF] then CHR ''S'' # fold_name (drop 1 s)
      else if take 3 (c # s) = [CHR 0xE2, CHR 0x84, CHR 0xAA] then CHR ''K'' # fold_name (drop 2 s)
      else upper c # fold_name s)"
  by pat_completeness auto
termination by (relation "measure length") auto

definition field_match :: "string list \<Rightarrow> string \<Rightarrow> string option" where
  "field_match names key =
     (if key \<in> set names then Some key else List.find (\<lambda>f. fold_name f = fold_name key) names)"

text \<open>
  Decoding goes through the members in their order; a member that does not match is ignored, and one
  of the wrong type makes the result an error. \<open>set_field f v x\<close> stores a value into field \<open>f\<close>.
\<close>

fun decode_members :: "string list \<Rightarrow> (string \<Rightarrow> json \<Rightarrow> 'r \<Rightarrow> 'r option) \<Rightarrow> (string \<times> json) list \<Rightarrow> 'r \<Rightarrow> 'r option" where
  "decode_members names set_field [] x = Some x"
| "decode_members names set_field ((k, v) # kvs) x =
     (case field_match names k of
        None \<Rightarrow> decode_members names set_field kvs x
      | Some f \<Rightarrow>
          (case set_field f v x of
             None \<Rightarrow> None
           | Some y \<Rightarrow> decode_members names set_field kvs y))"

text \<open>A struct takes an object; \<open>null\<close> leaves it as it is.\<close>

definition decode_struct :: "string list \<Rightarrow> (string \<Rightarrow> json \<Rightarrow> 'r \<Rightarrow> 'r option) \<Rightarrow> 'r \<Rightarrow> json \<Rightarrow> 'r option" where
  "decode_struct names set_field x v =
     (case v of
        JObj kvs \<Rightarrow> decode_members names set_field kvs x
      | JNull \<Rightarrow> Some x
      | _ \<Rightarrow> None)"

lemma field_match_name: "f \<in> set names \<Longrightarrow> field_match names f = Some f"
  by (simp add: field_match_def)

lemma decode_members_append:
  "decode_members names sf (kvs @ ls) x =
   (case decode_members names sf kvs x of None \<Rightarrow> None | Some y \<Rightarrow> decode_members names sf ls y)"
  by (induction names sf kvs x rule: decode_members.induct) (auto split: option.splits)

text \<open>Integers are written in decimal and are numbers of the grammar.\<close>

lemma digits_all: "\<forall>c\<in>set s. is_digit c \<Longrightarrow> digits_of s = s \<and> dropWhile is_digit s = []"
  by (simp add: digits_of_def takeWhile_eq_all_conv)

lemma show_nat_head: "\<exists>c t. show_nat n = c # t \<and> is_digit c \<and> (c = CHR ''0'' \<longrightarrow> t = [])"
proof (induction n rule: show_nat.induct)
  case (1 n)
  show ?case
  proof (cases "n < 10")
    case True
    then show ?thesis by (subst show_nat.simps) (simp add: is_digit_digit)
  next
    case False
    then obtain c t where "show_nat (n div 10) = c # t" "is_digit c" "c = CHR ''0'' \<longrightarrow> t = []" using 1 by blast
    moreover have "c \<noteq> CHR ''0''"
    proof
      assume "c = CHR ''0''"
      then have "show_nat (n div 10) = [CHR ''0'']" using calculation by simp
      then have "Some (0 * 10 ^ 1 + n div 10) = parse_digits 0 [CHR ''0'']" using parse_show_nat [of 0 "n div 10"] by simp
      then have "n div 10 = 0" by (simp add: is_digit_def)
      then show False using False by simp
    qed
    ultimately show ?thesis using False by (subst show_nat.simps) simp
  qed
qed

lemma is_number_nat: "is_number (show_nat n)" "is_number (CHR ''-'' # show_nat n)"
proof -
  have all: "\<forall>c\<in>set (show_nat n). is_digit c" using show_nat_digits by blast
  obtain c t where c: "show_nat n = c # t" "is_digit c" "c = CHR ''0'' \<longrightarrow> t = []" using show_nat_head by blast
  have "int_literal (show_nat n) = Some (show_nat n, [])"
    using c digits_all [OF all] by (auto simp: int_literal_def)
  then show "is_number (show_nat n)" "is_number (CHR ''-'' # show_nat n)"
    using c by (auto simp: is_number_def number_literal_def frac_literal_def exp_literal_def is_digit_def)
qed

lemma is_number_int: "is_number (show_int i)"
  by (simp add: show_int_def is_number_nat)

text \<open>\<open>strconv.ParseUint(s, 10, 64)\<close> with the bound of the field, as it is used for a \<open>uint32\<close>.\<close>

definition uint32_literal :: "string \<Rightarrow> uint32 option" where
  "uint32_literal l =
     (case parse_nat l of None \<Rightarrow> None | Some n \<Rightarrow> if n < 2 ^ 32 then Some (of_nat n) else None)"

lemma uint32_literal_show: "uint32_literal (show_nat (unat w)) = Some w"
  using unsigned_less [where ?'a = nat, of w]
  by (simp add: uint32_literal_def parse_nat_def show_nat_ne parse_show_nat)

end
