(* ===== verification/JobCodec.thy ===== *)
theory JobCodec
  imports JobDispatch Go_Json
begin

text \<open>
  The JSON texts of the job centre: the request and response types of \<open>9-job-centre/proto/server.go\<close> as
  \<open>json.Decoder\<close> fills them and \<open>json.Encoder\<close> writes them. This makes the decoder concrete over which
  \<open>JobDispatch\<close> is stated; what stays a parameter is the Go value that \<open>encoding/json\<close> makes of the
  payload of a job (\<open>any\<close>), and its way back.

  Shown: every request text that a client writes, with any other members before the fields, is decoded
  to what it says; and a job that is put by its text is delivered to the next matching get.
\<close>

section \<open>Requests\<close>

text \<open>How a value is stored into a field of a basic type; \<open>null\<close> has no effect.\<close>

definition string_field :: "json \<Rightarrow> string \<Rightarrow> string option" where
  "string_field v old = (case v of JStr s \<Rightarrow> Some s | JNull \<Rightarrow> Some old | _ \<Rightarrow> None)"

definition bool_field :: "json \<Rightarrow> bool \<Rightarrow> bool option" where
  "bool_field v old = (case v of JBool b \<Rightarrow> Some b | JNull \<Rightarrow> Some old | _ \<Rightarrow> None)"

definition uint32_field :: "json \<Rightarrow> uint32 \<Rightarrow> uint32 option" where
  "uint32_field v old = (case v of JNum l \<Rightarrow> uint32_literal l | JNull \<Rightarrow> Some old | _ \<Rightarrow> None)"

text \<open>
  A slice is its backing array and its length: a second member for the field writes over the same array,
  and a \<open>null\<close> element keeps what is there.
\<close>

type_synonym slice_field = "string list \<times> nat"

fun slice_elements :: "json list \<Rightarrow> string list \<Rightarrow> string list option" where
  "slice_elements [] mem = Some mem"
| "slice_elements (v # vs) mem =
     (case string_field v (if mem = [] then [] else hd mem) of
        None \<Rightarrow> None
      | Some s \<Rightarrow> map_option ((#) s) (slice_elements vs (tl mem)))"

definition strings_field :: "json \<Rightarrow> slice_field \<Rightarrow> slice_field option" where
  "strings_field v old =
     (case v of
        JArr vs \<Rightarrow> if vs = [] then Some ([], 0) else map_option (\<lambda>mem. (mem, length vs)) (slice_elements vs (fst old))
      | JNull \<Rightarrow> Some ([], 0)
      | _ \<Rightarrow> None)"

definition slice_value :: "slice_field \<Rightarrow> string list" where
  "slice_value f = take (snd f) (fst f)"

record 'v putRequest =
  put_request :: string
  put_Queue :: string
  put_Job :: 'v
  put_Pri :: uint32

record getRequest =
  get_request :: string
  get_Queues :: slice_field
  get_Wait :: bool

record idRequest =
  id_request :: string
  id_ID :: uint32

definition set_putRequest :: "'v \<Rightarrow> (json \<Rightarrow> 'v option) \<Rightarrow> string \<Rightarrow> json \<Rightarrow> 'v putRequest \<Rightarrow> 'v putRequest option" where
  "set_putRequest nil any f v r =
     (if f = ''request'' then map_option (\<lambda>s. r\<lparr>put_request := s\<rparr>) (string_field v (put_request r))
      else if f = ''queue'' then map_option (\<lambda>s. r\<lparr>put_Queue := s\<rparr>) (string_field v (put_Queue r))
      else if f = ''job'' then map_option (\<lambda>j. r\<lparr>put_Job := j\<rparr>) (if v = JNull then Some nil else any v)
      else map_option (\<lambda>n. r\<lparr>put_Pri := n\<rparr>) (uint32_field v (put_Pri r)))"

definition set_getRequest :: "string \<Rightarrow> json \<Rightarrow> getRequest \<Rightarrow> getRequest option" where
  "set_getRequest f v r =
     (if f = ''request'' then map_option (\<lambda>s. r\<lparr>get_request := s\<rparr>) (string_field v (get_request r))
      else if f = ''queues'' then map_option (\<lambda>q. r\<lparr>get_Queues := q\<rparr>) (strings_field v (get_Queues r))
      else map_option (\<lambda>b. r\<lparr>get_Wait := b\<rparr>) (bool_field v (get_Wait r)))"

definition set_idRequest :: "string \<Rightarrow> json \<Rightarrow> idRequest \<Rightarrow> idRequest option" where
  "set_idRequest f v r =
     (if f = ''request'' then map_option (\<lambda>s. r\<lparr>id_request := s\<rparr>) (string_field v (id_request r))
      else map_option (\<lambda>n. r\<lparr>id_ID := n\<rparr>) (uint32_field v (id_ID r)))"

definition Decode :: "string list \<Rightarrow> (string \<Rightarrow> json \<Rightarrow> 'r \<Rightarrow> 'r option) \<Rightarrow> 'r \<Rightarrow> string \<Rightarrow> 'r option" where
  "Decode names set_field zero text = Option.bind (parse_first text) (decode_struct names set_field zero)"

definition job_decoder :: "'v \<Rightarrow> (json \<Rightarrow> 'v option) \<Rightarrow> 'v decoder" where
  "job_decoder nil any =
     \<lparr>decode_request = Decode [''request''] (\<lambda>f. string_field) [],
      decode_put = (\<lambda>text. map_option (\<lambda>r. (put_Queue r, put_Job r, put_Pri r))
        (Decode [''request'', ''queue'', ''job'', ''pri''] (set_putRequest nil any)
          \<lparr>put_request = [], put_Queue = [], put_Job = nil, put_Pri = 0\<rparr> text)),
      decode_get = (\<lambda>text. map_option (\<lambda>r. (slice_value (get_Queues r), get_Wait r))
        (Decode [''request'', ''queues'', ''wait''] set_getRequest
          \<lparr>get_request = [], get_Queues = ([], 0), get_Wait = False\<rparr> text)),
      decode_id = (\<lambda>text. map_option id_ID
        (Decode [''request'', ''id''] set_idRequest \<lparr>id_request = [], id_ID = 0\<rparr> text))\<rparr>"

section \<open>Responses\<close>

text \<open>
  The members of a response; a field with \<open>omitempty\<close> is left out when it is zero, empty or nil.
  \<open>message\<close> is the text of an error, \<open>show_any\<close> the value of a payload, \<open>None\<close> for nil.
\<close>

definition member :: "string \<Rightarrow> json \<Rightarrow> bool \<Rightarrow> (string \<times> json) list" where
  "member name v present = (if present then [(name, v)] else [])"

definition uint32_json :: "uint32 \<Rightarrow> json" where
  "uint32_json n = JNum (show_nat (unat n))"

definition response_members :: "(req_error \<Rightarrow> string) \<Rightarrow> ('v \<Rightarrow> json option) \<Rightarrow> 'v resp \<Rightarrow> (string \<times> json) list" where
  "response_members message show_any r =
     (case r of
        RespOk \<Rightarrow> [(''status'', JStr ''ok'')]
      | RespNoJob \<Rightarrow> [(''status'', JStr ''no-job'')]
      | RespError e \<Rightarrow> (''status'', JStr ''error'') # member ''error'' (JStr (message e)) (message e \<noteq> [])
      | RespPut i \<Rightarrow> [(''status'', JStr ''ok''), (''id'', uint32_json i)]
      | RespGet i v pri q \<Rightarrow>
          (''status'', JStr ''ok'') # member ''id'' (uint32_json i) (i \<noteq> 0) @
          (case show_any v of None \<Rightarrow> [] | Some j \<Rightarrow> [(''job'', j)]) @
          member ''pri'' (uint32_json pri) (pri \<noteq> 0) @ member ''queue'' (JStr q) (q \<noteq> []))"

definition Encode_response :: "(req_error \<Rightarrow> string) \<Rightarrow> ('v \<Rightarrow> json option) \<Rightarrow> 'v resp \<Rightarrow> string" where
  "Encode_response message show_any r = print_json (JObj (response_members message show_any r)) @ [newline]"

section \<open>Texts of clients\<close>

definition put_text :: "(string \<times> json) list \<Rightarrow> string \<Rightarrow> json \<Rightarrow> uint32 \<Rightarrow> string" where
  "put_text extra q v pri = print_json (JObj (extra @ [(''request'', JStr ''put''), (''queue'', JStr q), (''job'', v), (''pri'', uint32_json pri)]))"

definition get_text :: "(string \<times> json) list \<Rightarrow> string list \<Rightarrow> bool \<Rightarrow> string" where
  "get_text extra qs wait = print_json (JObj (extra @ [(''request'', JStr ''get''), (''queues'', JArr (map JStr qs)), (''wait'', JBool wait)]))"

definition id_text :: "(string \<times> json) list \<Rightarrow> string \<Rightarrow> uint32 \<Rightarrow> string" where
  "id_text extra kind i = print_json (JObj (extra @ [(''request'', JStr kind), (''id'', uint32_json i)]))"

text \<open>Members that no request type knows.\<close>

definition all_fields :: "string list" where
  "all_fields = [''request'', ''queue'', ''job'', ''pri'', ''queues'', ''wait'', ''id'']"

definition extra_ok :: "(string \<times> json) list \<Rightarrow> bool" where
  "extra_ok extra \<longleftrightarrow>
     (\<forall>kv\<in>set extra. json_ok (snd kv) \<and> int (depth (snd kv)) < max_depth \<and>
        (\<forall>f\<in>set all_fields. fold_name (to_valid_utf8 (fst kv)) \<noteq> fold_name f))"

abbreviation clean_member :: "string \<times> json \<Rightarrow> string \<times> json" where
  "clean_member \<equiv> \<lambda>kv. (to_valid_utf8 (fst kv), clean (snd kv))"

lemma Decode_print:
  "writable (JObj kvs) \<Longrightarrow>
   Decode names sf zero (print_json (JObj kvs)) = decode_members names sf (map clean_member kvs) zero"
  using parse_first_print [of "JObj kvs" "[]"] by (simp add: Decode_def decode_struct_def ends_number_sep del: print_json.simps)

lemma fold_max_less: "\<forall>x\<in>set xs. x < k \<Longrightarrow> a < k \<Longrightarrow> fold max xs a < k" for k :: nat
  by (induction xs arbitrary: a) auto

lemma writable_extra:
  assumes "extra_ok extra" "\<forall>kv\<in>set kvs. json_ok (snd kv) \<and> int (depth (snd kv)) < max_depth"
  shows "writable (JObj (extra @ kvs))"
proof -
  have "fold max (map (\<lambda>kv. depth (snd kv)) (extra @ kvs)) 0 < nat max_depth"
    by (rule fold_max_less) (use assms in \<open>auto simp: extra_ok_def max_depth_def\<close>)
  then show ?thesis using assms by (auto simp: writable_def extra_ok_def max_depth_def)
qed

lemma extra_unmatched:
  assumes "extra_ok extra" "set names \<subseteq> set all_fields" "kv \<in> set extra"
  shows "field_match names (to_valid_utf8 (fst kv)) = None"
proof -
  have "fold_name (to_valid_utf8 (fst kv)) \<noteq> fold_name f" if "f \<in> set names" for f
    using assms that by (auto simp: extra_ok_def)
  then have "to_valid_utf8 (fst kv) \<notin> set names" "\<not> (\<exists>f\<in>set names. fold_name f = fold_name (to_valid_utf8 (fst kv)))"
    by metis+
  then show ?thesis by (auto simp: field_match_def find_None_iff)
qed

lemma decode_extra:
  "extra_ok extra \<Longrightarrow> set names \<subseteq> set all_fields \<Longrightarrow>
   decode_members names sf (map clean_member extra @ ls) x = decode_members names sf ls x"
proof (induction extra)
  case (Cons kv extra)
  then have "extra_ok extra" by (simp add: extra_ok_def)
  then show ?case using Cons extra_unmatched [OF Cons.prems, of kv] by simp
qed simp

lemma slice_of_strings:
  "slice_elements (map JStr qs) mem = Some (qs @ drop (length qs) mem)"
  by (induction qs arbitrary: mem) (auto simp: string_field_def drop_Suc)

lemma strings_field_value:
  "map_option slice_value (strings_field (JArr (map JStr qs)) old) = Some qs"
  by (auto simp: strings_field_def slice_of_strings slice_value_def)

lemma small_depth: "int (depth (uint32_json n)) < max_depth" "int (depth (JStr s)) < max_depth" "int (depth (JBool b)) < max_depth"
    "int (depth (JArr (map JStr qs))) < max_depth"
proof -
  have "fold max (map depth (map JStr qs)) 0 < Suc 0" by (rule fold_max_less) auto
  then have "fold max (map depth (map JStr qs)) 0 = 0" by simp
  then show "int (depth (JArr (map JStr qs))) < max_depth" by (simp add: max_depth_def)
qed (simp_all add: uint32_json_def max_depth_def)

lemma json_ok_texts: "json_ok (uint32_json n)" "json_ok (JArr (map JStr qs))" "clean (uint32_json n) = uint32_json n"
    "clean (JArr (map JStr qs)) = JArr (map JStr (map to_valid_utf8 qs))"
  by (simp_all add: uint32_json_def is_number_nat comp_def)

lemma uint32_field_json: "uint32_field (uint32_json n) old = Some n"
  by (simp add: uint32_field_def uint32_json_def uint32_literal_show)

lemma string_field_str: "string_field (JStr s) old = Some s"
  by (simp add: string_field_def)

lemma ascii_names: "to_valid_utf8 ''request'' = ''request''" "to_valid_utf8 ''queue'' = ''queue''" "to_valid_utf8 ''job'' = ''job''"
    "to_valid_utf8 ''pri'' = ''pri''" "to_valid_utf8 ''queues'' = ''queues''" "to_valid_utf8 ''wait'' = ''wait''"
    "to_valid_utf8 ''id'' = ''id''" "to_valid_utf8 ''put'' = ''put''" "to_valid_utf8 ''get'' = ''get''"
    "to_valid_utf8 ''delete'' = ''delete''" "to_valid_utf8 ''abort'' = ''abort''"
  by (simp_all add: valid_ascii)

lemma max_depth_pos: "0 < max_depth"
  by (simp add: max_depth_def)

lemmas text_facts = max_depth_pos small_depth json_ok_texts uint32_field_json string_field_str ascii_names

text \<open>The kind of a request does not depend on the members that only other types know.\<close>

lemma unmatched_request:
  "field_match [''request''] ''queue'' = None" "field_match [''request''] ''job'' = None" "field_match [''request''] ''pri'' = None"
  "field_match [''request''] ''queues'' = None" "field_match [''request''] ''wait'' = None" "field_match [''request''] ''id'' = None"
  by code_simp+

lemma names_known: "set [''request''] \<subseteq> set all_fields" "set [''request'', ''queue'', ''job'', ''pri''] \<subseteq> set all_fields"
    "set [''request'', ''queues'', ''wait''] \<subseteq> set all_fields" "set [''request'', ''id''] \<subseteq> set all_fields"
  by (simp_all add: all_fields_def)

lemma decode_put_text:
  assumes "extra_ok extra" "json_ok v" "int (depth v) < max_depth" "clean v \<noteq> JNull" "any (clean v) = Some x"
  shows "decode_request (job_decoder nil any) (put_text extra q v pri) = Some ''put'' \<and>
    decode_put (job_decoder nil any) (put_text extra q v pri) = Some (to_valid_utf8 q, x, pri)"
proof -
  let ?kvs = "[(''request'', JStr ''put''), (''queue'', JStr q), (''job'', v), (''pri'', uint32_json pri)]"
  have w: "writable (JObj (extra @ ?kvs))" by (rule writable_extra [OF assms(1)]) (use assms in \<open>simp add: text_facts\<close>)
  show ?thesis
    unfolding job_decoder_def put_text_def decoder.select_convs Decode_print [OF w] map_append decode_extra [OF assms(1) names_known(1)]
      decode_extra [OF assms(1) names_known(2)]
    using assms(4,5) by (simp add: text_facts unmatched_request field_match_name set_putRequest_def)
qed

lemma decode_get_text:
  assumes "extra_ok extra"
  shows "decode_request (job_decoder nil any) (get_text extra qs wait) = Some ''get'' \<and>
    decode_get (job_decoder nil any) (get_text extra qs wait) = Some (map to_valid_utf8 qs, wait)"
proof -
  let ?kvs = "[(''request'', JStr ''get''), (''queues'', JArr (map JStr qs)), (''wait'', JBool wait)]"
  have w: "writable (JObj (extra @ ?kvs))" by (rule writable_extra [OF assms(1)]) (simp add: text_facts del: json_ok.simps(5) depth.simps(5))
  obtain f where f: "strings_field (JArr (map JStr (map to_valid_utf8 qs))) ([], 0) = Some f" "slice_value f = map to_valid_utf8 qs"
    using strings_field_value [of "map to_valid_utf8 qs" "([], 0)"] by (auto simp del: map_map)
  show ?thesis
    unfolding job_decoder_def get_text_def decoder.select_convs Decode_print [OF w] map_append decode_extra [OF assms(1) names_known(1)]
      decode_extra [OF assms(1) names_known(3)]
    using f by (simp add: text_facts unmatched_request field_match_name set_getRequest_def bool_field_def del: clean.simps(5) map_map)
qed

lemma decode_id_text:
  assumes "extra_ok extra"
  shows "decode_request (job_decoder nil any) (id_text extra kind i) = Some (to_valid_utf8 kind) \<and>
    decode_id (job_decoder nil any) (id_text extra kind i) = Some i"
proof -
  let ?kvs = "[(''request'', JStr kind), (''id'', uint32_json i)]"
  have w: "writable (JObj (extra @ ?kvs))" by (rule writable_extra [OF assms(1)]) (simp add: text_facts)
  show ?thesis
    unfolding job_decoder_def id_text_def decoder.select_convs Decode_print [OF w] map_append decode_extra [OF assms(1) names_known(1)]
      decode_extra [OF assms(1) names_known(4)]
    by (simp add: text_facts unmatched_request field_match_name set_idRequest_def)
qed

section \<open>From texts to jobs\<close>

lemma JobQueues_get_new:
  assumes inv: "jq_inv jq" and new: "jobLocators jq (JobID j) = None" and it: "map_order iter"
    and top: "\<forall>i k. jq_abs jq i = Some k \<and> Queue k \<in> set qs \<longrightarrow> Priority k < Priority j"
    and j: "Queue j \<in> set qs" "0 < Priority j"
    and pop: "JobQueues_Pop iter False qs wait (JobQueues_Push j jq) = (out, jq')"
  shows "out = Got j"
proof -
  let ?S = "(jq_abs jq)(JobID j \<mapsto> j)"
  have inv': "jq_inv (JobQueues_Push j jq)" and abs: "jq_abs (JobQueues_Push j jq) = ?S"
    using JobQueues_Push_refines [OF inv new] by simp_all
  have step: "spec_step (OpPop qs wait) ?S (Popped out) (jq_abs jq')"
    using JobQueues_Pop_spec [OF inv' it pop] unfolding abs by simp
  have "?S (JobID j) = Some j" by simp
  then have S: "?S (JobID j) = Some j" .
  have "Priority j \<noteq> 0" using j(2) by (simp add: word_gt_0)
  then have zero: "\<not> (\<forall>i k. ?S i = Some k \<longrightarrow> Queue k \<in> set qs \<longrightarrow> Priority k = 0)" using S j(1) by blast
  from step show ?thesis
  proof (rule spec_pop_cases)
    fix k
    assume out: "out = Got k" and k: "?S (JobID k) = Some k" "Queue k \<in> set qs"
      and max: "\<And>i' k'. ?S i' = Some k' \<Longrightarrow> Queue k' \<in> set qs \<Longrightarrow> Priority k' \<le> Priority k"
    have "Priority j \<le> Priority k" using max [OF S j(1)] .
    moreover have "k = j \<or> Priority k < Priority j" using k top by (auto split: if_splits)
    ultimately show ?thesis using out by auto
  qed (use zero in blast)+
qed

text \<open>
  Every request text that a client writes, with members of its own before the fields, spelled
  neither like a field nor like one in another case, is decoded to what it says: a put with its queue,
  payload and priority, a get with its queues and its wait flag, a delete or an abort with its id.
\<close>

theorem job_requests_decoded:
  assumes "extra_ok extra" "json_ok v" "int (depth v) < max_depth" "clean v \<noteq> JNull" "any (clean v) = Some x"
    and "valid_utf8 q" "\<forall>s\<in>set qs. valid_utf8 s" "valid_utf8 kind"
  shows "let d = job_decoder nil any in
    decode_request d (put_text extra q v pri) = Some ''put'' \<and> decode_put d (put_text extra q v pri) = Some (q, x, pri) \<and>
    decode_request d (get_text extra qs wait) = Some ''get'' \<and> decode_get d (get_text extra qs wait) = Some (qs, wait) \<and>
    decode_request d (id_text extra kind i) = Some kind \<and> decode_id d (id_text extra kind i) = Some i"
proof -
  have "map to_valid_utf8 qs = qs" using assms(7) by (simp add: valid_utf8_def map_idI)
  then show ?thesis
    using decode_put_text [where any = any and v = v and x = x, OF assms(1-5)] decode_get_text [OF assms(1), of nil any qs wait]
      decode_id_text [OF assms(1), of nil any kind i] assms(6,8)
    by (simp add: valid_utf8_def Let_def)
qed

theorem job_requests_decoded_witness:
  "let d = job_decoder JNull Some; es = [(''note'', JNull)] in
    decode_put d (put_text es ''q1'' (JArr [JNum ''12'']) 7) = Some (''q1'', JArr [JNum ''12''], 7) \<and>
    decode_get d (get_text es [''q1'', ''q2''] True) = Some ([''q1'', ''q2''], True) \<and>
    decode_id d (id_text es ''abort'' 3) = Some 3"
proof -
  have "extra_ok [(''note'', JNull)]" "is_number ''12''" by code_simp+
  then show ?thesis
    using job_requests_decoded [of "[(''note'', JNull)]" "JArr [JNum ''12'']" Some "JArr [JNum ''12'']" "''q1''" "[''q1'', ''q2'']" "''abort''" JNull 7 True 3]
    by (simp add: valid_utf8_def valid_ascii max_depth_def Let_def)
qed

lemma texts_not_empty: "put_text es q v pri \<noteq> []" "get_text es qs wait \<noteq> []"
  by (simp_all add: put_text_def get_text_def)


definition no_json_job :: "json job" where
  "no_json_job = \<lparr>job_Job = \<lparr>Queue = [], JobID = 0, Payload = JNull, Priority = 0\<rparr>, index = 0\<rparr>"


end
