(* ===== verification/LrcpMessage.thy ===== *)
theory LrcpMessage
  imports Go_Strconv
begin

text \<open>
  The datagrams of the line reversal server, \<open>7-line-reversal/lrcp/message.go\<close>: printing
  (\<open>Marshal\<close>, \<open>packToWriter\<close>), parsing (\<open>UnmarshalMessage\<close>, \<open>unpackFromReader\<close>, \<open>nextSlash\<close>) and the
  size estimate (\<open>MarshalSize\<close>, \<open>util.Digits\<close>). A Go \<open>int32\<close> is an \<open>int\<close> in \<open>[-2^31, 2^31)\<close>.

  Shown: what is printed never exceeds the MTU; connect, ack and close messages are parsed
  back for every number; a data message is parsed back exactly when its payload avoids three
  patterns of slashes and backslashes, which the unescaping loop gets wrong.
\<close>

abbreviation slash :: char where "slash \<equiv> CHR ''/''"
abbreviation backslash :: char where "backslash \<equiv> CHR 0x5C"

definition MTU :: nat where "MTU = 1000 - 1"
definition actionMaxLength :: nat where "actionMaxLength = 9"

datatype Message =
    MessageUnknown
  | MessageConnect (sessionNumber: int)
  | MessageData (sessionNumber: int) (Pos: int) (Data: string)
  | MessageAck (sessionNumber: int) (Length: int)
  | MessageClose (sessionNumber: int)

datatype lrcp_error = ErrMessageTooLarge | ErrMessageInvalid | ErrEOF | ErrSyntax | ErrUnknownAction

section \<open>The number of digits\<close>

text \<open>\<open>util.Digits\<close>; Go's division truncates towards zero.\<close>

function Digits_loop :: "int \<Rightarrow> nat" where
  "Digits_loop v = (if v = 0 then 0 else Suc (Digits_loop (sgn v * (\<bar>v\<bar> div 10))))"
  by auto
termination by (relation "measure (\<lambda>v. nat \<bar>v\<bar>)") (auto simp: abs_mult nat_less_iff sgn_if)

declare Digits_loop.simps [simp del]

definition Digits :: "int \<Rightarrow> nat" where
  "Digits v = (if v = 0 then 1 else Digits_loop v)"

section \<open>Printing\<close>

definition special :: "char \<Rightarrow> bool" where
  "special c \<longleftrightarrow> c = slash \<or> c = backslash"

fun escape :: "string \<Rightarrow> string" where
  "escape [] = []"
| "escape (c # cs) = (if special c then backslash # c # escape cs else c # escape cs)"

datatype field = FInt int | FBytes string

fun packToWriter :: "field list \<Rightarrow> string" where
  "packToWriter [] = []"
| "packToWriter (FInt i # fs) = show_int i @ slash # packToWriter fs"
| "packToWriter (FBytes d # fs) = escape d @ slash # packToWriter fs"

definition MarshalSize_data :: "string \<Rightarrow> nat" where
  "MarshalSize_data d = length d + length (filter special d)"

fun MarshalSize :: "Message \<Rightarrow> nat" where
  "MarshalSize MessageUnknown = 0"
| "MarshalSize (MessageConnect s) = 9 + Digits s + 1"
| "MarshalSize (MessageData s p d) = 9 + Digits s + 1 + Digits p + 1 + MarshalSize_data d + 1"
| "MarshalSize (MessageAck s l) = 9 + Digits s + 1 + Digits l + 1"
| "MarshalSize (MessageClose s) = 9 + Digits s + 1"

fun wire :: "Message \<Rightarrow> string" where
  "wire MessageUnknown = []"
| "wire (MessageConnect s) = ''/connect/'' @ packToWriter [FInt s]"
| "wire (MessageData s p d) = ''/data/'' @ packToWriter [FInt s, FInt p, FBytes d]"
| "wire (MessageAck s l) = ''/ack/'' @ packToWriter [FInt s, FInt l]"
| "wire (MessageClose s) = ''/close/'' @ packToWriter [FInt s]"

definition Marshal :: "Message \<Rightarrow> lrcp_error + string" where
  "Marshal m = (if MarshalSize m > MTU then Inl ErrMessageTooLarge else Inr (wire m))"

section \<open>Parsing\<close>

text \<open>\<open>prev\<close> is the byte before, none at the start of the slice.\<close>

fun next_slash_from :: "char option \<Rightarrow> string \<Rightarrow> nat option" where
  "next_slash_from prev [] = None"
| "next_slash_from prev (c # cs) =
     (if c = slash \<and> prev \<noteq> Some backslash then Some 0
      else map_option Suc (next_slash_from (Some c) cs))"

definition nextSlash :: "string \<Rightarrow> nat option" where
  "nextSlash buf = next_slash_from None buf"

fun unescape_from :: "char option \<Rightarrow> string \<Rightarrow> string" where
  "unescape_from prev [] = []"
| "unescape_from prev (c # cs) =
     (if c = backslash \<and> prev \<noteq> None \<and> prev \<noteq> Some backslash then unescape_from (Some c) cs
      else c # unescape_from (Some c) cs)"

datatype field_type = TInt | TBytes

fun unpack_fields :: "field_type list \<Rightarrow> string \<Rightarrow> lrcp_error + field list" where
  "unpack_fields [] buf = (if buf = [] then Inr [] else Inl ErrMessageInvalid)"
| "unpack_fields (t # ts) buf =
     (case nextSlash buf of
        None \<Rightarrow> Inl ErrMessageInvalid
      | Some i \<Rightarrow>
          (case (case t of
                   TInt \<Rightarrow> map_option FInt (ParseInt32 (take i buf))
                 | TBytes \<Rightarrow> Some (FBytes (unescape_from None (take i buf)))) of
             None \<Rightarrow> Inl ErrSyntax
           | Some f \<Rightarrow>
               (case unpack_fields ts (drop (Suc i) buf) of
                  Inl e \<Rightarrow> Inl e
                | Inr fs \<Rightarrow> Inr (f # fs))))"

text \<open>The reader is over one datagram; a single \<open>Read\<close> gives all that is left of it, up to the MTU.\<close>

definition unpackFromReader :: "field_type list \<Rightarrow> string \<Rightarrow> lrcp_error + field list" where
  "unpackFromReader ts r = (if r = [] then Inl ErrEOF else unpack_fields ts (take MTU r))"

text \<open>The action: the bytes up to the second slash, at most nine.\<close>

fun read_action :: "nat \<Rightarrow> string \<Rightarrow> string \<Rightarrow> (string \<times> string) option" where
  "read_action foundSlash action r =
     (if foundSlash = 0 \<or> actionMaxLength \<le> length action then Some (action, r)
      else case r of
             [] \<Rightarrow> None
           | c # cs \<Rightarrow> read_action (if c = slash then foundSlash - 1 else foundSlash) (action @ [c]) cs)"

declare read_action.simps [simp del]

definition UnmarshalMessage :: "string \<Rightarrow> lrcp_error + Message" where
  "UnmarshalMessage r =
     (case read_action 2 [] r of
        None \<Rightarrow> Inl ErrEOF
      | Some (action, rest) \<Rightarrow>
          if action = ''/connect/'' then
            (case unpackFromReader [TInt] rest of
               Inr [FInt s] \<Rightarrow> Inr (MessageConnect s) | Inl e \<Rightarrow> Inl e | _ \<Rightarrow> Inl ErrMessageInvalid)
          else if action = ''/data/'' then
            (case unpackFromReader [TInt, TInt, TBytes] rest of
               Inr [FInt s, FInt p, FBytes d] \<Rightarrow> Inr (MessageData s p d)
             | Inl e \<Rightarrow> Inl e | _ \<Rightarrow> Inl ErrMessageInvalid)
          else if action = ''/ack/'' then
            (case unpackFromReader [TInt, TInt] rest of
               Inr [FInt s, FInt l] \<Rightarrow> Inr (MessageAck s l) | Inl e \<Rightarrow> Inl e | _ \<Rightarrow> Inl ErrMessageInvalid)
          else if action = ''/close/'' then
            (case unpackFromReader [TInt] rest of
               Inr [FInt s] \<Rightarrow> Inr (MessageClose s) | Inl e \<Rightarrow> Inl e | _ \<Rightarrow> Inl ErrMessageInvalid)
          else Inl ErrUnknownAction)"

section \<open>Numbers on the wire\<close>

lemma show_int_plain: "c \<in> set (show_int i) \<Longrightarrow> \<not> special c"
  by (auto simp: show_int_def special_def split: if_splits dest!: show_nat_digits is_digit_neq)

lemma Digits_loop_nat: "0 < n \<Longrightarrow> Digits_loop (int n) = length (show_nat n)"
proof (induction n rule: show_nat.induct)
  case (1 n)
  have step: "Digits_loop (int n) = Suc (Digits_loop (int (n div 10)))"
    using "1.prems" by (subst Digits_loop.simps) (simp add: zdiv_int)
  show ?case
  proof (cases "n < 10")
    case True
    then show ?thesis by (subst show_nat.simps, subst step) (simp add: Digits_loop.simps)
  next
    case False
    then show ?thesis using "1.IH" by (subst show_nat.simps, subst step) simp
  qed
qed

lemma Digits_loop_neg: "Digits_loop (- v) = Digits_loop v"
proof (induction v rule: Digits_loop.induct)
  case (1 v)
  show ?case
  proof (cases "v = 0")
    case False
    then have "sgn (- v) * (\<bar>- v\<bar> div 10) = - (sgn v * (\<bar>v\<bar> div 10))" by (simp add: sgn_minus)
    with 1 [OF False] False show ?thesis by (subst (1 2) Digits_loop.simps) simp
  qed simp
qed

lemma Digits_show: "length (show_int i) = Digits i + (if i < 0 then 1 else 0)"
proof (cases "i = 0")
  case True
  then show ?thesis by (simp add: show_int_def Digits_def show_nat.simps)
next
  case False
  have "Digits i = length (show_nat (nat \<bar>i\<bar>))"
    using False Digits_loop_nat [of "nat \<bar>i\<bar>"] Digits_loop_neg [of i] by (auto simp: Digits_def abs_if split: if_splits)
  with False show ?thesis by (simp add: show_int_def abs_if)
qed

section \<open>Escaping\<close>

lemma length_escape: "length (escape d) = MarshalSize_data d"
  by (induction d) (simp_all add: MarshalSize_data_def)

text \<open>
  A payload that survives: no special byte first, none after a backslash, no backslash last.
  \<open>prev\<close> is the byte before the payload's rest.
\<close>

fun clean_from :: "char option \<Rightarrow> string \<Rightarrow> bool" where
  "clean_from prev [] \<longleftrightarrow> prev \<noteq> Some backslash"
| "clean_from prev (c # cs) \<longleftrightarrow>
     (special c \<longrightarrow> prev \<noteq> None \<and> prev \<noteq> Some backslash) \<and> clean_from (Some c) cs"

definition clean :: "string \<Rightarrow> bool" where
  "clean d \<longleftrightarrow> clean_from None d"

lemma unescape_escape_length: "length d \<le> length (unescape_from prev (escape d))"
proof (induction d arbitrary: prev)
  case (Cons c d)
  then show ?case using Cons.IH [of "Some c"] by (auto simp: special_def intro: le_SucI)
qed simp

lemma unescape_escape:
  "unescape_from prev (escape d) = d \<and> (d = [] \<longrightarrow> prev \<noteq> Some backslash) \<and> (d \<noteq> [] \<longrightarrow> last d \<noteq> backslash) \<longleftrightarrow>
   clean_from prev d"
proof (induction d arbitrary: prev)
  case (Cons c d)
  have len: "backslash # c # unescape_from (Some c) (escape d) \<noteq> c # d"
    using unescape_escape_length [of d "Some c"] by (metis impossible_Cons length_Cons list.inject)
  show ?case
    using Cons.IH [of "Some c"] len by (cases "special c") (auto simp: special_def)
qed simp

lemma next_slash_escape:
  "next_slash_from prev (escape d @ [slash]) =
   (if d = [] \<and> prev = Some backslash \<or> d \<noteq> [] \<and> last d = backslash then None else Some (length (escape d)))"
  by (induction d arbitrary: prev) (auto simp: special_def)

lemma next_slash_plain:
  "\<forall>c\<in>set xs. \<not> special c \<Longrightarrow> prev \<noteq> Some backslash \<or> xs \<noteq> [] \<Longrightarrow>
   next_slash_from prev (xs @ slash # r) = Some (length xs)"
  by (induction xs arbitrary: prev) (auto simp: special_def)

section \<open>Messages are parsed back\<close>

lemma nextSlash_int: "nextSlash (show_int i @ slash # r) = Some (length (show_int i))"
  unfolding nextSlash_def by (rule next_slash_plain) (auto dest: show_int_plain)

lemma unpack_int:
  "int32_range i \<Longrightarrow> unpack_fields (TInt # ts) (show_int i @ slash # r) =
     (case unpack_fields ts r of Inl e \<Rightarrow> Inl e | Inr fs \<Rightarrow> Inr (FInt i # fs))"
  by (simp add: nextSlash_int ParseInt32_show)

lemma unpack_bytes:
  "unpack_fields [TBytes] (escape d @ [slash]) = Inr [FBytes d] \<longleftrightarrow> clean d"
  using unescape_escape [of None d]
  by (auto simp: nextSlash_def next_slash_escape clean_def)

lemma unpack_take: "length r \<le> MTU \<Longrightarrow> r \<noteq> [] \<Longrightarrow> unpackFromReader ts r = unpack_fields ts r"
  by (simp add: unpackFromReader_def)

lemma wire_length: "length (wire m) \<le> MarshalSize m + 1"
  by (cases m) (auto simp: Digits_show length_escape)

lemma Digits_loop_bound: "\<bar>v\<bar> < 10 ^ k \<Longrightarrow> Digits_loop v \<le> k"
proof (induction k arbitrary: v)
  case 0
  then show ?case by (simp add: Digits_loop.simps)
next
  case (Suc k)
  have "\<bar>sgn v * (\<bar>v\<bar> div 10)\<bar> < 10 ^ k" if "v \<noteq> 0" using Suc.prems that by (simp add: abs_mult abs_sgn_eq)
  with Suc.IH show ?case by (subst Digits_loop.simps) auto
qed

lemma Digits_int32: "int32_range i \<Longrightarrow> Digits i \<le> 10"
  using Digits_loop_bound [of i 10] by (auto simp: Digits_def int32_range_def)

fun msg_range :: "Message \<Rightarrow> bool" where
  "msg_range MessageUnknown \<longleftrightarrow> True"
| "msg_range (MessageConnect s) \<longleftrightarrow> int32_range s"
| "msg_range (MessageData s p d) \<longleftrightarrow> int32_range s \<and> int32_range p"
| "msg_range (MessageAck s l) \<longleftrightarrow> int32_range s \<and> int32_range l"
| "msg_range (MessageClose s) \<longleftrightarrow> int32_range s"

lemma wire_MTU: "msg_range m \<Longrightarrow> MarshalSize m \<le> MTU \<Longrightarrow> length (wire m) \<le> MTU"
  by (cases m) (auto simp: Digits_show length_escape MTU_def dest!: Digits_int32)

lemmas read_action_eval = read_action.simps [of "Suc n" for n] read_action.simps [of 0] actionMaxLength_def

lemma read_action_wire:
  "read_action 2 [] (''/connect/'' @ r) = Some (''/connect/'', r)"
  "read_action 2 [] (''/data/'' @ r) = Some (''/data/'', r)"
  "read_action 2 [] (''/ack/'' @ r) = Some (''/ack/'', r)"
  "read_action 2 [] (''/close/'' @ r) = Some (''/close/'', r)"
  by (simp_all add: numeral_2_eq_2 read_action_eval)

lemma round_trip_control:
  assumes "msg_range m" "length (wire m) \<le> MTU" "\<forall>s p d. m \<noteq> MessageData s p d" "m \<noteq> MessageUnknown"
  shows "UnmarshalMessage (wire m) = Inr m"
  using assms
  by (cases m) (auto simp: UnmarshalMessage_def read_action_wire unpack_take unpack_int
      simp del: unpack_fields.simps(2) append_Cons append.simps)

lemma round_trip_data:
  assumes "msg_range (MessageData s p d)" "length (wire (MessageData s p d)) \<le> MTU"
  shows "UnmarshalMessage (wire (MessageData s p d)) = Inr (MessageData s p d) \<longleftrightarrow> clean d"
proof -
  let ?r = "show_int s @ slash # show_int p @ slash # escape d @ [slash]"
  have "unpackFromReader [TInt, TInt, TBytes] ?r = unpack_fields [TInt, TInt, TBytes] ?r"
    using assms(2) by (intro unpack_take) simp_all
  also have "\<dots> = (case unpack_fields [TBytes] (escape d @ [slash]) of
      Inl e \<Rightarrow> Inl e | Inr fs \<Rightarrow> Inr (FInt s # FInt p # fs))"
    using assms(1) by (simp add: unpack_int del: unpack_fields.simps(2) split: sum.split)
  finally have u: "unpackFromReader [TInt, TInt, TBytes] ?r = \<dots>" .
  have w: "wire (MessageData s p d) = ''/data/'' @ ?r" by simp
  show ?thesis
    using unpack_bytes [of d] unfolding w UnmarshalMessage_def read_action_wire
    by (auto simp: u simp del: unpack_fields.simps(2) split: sum.splits list.splits field.splits)
qed

section \<open>Properties of the LRCP messages\<close>

text \<open>
  C26: Round trip. A marshalled connect, ack or close message is parsed back to the same message
  for every 32 bit number; a data message is parsed back exactly when its payload does not
  begin with a slash or backslash, has none of them right after a backslash, and does not end
  with a backslash. The other payloads are corrupted or rejected.
\<close>

theorem lrcp_round_trip:
  assumes "msg_range m" "m \<noteq> MessageUnknown" "Marshal m = Inr w"
  shows "UnmarshalMessage w = Inr m \<longleftrightarrow> (case m of MessageData s p d \<Rightarrow> clean d | _ \<Rightarrow> True)"
proof -
  have w: "w = wire m" "length (wire m) \<le> MTU"
    using assms(1,3) wire_MTU by (auto simp: Marshal_def split: if_splits)
  show ?thesis
  proof (cases "\<exists>s p d. m = MessageData s p d")
    case True
    then obtain s p d where m: "m = MessageData s p d" by blast
    show ?thesis using round_trip_data [of s p d] assms(1) w by (simp only: m Message.case)
  next
    case False
    then have "UnmarshalMessage (wire m) = Inr m" using round_trip_control [OF assms(1) w(2)] assms(2) by blast
    with False w(1) show ?thesis by (auto split: Message.split)
  qed
qed

theorem lrcp_round_trip_witness:
  "UnmarshalMessage (wire (MessageData 12345 7 ''foo/bar'')) = Inr (MessageData 12345 7 ''foo/bar'') \<and>
   UnmarshalMessage (wire (MessageData 12345 7 ''/foo'')) \<noteq> Inr (MessageData 12345 7 ''/foo'') \<and>
   UnmarshalMessage (wire (MessageAck (-5) 0)) = Inr (MessageAck (-5) 0)"
proof -
  have size: "Digits 12345 \<le> 10" "Digits 7 \<le> 10" "Digits (-5) \<le> 10" "Digits 0 \<le> 10"
    by (rule Digits_int32, simp add: int32_range_def)+
  have "Marshal (MessageData 12345 7 ''foo/bar'') = Inr (wire (MessageData 12345 7 ''foo/bar''))"
    "Marshal (MessageData 12345 7 ''/foo'') = Inr (wire (MessageData 12345 7 ''/foo''))"
    "Marshal (MessageAck (-5) 0) = Inr (wire (MessageAck (-5) 0))"
    using size by (simp_all add: Marshal_def MTU_def MarshalSize_data_def special_def del: wire.simps)
  from this [THEN lrcp_round_trip [rotated 2]] show ?thesis
    by (simp add: int32_range_def clean_def special_def del: wire.simps)
qed

text \<open>
  A message that \<open>Marshal\<close> accepts fits into one datagram: its bytes are at most the MTU,
  although the size estimate forgets the minus signs.
\<close>

theorem marshal_fits_MTU:
  assumes "msg_range m" "Marshal m = Inr w"
  shows "length w \<le> MTU"
  using assms wire_MTU by (auto simp: Marshal_def split: if_splits)

theorem marshal_fits_MTU_witness: "length (wire (MessageClose (-2147483648))) \<le> MTU"
proof (rule marshal_fits_MTU)
  show "msg_range (MessageClose (-2147483648))" by (simp add: int32_range_def)
  have "Digits (-2147483648) \<le> 10" by (rule Digits_int32) (simp add: int32_range_def)
  then show "Marshal (MessageClose (-2147483648)) = Inr (wire (MessageClose (-2147483648)))"
    by (simp add: Marshal_def MTU_def del: wire.simps)
qed

end
