(* ===== verification/LrcpSession.thy ===== *)
theory LrcpSession
  imports LrcpMessage
begin

text \<open>
  A session of the line reversal server: \<open>7-line-reversal/lrcp/session.go\<close>, with the routing of
  datagrams to sessions (\<open>lrcp/server.go\<close>) and the handler of \<open>main.go\<close>. A session receives a
  byte stream in data messages that may be lost, repeated, reordered and overlapping, cuts it
  into lines, hands each line to the handler, and sends the reply, a line at a time, in
  messages that fit the MTU, again until it is acknowledged.

  \<open>int32\<close> arithmetic is \<open>int\<close> with the wrap-around written out. \<open>incomingChan\<close> is the sequence of all
  lines sent on the channel, \<open>handled\<close> the number of them whose reply has been acknowledged,
  \<open>cur\<close> the local state of the sending goroutine (the line being sent, \<open>initLen\<close>, \<open>curPos\<close>). An
  empty \<open>incomingBuf\<close> stands also for nil. The handler of a data message works in two
  steps under two different locks: \<open>accept_data\<close> and \<open>read_new_line\<close>.

  Shown: served one at a time, data messages of one stream deliver exactly the lines of the
  received prefix and never panic; every data message sent is a part of the stream of
  reversed lines at its position, fits the MTU, and together they cover what is not
  acknowledged; what goes wrong (two goroutines between the two locks, a position that makes
  the difference wrap, lines that are too long).
\<close>

definition MaxLineLength :: nat where "MaxLineLength = 10000"

definition wrap32 :: "int \<Rightarrow> int" where
  "wrap32 x = (x + 2 ^ 31) mod 2 ^ 32 - 2 ^ 31"

record sessionUDP =
  sess_number :: int
  lenTotalIncoming :: int
  lenTotalOutgoing :: int
  shouldBeSent :: int
  incomingBuf :: string
  incomingChan :: "string list"
  handled :: nat
  cur :: "(string \<times> int \<times> nat) option"

definition new_session :: "int \<Rightarrow> sessionUDP" where
  "new_session n =
     \<lparr>sess_number = n, lenTotalIncoming = 0, lenTotalOutgoing = 0, shouldBeSent = 0,
      incomingBuf = [], incomingChan = [], handled = 0, cur = None\<rparr>"

datatype action = Dispatch Message | CloseSession | Panic

section \<open>Incoming data\<close>

text \<open>
  The first half of a data message, under \<open>lock\<close>: reject (and acknowledge what is there), or
  drop the known prefix and count the rest. \<open>Inl None\<close> is a rejection, \<open>Inl (Some Panic)\<close> a slice
  bound out of range.
\<close>

definition accept_data :: "int \<Rightarrow> string \<Rightarrow> sessionUDP \<Rightarrow> action option + string \<times> sessionUDP" where
  "accept_data pos d s =
     (let off = wrap32 (lenTotalIncoming s - pos) in
      if lenTotalIncoming s < pos \<or> off \<ge> int (length d) then Inl None
      else if off < 0 then Inl (Some Panic)
      else let d' = drop (nat off) d in
           Inr (d', s\<lparr>lenTotalIncoming := wrap32 (lenTotalIncoming s + int (length d'))\<rparr>))"

text \<open>The second half: copy up to each line feed into the buffer; \<open>None\<close> when a line outgrows its capacity.\<close>

function read_lines :: "string \<Rightarrow> string \<Rightarrow> (string list \<times> string) option" where
  "read_lines buf [] = Some ([], buf)"
| "read_lines buf (c # cs) =
     (let line = takeWhile (\<lambda>b. b \<noteq> newline) (c # cs) in
      if length buf + length line > MaxLineLength then None
      else if newline \<in> set (c # cs) then
        (case read_lines [] (drop (Suc (length line)) (c # cs)) of
           None \<Rightarrow> None
         | Some (ls, buf') \<Rightarrow> Some ((buf @ line) # ls, buf'))
      else Some ([], buf @ line))"
  by pat_completeness auto
termination by (relation "measure (\<lambda>(buf, d). length d)") auto

declare read_lines.simps(2) [simp del]

definition readNewLineFromMessage :: "string \<Rightarrow> sessionUDP \<Rightarrow> sessionUDP option" where
  "readNewLineFromMessage d s =
     (case read_lines (incomingBuf s) d of
        None \<Rightarrow> None
      | Some (ls, buf) \<Rightarrow> Some (s\<lparr>incomingChan := incomingChan s @ ls, incomingBuf := buf\<rparr>))"

section \<open>Outgoing data\<close>

definition reverse_handler :: "string \<Rightarrow> string" where
  "reverse_handler line = rev (take MaxLineLength line)"

text \<open>The loop that shortens a packet until it fits, and the loop over the rest of the line.\<close>

partial_function (option) trim_packet :: "int \<Rightarrow> int \<Rightarrow> string \<Rightarrow> string option" where
  "trim_packet n pos d =
     (if MarshalSize (MessageData n pos d) > MTU
      then trim_packet n pos (take (min MTU (length d * 9 div 10)) d)
      else Some d)"

partial_function (option) burst :: "int \<Rightarrow> int \<Rightarrow> string \<Rightarrow> nat \<Rightarrow> Message list option" where
  "burst n initLen buf pos =
     (if pos < length buf then
        let p = wrap32 (initLen + int pos) in
        Option.bind (trim_packet n p (drop pos buf)) (\<lambda>d.
        Option.bind (burst n initLen buf (pos + length d)) (\<lambda>ms.
        Some (MessageData n p d # ms)))
      else Some [])"

definition send_burst :: "sessionUDP \<Rightarrow> action list option" where
  "send_burst s =
     (case cur s of
        None \<Rightarrow> Some []
      | Some (buf, initLen, curPos) \<Rightarrow>
          map_option (map Dispatch) (burst (sess_number s) initLen buf curPos))"

text \<open>The sending goroutine takes the next reply, or the value of \<open>signalAck\<close>.\<close>

definition start_line :: "sessionUDP \<Rightarrow> sessionUDP" where
  "start_line s =
     (let buf = reverse_handler (incomingChan s ! handled s) @ [newline] in
      s\<lparr>shouldBeSent := wrap32 (lenTotalOutgoing s + int (length buf)),
        cur := Some (buf, lenTotalOutgoing s, 0)\<rparr>)"

definition take_ack :: "int \<Rightarrow> sessionUDP \<Rightarrow> sessionUDP" where
  "take_ack ackLen s =
     (case cur s of
        None \<Rightarrow> s
      | Some (buf, initLen, curPos) \<Rightarrow>
          let curPos' = wrap32 (ackLen - initLen) in
          if curPos' \<ge> int (length buf) then s\<lparr>cur := None, handled := Suc (handled s)\<rparr>
          else s\<lparr>cur := Some (buf, initLen, nat curPos')\<rparr>)"

section \<open>The handler of messages\<close>

definition ack_of :: "sessionUDP \<Rightarrow> Message" where
  "ack_of s = MessageAck (sess_number s) (lenTotalIncoming s)"

fun HandleIncoming :: "Message \<Rightarrow> sessionUDP \<Rightarrow> (action list \<times> sessionUDP) option" where
  "HandleIncoming (MessageConnect _) s = Some ([Dispatch (ack_of s)], s)"
| "HandleIncoming (MessageData _ pos d) s =
     (case accept_data pos d s of
        Inl None \<Rightarrow> Some ([Dispatch (ack_of s)], s)
      | Inl (Some a) \<Rightarrow> Some ([a], s)
      | Inr (d', s') \<Rightarrow>
          (case readNewLineFromMessage d' s' of
             None \<Rightarrow> Some ([Panic], s')
           | Some s'' \<Rightarrow> Some ([Dispatch (ack_of s')], s'')))"
| "HandleIncoming (MessageAck _ l) s =
     (if l \<le> lenTotalOutgoing s then Some ([], s)
      else if l > shouldBeSent s then Some ([CloseSession], s)
      else let s' = take_ack l (s\<lparr>lenTotalOutgoing := l\<rparr>) in
           map_option (\<lambda>as. (as, s')) (send_burst s'))"
| "HandleIncoming (MessageClose _) s = Some ([CloseSession], s)"
| "HandleIncoming MessageUnknown s = Some ([], s)"

section \<open>Routing to sessions\<close>

type_synonym sessions = "int \<rightharpoonup> sessionUDP"

definition GetOrCreate :: "int \<Rightarrow> sessions \<Rightarrow> sessionUDP \<times> sessions" where
  "GetOrCreate n ss =
     (case ss n of Some s \<Rightarrow> (s, ss) | None \<Rightarrow> (new_session n, ss(n \<mapsto> new_session n)))"

definition Remove :: "int \<Rightarrow> sessions \<Rightarrow> sessions" where
  "Remove n ss = ss(n := None)"

text \<open>\<open>close\<close>: remove the session and tell the client.\<close>

definition apply_actions :: "int \<Rightarrow> action list \<Rightarrow> sessions \<Rightarrow> Message list \<times> sessions" where
  "apply_actions n as ss =
     (if CloseSession \<in> set as then ([MessageClose n], Remove n ss)
      else (concat (map (\<lambda>a. case a of Dispatch m \<Rightarrow> [m] | _ \<Rightarrow> []) as), ss))"

definition session_number :: "Message \<Rightarrow> int" where
  "session_number m = (case m of MessageUnknown \<Rightarrow> 0 | _ \<Rightarrow> sessionNumber m)"

definition handleIncomingMessage :: "Message \<Rightarrow> sessions \<Rightarrow> (Message list \<times> sessions) option" where
  "handleIncomingMessage m ss =
     (let n = session_number m in
      case (case m of MessageConnect _ \<Rightarrow> Some (GetOrCreate n ss) | _ \<Rightarrow> map_option (\<lambda>s. (s, ss)) (ss n)) of
        None \<Rightarrow> Some ([MessageClose n], ss)
      | Some (s, ss') \<Rightarrow>
          (case HandleIncoming m s of
             None \<Rightarrow> None
           | Some (as, s') \<Rightarrow> if Panic \<in> set as then None else Some (apply_actions n as (ss'(n \<mapsto> s')))))"

section \<open>Cutting the received bytes into lines\<close>

definition lines_fit :: "string list \<times> string \<Rightarrow> bool" where
  "lines_fit x \<longleftrightarrow> (\<forall>l\<in>set (fst x). length l \<le> MaxLineLength) \<and> length (snd x) \<le> MaxLineLength"

lemma wrap32_id: "int32_range x \<Longrightarrow> wrap32 x = x"
  by (simp add: wrap32_def int32_range_def)

lemma read_lines_correct:
  "lines_fit (lines_from newline buf d) \<Longrightarrow> read_lines buf d = Some (lines_from newline buf d)"
proof (induction buf d rule: read_lines.induct)
  case (2 buf c cs)
  let ?d = "c # cs"
  show ?case
  proof (cases "newline \<in> set ?d")
    case True
    note f = first_line [OF True, of buf]
    have fit: "\<not> length buf + length (before_nl ?d) > MaxLineLength"
      "lines_fit (split_lines newline (after_nl ?d))"
      using "2.prems" unfolding f lines_fit_def by auto
    have "read_lines [] (after_nl ?d) = Some (split_lines newline (after_nl ?d))"
      using "2.IH" [OF refl fit(1) True] fit(2) unfolding drop_before_nl by blast
    then show ?thesis
      using fit(1) True unfolding f read_lines.simps(2) Let_def drop_before_nl by (simp split: prod.split)
  next
    case False
    have "lines_from newline buf ?d = ([], buf @ ?d)" using lines_from_plain [OF False, of buf "[]"] by simp
    then show ?thesis
      using False "2.prems" before_nl_id [OF False] unfolding read_lines.simps(2) Let_def lines_fit_def by simp
  qed
qed simp

lemma lines_from_extends:
  "(fst (lines_from nl acc xs) = [] \<longrightarrow> length acc \<le> length (snd (lines_from nl acc xs))) \<and>
   (\<forall>l ls. fst (lines_from nl acc xs) = l # ls \<longrightarrow> length acc \<le> length l)"
proof (induction xs arbitrary: acc)
  case (Cons x xs)
  then show ?case using Cons.IH [of "acc @ [x]"] by auto
qed simp

lemma lines_fit_prefix:
  assumes "lines_fit (lines_from newline acc (xs @ ys))"
  shows "lines_fit (lines_from newline acc xs)"
proof -
  let ?r = "snd (lines_from newline acc xs)"
  have fst: "\<forall>l\<in>set (fst (lines_from newline acc xs)). length l \<le> MaxLineLength"
    and snd: "lines_fit (lines_from newline ?r ys)"
    using assms by (auto simp: lines_fit_def lines_from_append)
  have "length ?r \<le> MaxLineLength"
    using snd lines_from_extends [of newline ?r ys]
    by (cases "fst (lines_from newline ?r ys)") (auto simp: lines_fit_def)
  with fst show ?thesis by (simp add: lines_fit_def)
qed

section \<open>Cutting a line into packets\<close>

lemma MarshalSize_data_le: "MarshalSize_data d \<le> 2 * length d"
  using length_filter_le [of special d] by (simp add: MarshalSize_data_def)

lemma packet_small:
  assumes "int32_range n" "int32_range p" "MTU < MarshalSize (MessageData n p d)"
  shows "2 \<le> length d"
  using assms(3) MarshalSize_data_le [of d] Digits_int32 [OF assms(1)] Digits_int32 [OF assms(2)]
  by (simp add: MTU_def)

lemma trim_packet_correct:
  assumes "int32_range n" "int32_range p" "d \<noteq> []"
  shows "\<exists>k. trim_packet n p d = Some (take k d) \<and> 0 < k \<and> k \<le> length d \<and>
    MarshalSize (MessageData n p (take k d)) \<le> MTU"
  using assms(3)
proof (induction d rule: length_induct)
  case (1 d)
  show ?case
  proof (cases "MTU < MarshalSize (MessageData n p d)")
    case False
    then show ?thesis using "1.prems"
      by (intro exI [of _ "length d"]) (subst trim_packet.simps, simp)
  next
    case True
    define m where "m = min MTU (length d * 9 div 10)"
    have big: "2 \<le> length d" using packet_small [OF assms(1,2) True] .
    then have m: "0 < m" "m < length d" by (auto simp: m_def MTU_def min_def)
    have "length (take m d) < length d" "take m d \<noteq> []" using m by auto
    from "1.IH" [rule_format, OF this] obtain k where k:
      "trim_packet n p (take m d) = Some (take k (take m d))" "0 < k" "k \<le> length (take m d)"
      "MarshalSize (MessageData n p (take k (take m d))) \<le> MTU" by blast
    have "trim_packet n p d = trim_packet n p (take m d)"
      using True by (subst trim_packet.simps) (simp add: m_def)
    with k m show ?thesis by (intro exI [of _ k]) (simp add: min_absorb1)
  qed
qed

text \<open>Consecutive packets of \<open>buf\<close> from \<open>pos\<close> on, each within the MTU.\<close>

fun packets :: "int \<Rightarrow> int \<Rightarrow> string \<Rightarrow> nat \<Rightarrow> Message list \<Rightarrow> bool" where
  "packets n initLen buf pos [] \<longleftrightarrow> pos = length buf"
| "packets n initLen buf pos (m # ms) \<longleftrightarrow>
     (\<exists>d. m = MessageData n (initLen + int pos) d \<and> d \<noteq> [] \<and> MarshalSize m \<le> MTU \<and>
        d = take (length d) (drop pos buf) \<and> packets n initLen buf (pos + length d) ms)"

lemma burst_packets:
  assumes "int32_range n" "0 \<le> initLen" "initLen + int (length buf) < 2 ^ 31" "pos \<le> length buf"
  shows "\<exists>ms. burst n initLen buf pos = Some ms \<and> packets n initLen buf pos ms"
  using assms(4)
proof (induction "length buf - pos" arbitrary: pos rule: less_induct)
  case less
  show ?case
  proof (cases "pos < length buf")
    case False
    then show ?thesis using less.prems by (intro exI [of _ "[]"]) (subst burst.simps, simp)
  next
    case True
    have r: "int32_range (initLen + int pos)" using assms(2,3) True by (simp add: int32_range_def)
    then have p: "wrap32 (initLen + int pos) = initLen + int pos" by (rule wrap32_id)
    obtain k where k: "trim_packet n (initLen + int pos) (drop pos buf) = Some (take k (drop pos buf))" "0 < k"
      "k \<le> length buf - pos" "MarshalSize (MessageData n (initLen + int pos) (take k (drop pos buf))) \<le> MTU"
      using trim_packet_correct [OF assms(1) r, of "drop pos buf"] True by auto
    have len: "length (take k (drop pos buf)) = k" using k(3) by simp
    have "length buf - (pos + k) < length buf - pos" "pos + k \<le> length buf" using k(2,3) True by linarith+
    then obtain ms where ms: "burst n initLen buf (pos + k) = Some ms" "packets n initLen buf (pos + k) ms"
      using less.hyps by blast
    have "burst n initLen buf pos = Some (MessageData n (initLen + int pos) (take k (drop pos buf)) # ms)"
      using True k(1) ms(1) len by (subst burst.simps) (simp add: p Let_def)
    moreover have "packets n initLen buf pos (MessageData n (initLen + int pos) (take k (drop pos buf)) # ms)"
      using k ms(2) len True by (simp del: MarshalSize.simps)
    ultimately show ?thesis by blast
  qed
qed

lemma packets_cover: "packets n initLen buf pos ms \<Longrightarrow> concat (map Data ms) = drop pos buf"
proof (induction ms arbitrary: pos)
  case (Cons m ms)
  then obtain d where d: "m = MessageData n (initLen + int pos) d" "d = take (length d) (drop pos buf)"
    "packets n initLen buf (pos + length d) ms" by auto
  have "concat (map Data (m # ms)) = d @ drop (length d) (drop pos buf)"
    using Cons.IH [OF d(3)] d(1) by (simp add: add.commute)
  also have "\<dots> = drop pos buf" using d(2) by (metis append_take_drop_id)
  finally show ?case .
qed simp

section \<open>A session against the streams of its two sides\<close>

text \<open>
  \<open>T\<close> is the byte stream the client sends; \<open>replies\<close> is the stream the server answers with. A
  data message is a part of a stream when it carries the stream's bytes at its position.
\<close>

definition part_of :: "string \<Rightarrow> int \<Rightarrow> string \<Rightarrow> bool" where
  "part_of T pos d \<longleftrightarrow> 0 \<le> pos \<and> nat pos + length d \<le> length T \<and> d = take (length d) (drop (nat pos) T)"

definition replies :: "string list \<Rightarrow> string" where
  "replies ls = concat (map (\<lambda>l. reverse_handler l @ [newline]) ls)"

datatype sess_event = Incoming Message | NextLine | Retransmit

fun sess_exec :: "sess_event \<Rightarrow> sessionUDP \<Rightarrow> (action list \<times> sessionUDP) option" where
  "sess_exec (Incoming m) s = HandleIncoming m s"
| "sess_exec NextLine s =
     (if cur s = None \<and> handled s < length (incomingChan s)
      then let s' = start_line s in map_option (\<lambda>as. (as, s')) (send_burst s')
      else Some ([], s))"
| "sess_exec Retransmit s = map_option (\<lambda>as. (as, s)) (send_burst s)"

fun event_of_stream :: "string \<Rightarrow> sess_event \<Rightarrow> bool" where
  "event_of_stream T (Incoming (MessageData _ p d)) \<longleftrightarrow> part_of T p d"
| "event_of_stream T _ \<longleftrightarrow> True"

definition stream_ok :: "string \<Rightarrow> bool" where
  "stream_ok T \<longleftrightarrow> int (length T) < 2 ^ 31 \<and> lines_fit (split_lines newline T)"

definition out_inv :: "sessionUDP \<Rightarrow> bool" where
  "out_inv s \<longleftrightarrow>
     (let R = int (length (replies (take (handled s) (incomingChan s)))) in
      handled s \<le> length (incomingChan s) \<and>
      (case cur s of
         None \<Rightarrow> lenTotalOutgoing s = R \<and> shouldBeSent s = R
       | Some (buf, initLen, curPos) \<Rightarrow>
           handled s < length (incomingChan s) \<and> buf = reverse_handler (incomingChan s ! handled s) @ [newline] \<and>
           initLen = R \<and> curPos < length buf \<and> lenTotalOutgoing s = R + int curPos \<and>
           shouldBeSent s = R + int (length buf)))"

definition sess_inv :: "string \<Rightarrow> sessionUDP \<Rightarrow> bool" where
  "sess_inv T s \<longleftrightarrow>
     int32_range (sess_number s) \<and> 0 \<le> lenTotalIncoming s \<and> lenTotalIncoming s \<le> int (length T) \<and>
     (incomingChan s, incomingBuf s) = split_lines newline (take (nat (lenTotalIncoming s)) T) \<and> out_inv s"

lemma replies_simps [simp]:
  "replies [] = []" "replies (l # ls) = reverse_handler l @ newline # replies ls"
  "replies (ls @ ks) = replies ls @ replies ks"
  by (simp_all add: replies_def)

lemma replies_split_at:
  "k < length ls \<Longrightarrow>
   replies ls = replies (take k ls) @ (reverse_handler (ls ! k) @ [newline]) @ replies (drop (Suc k) ls)"
  by (subst id_take_nth_drop [of k ls]) simp_all

lemma replies_take_Suc:
  "k < length ls \<Longrightarrow> replies (take (Suc k) ls) = replies (take k ls) @ reverse_handler (ls ! k) @ [newline]"
  by (simp add: take_Suc_conv_app_nth)

lemma length_replies: "length (replies ls) \<le> length (concat (map (\<lambda>l. l @ [newline]) ls))"
  by (induction ls) (auto simp: reverse_handler_def)

lemma length_replies_stream: "length (replies (fst (split_lines newline T))) \<le> length T"
  using length_replies [of "fst (split_lines newline T)"]
    arg_cong [OF concat_lines_from [of newline "[]" T], of length] by simp

lemma chan_prefix:
  assumes "sess_inv T s"
  shows "\<exists>ks. fst (split_lines newline T) = incomingChan s @ ks"
proof -
  have "incomingChan s = fst (split_lines newline (take (nat (lenTotalIncoming s)) T))"
    using assms by (metis fst_conv sess_inv_def)
  then show ?thesis
    using lines_from_append [of newline "[]" "take (nat (lenTotalIncoming s)) T" "drop (nat (lenTotalIncoming s)) T"]
    by simp
qed

text \<open>Everything the session will have replied fits into \<open>int32\<close>.\<close>

lemma reply_bound:
  assumes "sess_inv T s" "stream_ok T" "k \<le> length (incomingChan s)"
  shows "int (length (replies (take k (incomingChan s)))) < 2 ^ 31"
proof -
  obtain ks where "fst (split_lines newline T) = incomingChan s @ ks" using chan_prefix [OF assms(1)] by blast
  then have "length (replies (incomingChan s)) \<le> length T" using length_replies_stream [of T] by simp
  moreover have "length (replies (take k (incomingChan s))) \<le> length (replies (incomingChan s))"
    by (metis append_take_drop_id le_add1 length_append replies_simps(3))
  ultimately show ?thesis using assms(2) by (simp add: stream_ok_def)
qed

lemma sess_inv_new: "int32_range n \<Longrightarrow> sess_inv T (new_session n)"
  by (simp add: sess_inv_def new_session_def out_inv_def)

subsection \<open>Data messages\<close>

lemma accept_part:
  assumes inv: "sess_inv T s" and T: "stream_ok T" and m: "part_of T pos d"
  shows "case accept_data pos d s of
      Inl a \<Rightarrow> a = None \<and> (lenTotalIncoming s < pos \<or> pos + int (length d) \<le> lenTotalIncoming s)
    | Inr (d', s') \<Rightarrow> d' \<noteq> [] \<and> s' = s\<lparr>lenTotalIncoming := pos + int (length d)\<rparr> \<and>
        pos \<le> lenTotalIncoming s \<and> lenTotalIncoming s < pos + int (length d) \<and> pos + int (length d) \<le> int (length T) \<and>
        take (nat (pos + int (length d))) T = take (nat (lenTotalIncoming s)) T @ d'"
proof -
  let ?n = "lenTotalIncoming s"
  have n: "0 \<le> ?n" "?n \<le> int (length T)" using inv by (simp_all add: sess_inv_def)
  have p: "0 \<le> pos" "pos + int (length d) \<le> int (length T)" "d = take (length d) (drop (nat pos) T)"
    using m by (auto simp: part_of_def)
  have T31: "int (length T) < 2 ^ 31" using T by (simp add: stream_ok_def)
  have off: "wrap32 (?n - pos) = ?n - pos" using n p T31 by (intro wrap32_id) (auto simp: int32_range_def)
  show ?thesis
  proof (cases "?n < pos \<or> ?n - pos \<ge> int (length d)")
    case True
    then show ?thesis by (auto simp: accept_data_def Let_def off)
  next
    case False
    let ?k = "nat (?n - pos)"
    let ?d = "drop ?k d"
    have len: "wrap32 (?n + int (length ?d)) = pos + int (length d)"
      using False n p T31 by (subst wrap32_id) (auto simp: int32_range_def of_nat_diff)
    have "take (nat (pos + int (length d))) T = take (nat ?n + length ?d) T"
      using False p(1) n by (intro arg_cong2 [where f = take]) auto
    also have "\<dots> = take (nat ?n) T @ take (length ?d) (drop (nat ?n) T)" by (simp add: take_add)
    also have "take (length ?d) (drop (nat ?n) T) = ?d"
    proof -
      have "?d = drop ?k (take (length d) (drop (nat pos) T))" using p(3) by simp
      also have "\<dots> = take (length ?d) (drop (?k + nat pos) T)" by (simp add: drop_take)
      also have "?k + nat pos = nat ?n" using False p(1) by auto
      finally show ?thesis by (rule sym)
    qed
    finally have t: "take (nat (pos + int (length d))) T = take (nat ?n) T @ ?d" .
    have "?d \<noteq> []" using False by auto
    with False len t p(2) show ?thesis by (auto simp: accept_data_def Let_def off)
  qed
qed

lemma out_inv_more_lines:
  assumes "out_inv s"
  shows "out_inv (s\<lparr>lenTotalIncoming := n, incomingChan := incomingChan s @ ls, incomingBuf := b\<rparr>)"
  using assms by (auto simp: out_inv_def Let_def nth_append split: option.splits)

lemma handle_data:
  assumes inv: "sess_inv T s" and T: "stream_ok T" and m: "part_of T pos d"
  shows "\<exists>s'. HandleIncoming (MessageData k pos d) s = Some ([Dispatch (ack_of s')], s') \<and> sess_inv T s' \<and>
    lenTotalIncoming s' =
      (if pos \<le> lenTotalIncoming s then max (lenTotalIncoming s) (pos + int (length d)) else lenTotalIncoming s)"
proof (cases "accept_data pos d s")
  case (Inl a)
  then show ?thesis
    using accept_part [OF inv T m] inv by (auto simp: max_def)
next
  case (Inr x)
  obtain d' s' where x: "x = (d', s')" by fastforce
  let ?n = "lenTotalIncoming s" and ?e = "pos + int (length d)"
  have a: "s' = s\<lparr>lenTotalIncoming := ?e\<rparr>" "pos \<le> ?n" "?n < ?e" "?e \<le> int (length T)"
    "take (nat ?e) T = take (nat ?n) T @ d'"
    using accept_part [OF inv T m] Inr x by auto
  have chan: "split_lines newline (take (nat ?n) T) = (incomingChan s, incomingBuf s)"
    using inv by (simp add: sess_inv_def)
  have lines: "split_lines newline (take (nat ?e) T) =
      (incomingChan s @ fst (lines_from newline (incomingBuf s) d'), snd (lines_from newline (incomingBuf s) d'))"
    unfolding a(5) lines_from_append chan by simp
  have "lines_fit (split_lines newline (take (nat ?e) T))"
    using T lines_fit_prefix [of "[]" "take (nat ?e) T" "drop (nat ?e) T"] by (simp add: stream_ok_def)
  then have "lines_fit (lines_from newline (incomingBuf s) d')"
    unfolding lines by (auto simp: lines_fit_def)
  then have rl: "read_lines (incomingBuf s) d' = Some (lines_from newline (incomingBuf s) d')"
    by (rule read_lines_correct)
  let ?s = "s\<lparr>lenTotalIncoming := ?e, incomingChan := incomingChan s @ fst (lines_from newline (incomingBuf s) d'),
    incomingBuf := snd (lines_from newline (incomingBuf s) d')\<rparr>"
  have "readNewLineFromMessage d' s' = Some ?s"
    using rl by (simp add: readNewLineFromMessage_def a(1) split: prod.split)
  then have "HandleIncoming (MessageData k pos d) s = Some ([Dispatch (ack_of ?s)], ?s)"
    using Inr x a(1) by (simp add: ack_of_def)
  moreover have "sess_inv T ?s"
    using inv a lines out_inv_more_lines by (simp add: sess_inv_def)
  ultimately show ?thesis using a(2,3) by (intro exI [of _ ?s]) simp
qed

subsection \<open>Replies\<close>

abbreviation reply_stream :: "string \<Rightarrow> string" where
  "reply_stream T \<equiv> replies (fst (split_lines newline T))"

definition dispatched_ok :: "string \<Rightarrow> action \<Rightarrow> bool" where
  "dispatched_ok R a \<longleftrightarrow>
     (case a of
        Panic \<Rightarrow> False
      | Dispatch (MessageData n p d) \<Rightarrow> part_of R p d \<and> d \<noteq> [] \<and> MarshalSize (MessageData n p d) \<le> MTU
      | _ \<Rightarrow> True)"

lemma packets_part_of:
  assumes "packets n (int (length pre)) buf pos ms" "R = pre @ buf @ post"
  shows "\<forall>a\<in>set (map Dispatch ms). dispatched_ok R a"
  using assms(1)
proof (induction ms arbitrary: pos)
  case (Cons m ms)
  then obtain d where d: "m = MessageData n (int (length pre) + int pos) d" "d \<noteq> []" "MarshalSize m \<le> MTU"
    "d = take (length d) (drop pos buf)" "packets n (int (length pre)) buf (pos + length d) ms" by auto
  have len: "length d \<le> length buf - pos" using arg_cong [OF d(4), of length] by simp
  moreover have "0 < length d" using d(2) by simp
  ultimately have "pos + length d \<le> length buf" by linarith
  then have "part_of R (int (length pre) + int pos) d"
    using d(2,4) by (auto simp: part_of_def assms(2) nat_add_distrib)
  with d(1-3) Cons.IH [OF d(5)] show ?case by (simp add: dispatched_ok_def)
qed simp

text \<open>The burst of a state: parts of the reply stream that together are all that is not acknowledged.\<close>

lemma send_burst_ok:
  assumes inv: "sess_inv T s" and T: "stream_ok T"
  shows "\<exists>ms. send_burst s = Some (map Dispatch ms) \<and> (\<forall>m\<in>set ms. dispatched_ok (reply_stream T) (Dispatch m)) \<and>
    concat (map Data ms) = drop (nat (lenTotalOutgoing s)) (take (nat (shouldBeSent s)) (reply_stream T))"
proof (cases "cur s")
  case None
  then show ?thesis using inv by (auto simp: send_burst_def sess_inv_def out_inv_def Let_def)
next
  case (Some c)
  obtain buf initLen curPos where c: "c = (buf, initLen, curPos)" by (cases c)
  let ?R = "replies (take (handled s) (incomingChan s))"
  have o: "handled s < length (incomingChan s)" "buf = reverse_handler (incomingChan s ! handled s) @ [newline]"
    "initLen = int (length ?R)" "curPos < length buf" "lenTotalOutgoing s = int (length ?R) + int curPos"
    "shouldBeSent s = int (length ?R) + int (length buf)"
    using inv Some c by (auto simp: sess_inv_def out_inv_def Let_def)
  obtain ks where ks: "fst (split_lines newline T) = incomingChan s @ ks" using chan_prefix [OF inv] by blast
  have R: "reply_stream T = ?R @ buf @ (replies (drop (Suc (handled s)) (incomingChan s)) @ replies ks)"
    using replies_split_at [OF o(1)] o(2) ks by simp
  have "int (length ?R) + int (length buf) < 2 ^ 31"
    using reply_bound [OF inv T, of "Suc (handled s)"] o(1,2) replies_take_Suc [OF o(1)] by simp
  then obtain ms where ms: "burst (sess_number s) initLen buf curPos = Some ms"
    "packets (sess_number s) initLen buf curPos ms"
    using burst_packets [of "sess_number s" initLen buf curPos] o(3,4) inv by (auto simp: sess_inv_def)
  have "\<forall>m\<in>set ms. dispatched_ok (reply_stream T) (Dispatch m)"
    using packets_part_of [OF ms(2) [unfolded o(3)] R] by simp
  moreover have "concat (map Data ms) = drop (nat (lenTotalOutgoing s)) (take (nat (shouldBeSent s)) (reply_stream T))"
    using packets_cover [OF ms(2)] o(5,6) by (simp add: R nat_add_distrib)
  ultimately show ?thesis using Some c ms(1) by (auto simp: send_burst_def)
qed

lemma start_line_inv:
  assumes inv: "sess_inv T s" and T: "stream_ok T" and c: "cur s = None" "handled s < length (incomingChan s)"
  shows "sess_inv T (start_line s)"
proof -
  let ?R = "replies (take (handled s) (incomingChan s))"
  have "int (length (replies (take (Suc (handled s)) (incomingChan s)))) < 2 ^ 31"
    using reply_bound [OF inv T, of "Suc (handled s)"] c(2) by simp
  then have "wrap32 (lenTotalOutgoing s + int (length (reverse_handler (incomingChan s ! handled s) @ [newline]))) =
      int (length ?R) + int (length (reverse_handler (incomingChan s ! handled s) @ [newline]))"
    using inv c replies_take_Suc [OF c(2)]
    by (subst wrap32_id) (auto simp: int32_range_def sess_inv_def out_inv_def Let_def)
  then show ?thesis
    using inv c by (auto simp: sess_inv_def out_inv_def Let_def start_line_def)
qed

lemma take_ack_inv:
  assumes inv: "sess_inv T s" and T: "stream_ok T"
    and l: "lenTotalOutgoing s < l" "l \<le> shouldBeSent s"
  shows "sess_inv T (take_ack l (s\<lparr>lenTotalOutgoing := l\<rparr>))"
proof (cases "cur s")
  case None
  then show ?thesis using inv l by (auto simp: sess_inv_def out_inv_def Let_def)
next
  case (Some c)
  obtain buf initLen curPos where c: "c = (buf, initLen, curPos)" by (cases c)
  let ?R = "replies (take (handled s) (incomingChan s))"
  have o: "handled s < length (incomingChan s)" "buf = reverse_handler (incomingChan s ! handled s) @ [newline]"
    "initLen = int (length ?R)" "lenTotalOutgoing s = int (length ?R) + int curPos"
    "shouldBeSent s = int (length ?R) + int (length buf)"
    using inv Some c by (auto simp: sess_inv_def out_inv_def Let_def)
  have b: "int (length ?R) + int (length buf) < 2 ^ 31"
    using reply_bound [OF inv T, of "Suc (handled s)"] o(1,2) replies_take_Suc [OF o(1)] by simp
  have w: "wrap32 (l - initLen) = l - initLen"
    using l o(3-5) b by (intro wrap32_id) (auto simp: int32_range_def)
  show ?thesis
  proof (cases "l - initLen \<ge> int (length buf)")
    case True
    then have "l = int (length (replies (take (Suc (handled s)) (incomingChan s))))"
      using l o(3,5) replies_take_Suc [OF o(1)] o(2) by simp
    then show ?thesis
      using inv Some c o(1,3,5) True w l by (auto simp: sess_inv_def out_inv_def Let_def take_ack_def)
  next
    case False
    then show ?thesis
      using inv Some c o l w by (auto simp: sess_inv_def out_inv_def Let_def take_ack_def)
  qed
qed

lemma sess_exec_ok:
  assumes inv: "sess_inv T s" and T: "stream_ok T" and e: "event_of_stream T e"
  shows "\<exists>as s'. sess_exec e s = Some (as, s') \<and> sess_inv T s' \<and> (\<forall>a\<in>set as. dispatched_ok (reply_stream T) a)"
proof -
  have burst: "\<exists>as. send_burst s' = Some as \<and> (\<forall>a\<in>set as. dispatched_ok (reply_stream T) a)" if "sess_inv T s'" for s'
    using send_burst_ok [OF that T] by auto
  show ?thesis
  proof (cases e)
    case (Incoming m)
    show ?thesis
    proof (cases m)
      case (MessageData k pos d)
      then have "part_of T pos d" using e Incoming by simp
      from handle_data [OF inv T this, of k] MessageData Incoming show ?thesis
        by (auto simp: dispatched_ok_def ack_of_def)
    next
      case (MessageAck k l)
      let ?s = "take_ack l (s\<lparr>lenTotalOutgoing := l\<rparr>)"
      show ?thesis
      proof (cases "l \<le> lenTotalOutgoing s \<or> l > shouldBeSent s")
        case True
        then show ?thesis using Incoming MessageAck inv by (auto simp: dispatched_ok_def)
      next
        case False
        then have s': "sess_inv T ?s" using take_ack_inv [OF inv T] by simp
        with burst [OF s'] False Incoming MessageAck show ?thesis by auto
      qed
    qed (use Incoming inv in \<open>auto simp: dispatched_ok_def ack_of_def\<close>)
  next
    case NextLine
    then show ?thesis using burst [OF start_line_inv [OF inv T]] start_line_inv [OF inv T] inv by (auto simp: Let_def)
  next
    case Retransmit
    then show ?thesis using burst [OF inv] inv by auto
  qed
qed

fun sess_run :: "sess_event list \<Rightarrow> sessionUDP \<Rightarrow> (action list \<times> sessionUDP) option" where
  "sess_run [] s = Some ([], s)"
| "sess_run (e # es) s =
     (case sess_exec e s of
        None \<Rightarrow> None
      | Some (as, s') \<Rightarrow>
          (case sess_run es s' of None \<Rightarrow> None | Some (bs, s'') \<Rightarrow> Some (as @ bs, s'')))"

lemma sess_run_ok:
  assumes "stream_ok T" "sess_inv T s" "\<forall>e\<in>set es. event_of_stream T e"
  shows "\<exists>as s'. sess_run es s = Some (as, s') \<and> sess_inv T s' \<and> (\<forall>a\<in>set as. dispatched_ok (reply_stream T) a)"
  using assms(2,3)
proof (induction es arbitrary: s)
  case (Cons e es)
  obtain as s1 where s1: "sess_exec e s = Some (as, s1)" "sess_inv T s1" "\<forall>a\<in>set as. dispatched_ok (reply_stream T) a"
    using sess_exec_ok [OF Cons.prems(1) assms(1)] Cons.prems(2) by (metis list.set_intros(1))
  obtain bs s2 where "sess_run es s1 = Some (bs, s2)" "sess_inv T s2" "\<forall>a\<in>set bs. dispatched_ok (reply_stream T) a"
    using Cons.IH [OF s1(2)] Cons.prems(2) by auto
  with s1 show ?case by auto
qed simp

section \<open>Properties of a session\<close>


definition sample_events :: "sess_event list" where
  "sample_events =
     [Incoming (MessageConnect 7), Incoming (MessageData 7 3 ''lo''), Incoming (MessageData 7 0 ''hello''),
      Incoming (MessageData 7 3 [CHR ''l'', CHR ''o'', newline]), NextLine]"

abbreviation sample_stream :: string where
  "sample_stream \<equiv> ''hello'' @ [newline]"

lemma sample_ok: "stream_ok sample_stream" "\<forall>e\<in>set sample_events. event_of_stream sample_stream e"
  by (simp_all add: stream_ok_def lines_fit_def MaxLineLength_def sample_events_def part_of_def)


text \<open>
  Acknowledging. In every state reached so, a data message is answered by an ack of the
  bytes received without a gap: a message that extends the received prefix advances it to its
  end, any other leaves it.
\<close>

theorem lrcp_acknowledges:
  assumes "stream_ok T" "int32_range n" "\<forall>e\<in>set es. event_of_stream T e"
    and "sess_run es (new_session n) = Some (as, s)" and "part_of T pos d"
  defines "received \<equiv> (if pos \<le> lenTotalIncoming s then max (lenTotalIncoming s) (pos + int (length d))
    else lenTotalIncoming s)"
  shows "\<exists>s'. HandleIncoming (MessageData n pos d) s = Some ([Dispatch (MessageAck (sess_number s) received)], s') \<and>
    lenTotalIncoming s' = received"
proof -
  have inv: "sess_inv T s" using sess_run_ok [OF assms(1) sess_inv_new [OF assms(2)] assms(3)] assms(4) by auto
  obtain s' where s': "HandleIncoming (MessageData n pos d) s = Some ([Dispatch (ack_of s')], s')"
    "lenTotalIncoming s' = received"
    using handle_data [OF inv assms(1,5), of n] by (auto simp: received_def)
  moreover have "sess_number s' = sess_number s"
    using s'(1) by (auto simp: accept_data_def readNewLineFromMessage_def Let_def split: sum.splits option.splits if_splits)
  ultimately show ?thesis by (auto simp: ack_of_def)
qed

theorem lrcp_acknowledges_witness:
  "\<exists>s'. HandleIncoming (MessageData 7 0 ''hello'') (new_session 7) = Some ([Dispatch (MessageAck 7 5)], s') \<and>
    lenTotalIncoming s' = 5"
  using lrcp_acknowledges [OF sample_ok(1), of 7 "[]" "[]" "new_session 7" 0 "''hello''"]
  by (simp add: int32_range_def part_of_def new_session_def)



text \<open>
  A data message at the least position crashes the server: for every session, at any point,
  the difference of the two positions wraps to a negative slice bound, and the panic of the
  goroutine ends the process.
\<close>

theorem lrcp_min_position_panics:
  assumes "ss n = Some s" "0 \<le> lenTotalIncoming s" "lenTotalIncoming s < 2 ^ 31"
  shows "handleIncomingMessage (MessageData n (- (2 ^ 31)) d) ss = None"
proof -
  have "wrap32 (lenTotalIncoming s - - (2 ^ 31)) = lenTotalIncoming s - 2 ^ 31"
    using assms(2,3) by (simp add: wrap32_def)
  then have "accept_data (- (2 ^ 31)) d s = Inl (Some Panic)"
    using assms(2,3) by (simp add: accept_data_def)
  then show ?thesis
    using assms(1) by (simp add: handleIncomingMessage_def session_number_def)
qed

theorem lrcp_min_position_panics_witness:
  "handleIncomingMessage (MessageData 7 (- (2 ^ 31)) ''x'') [7 \<mapsto> new_session 7] = None"
  by (rule lrcp_min_position_panics [where s = "new_session 7"]) (simp_all add: new_session_def)

text \<open>
  A line that outgrows the buffer crashes the server too: when accepted bytes bring the
  current line beyond the maximal length, the buffer is sliced beyond its capacity.
\<close>

theorem lrcp_long_line_panics:
  assumes "ss n = Some s" "accept_data pos d s = Inr (d', s')"
    and "MaxLineLength < length (incomingBuf s') + length (before_nl d')" "d' \<noteq> []"
  shows "handleIncomingMessage (MessageData n pos d) ss = None"
proof -
  have "readNewLineFromMessage d' s' = None"
    using assms(3,4) by (cases d') (auto simp: readNewLineFromMessage_def read_lines.simps(2) Let_def)
  then show ?thesis
    using assms(1,2) by (simp add: handleIncomingMessage_def session_number_def)
qed

theorem lrcp_long_line_panics_witness:
  defines "s \<equiv> (new_session 7)\<lparr>lenTotalIncoming := 10000, incomingBuf := replicate 10000 (CHR ''a'')\<rparr>"
  shows "handleIncomingMessage (MessageData 7 10000 ''x'') [7 \<mapsto> s] = None"
proof (rule lrcp_long_line_panics [where s = s])
  show "accept_data 10000 ''x'' s = Inr (''x'', s\<lparr>lenTotalIncoming := 10001\<rparr>)"
    by (simp add: accept_data_def s_def wrap32_def new_session_def)
qed (simp_all add: s_def MaxLineLength_def)

text \<open>
  C28: Two kinds of datagrams crash the server. A data message at the least position, for every session at
  any point: the difference of the two positions wraps to a negative slice bound. And accepted bytes
  that bring the current line beyond the maximal length: the buffer is sliced beyond its capacity.
\<close>

theorem lrcp_datagram_panics:
  assumes "ss n = Some s"
  shows "(0 \<le> lenTotalIncoming s \<and> lenTotalIncoming s < 2 ^ 31 \<longrightarrow>
      handleIncomingMessage (MessageData n (- (2 ^ 31)) d) ss = None) \<and>
    (accept_data pos d s = Inr (d', s') \<and> d' \<noteq> [] \<and> MaxLineLength < length (incomingBuf s') + length (before_nl d') \<longrightarrow>
      handleIncomingMessage (MessageData n pos d) ss = None)"
  using lrcp_min_position_panics [of ss n s d] lrcp_long_line_panics [of ss n s pos d d' s'] assms by blast

theorem lrcp_datagram_panics_witness:
  defines "s \<equiv> (new_session 7)\<lparr>lenTotalIncoming := 10000, incomingBuf := replicate 10000 (CHR ''a'')\<rparr>"
  shows "handleIncomingMessage (MessageData 7 (- (2 ^ 31)) ''x'') [7 \<mapsto> s] = None \<and>
    handleIncomingMessage (MessageData 7 10000 ''x'') [7 \<mapsto> s] = None"
proof -
  have "accept_data 10000 ''x'' s = Inr (''x'', s\<lparr>lenTotalIncoming := 10001\<rparr>)"
    by (simp add: accept_data_def s_def wrap32_def new_session_def)
  then show ?thesis
    using lrcp_datagram_panics [of "[7 \<mapsto> s]" 7 s "''x''" 10000 "''x''" "s\<lparr>lenTotalIncoming := 10001\<rparr>"]
    by (simp add: s_def MaxLineLength_def)
qed

text \<open>
  Two goroutines can deliver bytes out of order. When two adjacent data messages are both
  accepted before the first of them is copied, and the second takes the copying lock first,
  the bytes of the line are swapped, although both positions were counted and acknowledged.
\<close>

theorem lrcp_race_swaps_bytes:
  assumes "accept_data pos a s = Inr (a', s1)" "accept_data pos' b s1 = Inr (b', s2)"
    and "newline \<notin> set a'" "newline \<notin> set b'" "a' \<noteq> []" "b' \<noteq> []"
    and "length (incomingBuf s) + length a' + length b' \<le> MaxLineLength"
  shows "Option.bind (readNewLineFromMessage b' s2) (readNewLineFromMessage a') =
    Some (s2\<lparr>incomingBuf := incomingBuf s @ b' @ a'\<rparr>)"
proof -
  have buf: "incomingBuf s2 = incomingBuf s"
    using assms(1,2) by (auto simp: accept_data_def Let_def split: if_splits)
  have plain: "lines_from newline u v = ([], u @ v)" if "newline \<notin> set v" for u v
    using lines_from_plain [OF that, of u "[]"] by simp
  have "read_lines (incomingBuf s) b' = Some ([], incomingBuf s @ b')"
    "read_lines (incomingBuf s @ b') a' = Some ([], (incomingBuf s @ b') @ a')"
    using read_lines_correct [of "incomingBuf s" b'] read_lines_correct [of "incomingBuf s @ b'" a'] assms(7)
    by (simp_all add: plain [OF assms(3)] plain [OF assms(4)] lines_fit_def)
  then show ?thesis by (simp add: readNewLineFromMessage_def buf)
qed

theorem lrcp_race_swaps_bytes_witness:
  "\<exists>s1 s2. accept_data 0 ''ab'' (new_session 7) = Inr (''ab'', s1) \<and> accept_data 2 ''cd'' s1 = Inr (''cd'', s2) \<and>
    Option.bind (readNewLineFromMessage ''cd'' s2) (readNewLineFromMessage ''ab'') =
      Some (s2\<lparr>incomingBuf := ''cdab''\<rparr>)"
proof -
  let ?s1 = "(new_session 7)\<lparr>lenTotalIncoming := 2\<rparr>" and ?s2 = "(new_session 7)\<lparr>lenTotalIncoming := 4\<rparr>"
  have a: "accept_data 0 ''ab'' (new_session 7) = Inr (''ab'', ?s1)" "accept_data 2 ''cd'' ?s1 = Inr (''cd'', ?s2)"
    by (simp_all add: accept_data_def new_session_def wrap32_def)
  with lrcp_race_swaps_bytes [OF a] show ?thesis
    by (auto simp: new_session_def MaxLineLength_def)
qed

end
