(* ===== verification/Lifecycle.thy ===== *)
theory Lifecycle
  imports Prelude
begin

text \<open>
  Programs of several goroutines as guarded steps: \<open>step a s\<close> is the state after step \<open>a\<close>, \<open>None\<close> when the
  step cannot be taken in \<open>s\<close> (a goroutine that waits). A run is a list of steps that can be taken one
  after the other, in any interleaving.

  The locale \<open>guarded_system\<close> lifts an invariant from steps to runs. \<open>draining\<close> adds a weight that every
  step of the program itself makes smaller, and that some step can be taken until the program is done:
  then every way of scheduling the program ends, within a bound, and it ends done. \<open>connection\<close> is what a
  server needs of the goroutines of a connection to be shut down.
\<close>

fun run_steps :: "('a \<Rightarrow> 's \<Rightarrow> 's option) \<Rightarrow> 'a list \<Rightarrow> 's \<Rightarrow> 's option" where
  "run_steps step [] s = Some s"
| "run_steps step (a # as) s = (case step a s of None \<Rightarrow> None | Some t \<Rightarrow> run_steps step as t)"

lemma run_steps_append:
  "run_steps step (as @ bs) s = (case run_steps step as s of None \<Rightarrow> None | Some t \<Rightarrow> run_steps step bs t)"
  by (induction as arbitrary: s) (auto split: option.split)

lemma run_steps_ConsE:
  assumes "run_steps step (a # as) s = Some t"
  obtains u where "step a s = Some u" "run_steps step as u = Some t"
  using assms by (auto split: option.splits)

locale guarded_system =
  fixes step :: "'a \<Rightarrow> 's \<Rightarrow> 's option"
    and admissible :: "'a \<Rightarrow> bool"
    and invariant :: "'s \<Rightarrow> bool"
  assumes step_keeps: "invariant s \<Longrightarrow> admissible a \<Longrightarrow> step a s = Some t \<Longrightarrow> invariant t"
begin

lemma run_keeps:
  "invariant s \<Longrightarrow> list_all admissible as \<Longrightarrow> run_steps step as s = Some t \<Longrightarrow> invariant t"
  by (induction as arbitrary: s) (auto intro: step_keeps split: option.splits)

end

text \<open>
  \<open>drains step own s fin\<close>: from \<open>s\<close> the steps \<open>own\<close> of the program end after a bounded number of steps, and
  where none of them can be taken \<open>fin\<close> holds.
\<close>

definition drains :: "('a \<Rightarrow> 's \<Rightarrow> 's option) \<Rightarrow> ('a \<Rightarrow> bool) \<Rightarrow> 's \<Rightarrow> ('s \<Rightarrow> bool) \<Rightarrow> bool" where
  "drains step own s fin \<longleftrightarrow>
     (\<exists>n. \<forall>as t. list_all own as \<longrightarrow> run_steps step as s = Some t \<longrightarrow>
        length as \<le> n \<and> ((\<forall>a. own a \<longrightarrow> step a t = None) \<longrightarrow> fin t))"

locale draining = guarded_system step own invariant
  for step :: "'a \<Rightarrow> 's \<Rightarrow> 's option" and own :: "'a \<Rightarrow> bool" and invariant :: "'s \<Rightarrow> bool" +
  fixes weight :: "'s \<Rightarrow> nat"
    and finished :: "'s \<Rightarrow> bool"
  assumes step_lighter: "invariant s \<Longrightarrow> own a \<Longrightarrow> step a s = Some t \<Longrightarrow> weight t < weight s"
    and step_possible: "invariant s \<Longrightarrow> \<not> finished s \<Longrightarrow> \<exists>a. own a \<and> step a s \<noteq> None"
begin

lemma run_bounded:
  "invariant s \<Longrightarrow> list_all own as \<Longrightarrow> run_steps step as s = Some t \<Longrightarrow> length as + weight t \<le> weight s"
proof (induction as arbitrary: s)
  case (Cons a as)
  from Cons.prems(3) obtain u where u: "step a s = Some u" "run_steps step as u = Some t" by (rule run_steps_ConsE)
  then show ?case
    using Cons.IH [OF step_keeps [OF Cons.prems(1) _ u(1)] _ u(2)] step_lighter [OF Cons.prems(1) _ u(1)] Cons.prems(2)
    by simp
qed simp

lemma drains: "invariant s \<Longrightarrow> drains step own s finished"
  unfolding drains_def
proof (intro exI [of _ "weight s"] allI impI conjI)
  fix as t
  assume inv: "invariant s" and run: "list_all own as" "run_steps step as s = Some t"
  then show "length as \<le> weight s" using run_bounded by fastforce
  assume "\<forall>a. own a \<longrightarrow> step a t = None"
  then show "finished t" using step_possible [OF run_keeps [OF inv run]] by (cases "finished t") auto
qed

lemma can_finish:
  "invariant s \<Longrightarrow> \<exists>as t. list_all own as \<and> run_steps step as s = Some t \<and> finished t"
proof (induction "weight s" arbitrary: s rule: less_induct)
  case less
  show ?case
  proof (cases "finished s")
    case True
    then have "list_all own []" "run_steps step [] s = Some s" by simp_all
    with True show ?thesis by blast
  next
    case False
    then obtain a u where a: "own a" "step a s = Some u" using step_possible [OF less.prems] by blast
    from less.hyps [OF step_lighter [OF less.prems a] step_keeps [OF less.prems a]]
    obtain as t where "list_all own as" "run_steps step as u = Some t" "finished t" by blast
    then have "list_all own (a # as)" "run_steps step (a # as) s = Some t" using a by simp_all
    with \<open>finished t\<close> show ?thesis by blast
  qed
qed

end

lemma list_all_update: "list_all P xs \<Longrightarrow> P x \<Longrightarrow> list_all P (xs[i := x])"
  by (auto simp: list_all_iff dest: set_update_subset_insert [THEN subsetD])

lemma sum_list_update_less: "i < length xs \<Longrightarrow> f x < f (xs ! i) \<Longrightarrow> sum_list (map f (xs[i := x])) < sum_list (map f xs)"
  for f :: "'a \<Rightarrow> nat"
  by (induction xs arbitrary: i) (auto split: nat.split)

lemma sum_list_map_update:
  "i < length xs \<Longrightarrow> sum_list (map f (xs[i := x])) + f (xs ! i) = sum_list (map f xs) + f x" for f :: "'a \<Rightarrow> nat"
  by (induction xs arbitrary: i) (auto split: nat.split)

text \<open>
  A connection: its steps know whether the server's context is cancelled. Once it is, the steps of the
  program make the connection lighter, until it is over or blocked.
\<close>

locale connection =
  fixes cstep :: "bool \<Rightarrow> 'e \<Rightarrow> 'c \<Rightarrow> 'c option"
    and cown :: "'e \<Rightarrow> bool"
    and fresh :: "'c"
    and cinv :: "'c \<Rightarrow> bool"
    and cweight :: "'c \<Rightarrow> nat"
    and over :: "'c \<Rightarrow> bool"
    and blocked :: "'c \<Rightarrow> bool"
  assumes fresh_inv: "cinv fresh"
    and cstep_inv: "cinv c \<Longrightarrow> cstep b e c = Some d \<Longrightarrow> cinv d"
    and over_stays: "over c \<Longrightarrow> cstep b e c = Some d \<Longrightarrow> over d"
    and cstep_lighter: "cinv c \<Longrightarrow> cown e \<Longrightarrow> cstep True e c = Some d \<Longrightarrow> cweight d < cweight c"
    and cstep_possible: "cinv c \<Longrightarrow> \<not> over c \<Longrightarrow> \<not> blocked c \<Longrightarrow> \<exists>e. cown e \<and> cstep True e c \<noteq> None"

text \<open>A blocked connection that stays so, whatever steps of some kind are taken.\<close>

locale blocking_connection = connection +
  fixes quiet :: "'e \<Rightarrow> bool"
  assumes blocked_not_over: "blocked c \<Longrightarrow> \<not> over c"
    and blocked_stays: "blocked c \<Longrightarrow> quiet e \<Longrightarrow> cstep b e c = Some d \<Longrightarrow> blocked d"

end
