(* ===== verification/LrcpServer.thy ===== *)
theory LrcpServer
  imports LrcpSession Lifecycle
begin

text \<open>
  The server of the line reversal program (\<open>7-line-reversal/lrcp/server.go\<close>) around its sessions: what
  happens to one datagram, as text, and the life of its goroutines: \<open>Listen\<close> with its closing and receiving
  goroutine, a goroutine for each datagram, the two goroutines of each session, \<open>Remove\<close> and \<open>Shutdown\<close>.

  The steps of the life cycle leave out what the goroutines compute: what depends on the data (whether a
  message is new, whether the line is complete) is an argument of the step. Wait groups and locks are
  read off the state: a lock that is held for more than one step is held by one goroutine only (\<open>lock\<close> of
  the server and \<open>sessionsLock\<close> by \<open>Shutdown\<close>, \<open>lockIncomingData\<close> by the goroutine that copies a message).

  Shown: a datagram of the client's stream is answered, in text, by the ack of what has been received; after
  the context is cancelled every schedule ends with everything stopped and \<open>Shutdown\<close> returned, but for
  one deadlock; the deadlock; a \<open>Shutdown\<close> that comes too early; an ack that comes too late.
\<close>

section \<open>A datagram\<close>

text \<open>\<open>dispatcher\<close>: the datagram that is written, if any; the two calls of the connection may fail.\<close>

definition dispatcher :: "bool \<Rightarrow> bool \<Rightarrow> Message \<Rightarrow> string list" where
  "dispatcher deadline_set written m =
     (case Marshal m of Inl e \<Rightarrow> [] | Inr t \<Rightarrow> if deadline_set \<and> written then [t] else [])"

text \<open>
  The body of the goroutine of a datagram; the buffer it was read into cuts it at \<open>MTU\<close> bytes.
\<close>

definition serve_datagram :: "string \<Rightarrow> sessions \<Rightarrow> (string list \<times> sessions) option" where
  "serve_datagram raw ss =
     (case UnmarshalMessage (take MTU raw) of
        Inl e \<Rightarrow> Some ([], ss)
      | Inr m \<Rightarrow>
          map_option (\<lambda>(ms, ss'). (concat (map (dispatcher True True) ms), ss')) (handleIncomingMessage m ss))"

section \<open>Acknowledgements in two steps\<close>

text \<open>
  An ack is accepted under \<open>lock\<close> (\<open>Inl\<close>: ignored, or the session is closed), and its length is handed to
  the sending goroutine later, when that goroutine waits; \<open>None\<close> is the panic of a slice of the line at a
  negative position.
\<close>

definition accept_ack :: "int \<Rightarrow> sessionUDP \<Rightarrow> action list + sessionUDP" where
  "accept_ack l s =
     (if l \<le> lenTotalOutgoing s then Inl []
      else if l > shouldBeSent s then Inl [CloseSession]
      else Inr (s\<lparr>lenTotalOutgoing := l\<rparr>))"

definition signal_ack :: "int \<Rightarrow> sessionUDP \<Rightarrow> sessionUDP option" where
  "signal_ack l s =
     (case cur s of
        None \<Rightarrow> Some s
      | Some (buf, initLen, curPos) \<Rightarrow> if wrap32 (l - initLen) < 0 then None else Some (take_ack l s))"

section \<open>The goroutines of a session\<close>

datatype worker_pc = W_select | W_handle | W_put | W_over
datatype sender_pc = T_select | T_loop | T_wait | T_remove | T_join nat | T_over

text \<open>\<open>inq\<close> and \<open>outq\<close> count what is in the two channels.\<close>

record session_life =
  number :: int
  cancelled :: bool
  worker_at :: worker_pc
  sender_at :: sender_pc
  inq :: nat
  outq :: nat

definition new_life :: "int \<Rightarrow> session_life" where
  "new_life n = \<lparr>number = n, cancelled = False, worker_at = W_select, sender_at = T_select, inq = 0, outq = 0\<rparr>"

definition life_over :: "session_life \<Rightarrow> bool" where
  "life_over c \<longleftrightarrow> worker_at c = W_over \<and> sender_at c = T_over"

text \<open>
  The goroutine of the handler takes a line, runs the handler, puts the reply; the sending goroutine
  takes a reply and, until it is acknowledged, sends and waits for an ack (a step of the ack's goroutine),
  the end of the context or one of its timers. \<open>Session_timeout\<close> begins \<open>close\<close>.
\<close>

datatype session_event =
  Take_line | Handler_returns | Put_reply | Worker_quits
| Next_reply | Sender_quits | Burst bool | Wait_ends | Retransmit_timeout | Session_timeout

fun session_step :: "bool \<Rightarrow> session_event \<Rightarrow> session_life \<Rightarrow> session_life option" where
  "session_step over Take_line c =
     (if worker_at c = W_select \<and> 0 < inq c then Some (c\<lparr>inq := inq c - 1, worker_at := W_handle\<rparr>) else None)"
| "session_step over Handler_returns c = (if worker_at c = W_handle then Some (c\<lparr>worker_at := W_put\<rparr>) else None)"
| "session_step over Put_reply c =
     (if worker_at c = W_put \<and> outq c < 100 then Some (c\<lparr>outq := Suc (outq c), worker_at := W_select\<rparr>) else None)"
| "session_step over Worker_quits c =
     (if over \<and> worker_at c = W_select then Some (c\<lparr>worker_at := W_over\<rparr>)
      else if over \<and> worker_at c = W_put then Some (c\<lparr>worker_at := W_select\<rparr>) else None)"
| "session_step over Next_reply c =
     (if sender_at c = T_select \<and> 0 < outq c then Some (c\<lparr>outq := outq c - 1, sender_at := T_loop\<rparr>) else None)"
| "session_step over Sender_quits c =
     (if over \<and> sender_at c = T_select then Some (c\<lparr>sender_at := T_over\<rparr>) else None)"
| "session_step over (Burst complete) c =
     (if sender_at c = T_loop then Some (c\<lparr>sender_at := (if complete \<or> over then T_select else T_wait)\<rparr>) else None)"
| "session_step over Wait_ends c =
     (if over \<and> sender_at c = T_wait then Some (c\<lparr>sender_at := T_select\<rparr>) else None)"
| "session_step over Retransmit_timeout c =
     (if sender_at c = T_wait then Some (c\<lparr>sender_at := T_loop\<rparr>) else None)"
| "session_step over Session_timeout c =
     (if sender_at c = T_wait then Some (c\<lparr>sender_at := T_remove\<rparr>) else None)"

section \<open>The session manager\<close>

text \<open>All sessions ever made, and the map of the manager, from numbers to them.\<close>

record session_table =
  lives :: "session_life list"
  table :: "int \<rightharpoonup> nat"

definition find_or_create :: "int \<Rightarrow> session_table \<Rightarrow> nat \<times> session_table" where
  "find_or_create n g =
     (case table g n of
        Some i \<Rightarrow> (i, g)
      | None \<Rightarrow> (length (lives g), g\<lparr>lives := lives g @ [new_life n], table := (table g)(n \<mapsto> length (lives g))\<rparr>))"

definition cancel_life :: "nat \<Rightarrow> session_table \<Rightarrow> session_table" where
  "cancel_life k g = g\<lparr>lives := (lives g)[k := (lives g ! k)\<lparr>cancelled := True\<rparr>]\<rparr>"

text \<open>\<open>Remove\<close> up to its wait: the session that is to be waited for.\<close>

definition remove_number :: "int \<Rightarrow> session_table \<Rightarrow> (nat \<times> session_table) option" where
  "remove_number n g =
     (case table g n of
        None \<Rightarrow> None
      | Some k \<Rightarrow> Some (k, cancel_life k (g\<lparr>table := (table g)(n := None)\<rparr>)))"

text \<open>\<open>sessionManager.Shutdown\<close> up to its wait.\<close>

definition in_table :: "session_table \<Rightarrow> nat \<Rightarrow> bool" where
  "in_table g i \<longleftrightarrow> i < length (lives g) \<and> table g (number (lives g ! i)) = Some i"

definition remove_all :: "session_table \<Rightarrow> nat list \<times> session_table" where
  "remove_all g =
     (let ks = filter (in_table g) [0..<length (lives g)]
      in (ks, fold cancel_life ks g \<lparr>table := Map.empty\<rparr>))"

definition set_sender :: "nat \<Rightarrow> sender_pc \<Rightarrow> session_table \<Rightarrow> session_table" where
  "set_sender i pc g = g\<lparr>lives := (lives g)[i := (lives g ! i)\<lparr>sender_at := pc\<rparr>]\<rparr>"

text \<open>The rest of \<open>close\<close> in the sending goroutine of session \<open>i\<close>; the datagram to the client cannot block.\<close>

definition sender_removes :: "nat \<Rightarrow> session_table \<Rightarrow> session_table option" where
  "sender_removes i g =
     (if i < length (lives g) \<and> sender_at (lives g ! i) = T_remove then
        (case remove_number (number (lives g ! i)) g of
           None \<Rightarrow> Some (set_sender i T_select g)
         | Some (k, g') \<Rightarrow> Some (set_sender i (T_join k) g'))
      else None)"

definition sender_joined :: "nat \<Rightarrow> session_table \<Rightarrow> session_table option" where
  "sender_joined i g =
     (if i < length (lives g) then
        (case sender_at (lives g ! i) of
           T_join k \<Rightarrow> if life_over (lives g ! k) then Some (set_sender i T_select g) else None
         | _ \<Rightarrow> None)
      else None)"

section \<open>The goroutine of a datagram\<close>

datatype message_pc =
  M_new Message
| M_found nat Message
| M_data nat
| M_copy nat
| M_push nat
| M_ack nat
| M_remove nat
| M_join nat
| M_over

datatype verdict = Answered | Taken | Misbehaving

datatype message_event =
  Find | Judge verdict | Lock_data | Copy bool | Push_line | Quit | Give_ack | Remove_session | Joined

text \<open>What \<open>HandleIncoming\<close> goes on to do, given what it finds out about the message under \<open>lock\<close>.\<close>

fun judge :: "nat \<Rightarrow> Message \<Rightarrow> verdict \<Rightarrow> message_pc option" where
  "judge i (MessageData n p d) Taken = Some (M_data i)"
| "judge i (MessageAck n l) Taken = Some (M_ack i)"
| "judge i (MessageAck n l) Misbehaving = Some (M_remove i)"
| "judge i (MessageClose n) v = Some (M_remove i)"
| "judge i m Answered = Some M_over"
| "judge i m v = None"

text \<open>
  \<open>locked\<close>: \<open>sessionsLock\<close> is held; \<open>over\<close>: the server's context has ended; \<open>busy i\<close>: another goroutine
  copies a message of session \<open>i\<close>.
\<close>

definition ctx_done :: "bool \<Rightarrow> session_table \<Rightarrow> nat \<Rightarrow> bool" where
  "ctx_done over g i \<longleftrightarrow> over \<or> cancelled (lives g ! i)"

fun message_step ::
  "bool \<Rightarrow> bool \<Rightarrow> (nat \<Rightarrow> bool) \<Rightarrow> message_event \<Rightarrow> message_pc \<Rightarrow> session_table \<Rightarrow>
   (message_pc \<times> session_table) option" where
  "message_step locked over busy Find pc g =
     (case pc of
        M_new m \<Rightarrow>
          if locked then None
          else (case m of
            MessageConnect n \<Rightarrow> (let (i, g') = find_or_create n g in Some (M_found i m, g'))
          | _ \<Rightarrow>
              (case table g (session_number m) of
                 None \<Rightarrow> Some (M_over, g)
               | Some i \<Rightarrow> Some (M_found i m, g)))
      | _ \<Rightarrow> None)"
| "message_step locked over busy (Judge v) pc g =
     (case pc of M_found i m \<Rightarrow> map_option (\<lambda>pc. (pc, g)) (judge i m v) | _ \<Rightarrow> None)"
| "message_step locked over busy Lock_data pc g =
     (case pc of M_data i \<Rightarrow> if busy i then None else Some (M_copy i, g) | _ \<Rightarrow> None)"
| "message_step locked over busy (Copy found) pc g =
     (case pc of
        M_copy i \<Rightarrow> if ctx_done over g i \<or> \<not> found then Some (M_over, g) else Some (M_push i, g)
      | _ \<Rightarrow> None)"
| "message_step locked over busy Push_line pc g =
     (case pc of
        M_push i \<Rightarrow>
          if inq (lives g ! i) < 100
          then Some (M_copy i, g\<lparr>lives := (lives g)[i := (lives g ! i)\<lparr>inq := Suc (inq (lives g ! i))\<rparr>]\<rparr>) else None
      | _ \<Rightarrow> None)"
| "message_step locked over busy Quit pc g =
     (case pc of
        M_push i \<Rightarrow> if ctx_done over g i then Some (M_over, g) else None
      | M_ack i \<Rightarrow> if ctx_done over g i then Some (M_over, g) else None
      | _ \<Rightarrow> None)"
| "message_step locked over busy Give_ack pc g =
     (case pc of
        M_ack i \<Rightarrow> if sender_at (lives g ! i) = T_wait then Some (M_over, set_sender i T_loop g) else None
      | _ \<Rightarrow> None)"
| "message_step locked over busy Remove_session pc g =
     (case pc of
        M_remove i \<Rightarrow>
          if locked then None
          else (case remove_number (number (lives g ! i)) g of
                  None \<Rightarrow> Some (M_over, g)
                | Some (k, g') \<Rightarrow> Some (M_join k, g'))
      | _ \<Rightarrow> None)"
| "message_step locked over busy Joined pc g =
     (case pc of M_join k \<Rightarrow> if life_over (lives g ! k) then Some (M_over, g) else None | _ \<Rightarrow> None)"

section \<open>The server\<close>

text \<open>
  \<open>errored\<close> tells whether the receiving goroutine has an error to report. \<open>U_serving\<close> is the loop over
  \<open>errChan\<close>, with the joined error so far; \<open>H_sessions\<close> is the wait of \<open>sessionManager.Shutdown\<close>, for the
  sessions listed, with both locks held.
\<close>

datatype udp_err = ErrBind | ErrRead | ErrContext

datatype udp_listen = U_idle | U_entered | U_cancellable | U_bound | U_serving "udp_err option" | U_returned "udp_err option"
datatype receiver_pc = R_none | R_check | R_read | R_error | R_join | R_over
datatype udp_shutdown = H_idle | H_lock | H_sessions "nat list" | H_await | H_returned "udp_err option"

record lrcp_server =
  listening :: udp_listen
  server_over :: bool
  conn_open :: bool
  closing :: bool
  receiver :: receiver_pc
  messages :: "message_pc list"
  table_of :: session_table
  stopped :: bool
  shutting :: udp_shutdown

definition NewServer :: lrcp_server where
  "NewServer =
     \<lparr>listening = U_idle, server_over = False, conn_open = False, closing = False, receiver = R_none, messages = [],
      table_of = \<lparr>lives = [], table = Map.empty\<rparr>, stopped = False, shutting = H_idle\<rparr>"

fun locked_by :: "udp_shutdown \<Rightarrow> bool" where
  "locked_by (H_sessions ks) = True"
| "locked_by _ = False"

abbreviation is_locked :: "lrcp_server \<Rightarrow> bool" where
  "is_locked s \<equiv> locked_by (shutting s)"

text \<open>\<open>s.cancel\<close> and \<open>s.sessionManager\<close> are not nil.\<close>

definition has_cancel :: "lrcp_server \<Rightarrow> bool" where
  "has_cancel s \<longleftrightarrow> listening s \<noteq> U_idle \<and> listening s \<noteq> U_entered"

definition has_manager :: "lrcp_server \<Rightarrow> bool" where
  "has_manager s \<longleftrightarrow> receiver s \<noteq> R_none"

definition copying :: "lrcp_server \<Rightarrow> nat \<Rightarrow> bool" where
  "copying s i \<longleftrightarrow> M_copy i \<in> set (messages s) \<or> M_push i \<in> set (messages s)"

datatype udp_event =
  Call_Listen
| Set_cancel
| Listen_UDP bool
| Set_manager
| Closer_wakes
| Check
| Datagram "Message option"
| Read_closed
| Read_fails
| Error_taken
| Receiver_ends
| Listen_ends
| Message nat message_event
| Session nat session_event
| Sender_removes nat
| Sender_joined nat
| Call_Shutdown
| Shutdown_locks
| Sessions_over
| Gives_up
| Shutdown_returns

text \<open>
  \<open>Listen_ends\<close>: the wait group is empty, so \<open>errChan\<close> is closed, and the deferred calls close \<open>stopped\<close> and
  cancel the context. A second \<open>Listen\<close> returns nil at once. \<open>Shutdown\<close> returns nil when the server does not run.
\<close>

fun udp_step :: "udp_event \<Rightarrow> lrcp_server \<Rightarrow> lrcp_server option" where
  "udp_step Call_Listen s = Some (if listening s = U_idle then s\<lparr>listening := U_entered\<rparr> else s)"
| "udp_step Set_cancel s =
     (if listening s = U_entered \<and> \<not> is_locked s then Some (s\<lparr>listening := U_cancellable\<rparr>) else None)"
| "udp_step (Listen_UDP ok) s =
     (if listening s \<noteq> U_cancellable then None
      else if ok then Some (s\<lparr>listening := U_bound, conn_open := True, closing := True\<rparr>)
      else Some (s\<lparr>listening := U_returned (Some ErrBind), stopped := True, server_over := True\<rparr>))"
| "udp_step Closer_wakes s =
     (if closing s \<and> server_over s then Some (s\<lparr>closing := False, conn_open := False\<rparr>) else None)"
| "udp_step Set_manager s =
     (if listening s = U_bound \<and> \<not> is_locked s then Some (s\<lparr>listening := U_serving None, receiver := R_check\<rparr>) else None)"
| "udp_step Check s =
     (if receiver s = R_check then Some (s\<lparr>receiver := (if server_over s then R_join else R_read)\<rparr>) else None)"
| "udp_step (Datagram m) s =
     (if receiver s = R_read \<and> conn_open s
      then Some (s\<lparr>receiver := R_check,
                   messages := messages s @ [case m of None \<Rightarrow> M_over | Some m \<Rightarrow> M_new m]\<rparr>) else None)"
| "udp_step Read_closed s =
     (if receiver s = R_read \<and> \<not> conn_open s then Some (s\<lparr>receiver := R_join\<rparr>) else None)"
| "udp_step Read_fails s =
     (if receiver s = R_read \<and> conn_open s then Some (s\<lparr>receiver := R_error\<rparr>) else None)"
| "udp_step Error_taken s =
     (case listening s of
        U_serving e \<Rightarrow>
          if receiver s = R_error then Some (s\<lparr>listening := U_serving (Some ErrRead), receiver := R_join\<rparr>) else None
      | _ \<Rightarrow> None)"
| "udp_step Receiver_ends s =
     (if receiver s = R_join \<and> list_all (\<lambda>m. m = M_over) (messages s)
      then Some (s\<lparr>receiver := R_over, server_over := True\<rparr>) else None)"
| "udp_step Listen_ends s =
     (case listening s of
        U_serving e \<Rightarrow>
          if receiver s = R_over \<and> \<not> closing s
          then Some (s\<lparr>listening := U_returned e, stopped := True, server_over := True\<rparr>) else None
      | _ \<Rightarrow> None)"
| "udp_step (Message j e) s =
     (if j < length (messages s)
      then map_option (\<lambda>(pc, g). s\<lparr>table_of := g, messages := (messages s)[j := pc]\<rparr>)
             (message_step (is_locked s) (server_over s) (copying s) e (messages s ! j) (table_of s))
      else None)"
| "udp_step (Session i e) s =
     (let g = table_of s in
      if i < length (lives g)
      then map_option (\<lambda>c. s\<lparr>table_of := g\<lparr>lives := (lives g)[i := c]\<rparr>\<rparr>)
             (session_step (ctx_done (server_over s) g i) e (lives g ! i))
      else None)"
| "udp_step (Sender_removes i) s =
     (if is_locked s then None else map_option (\<lambda>g. s\<lparr>table_of := g\<rparr>) (sender_removes i (table_of s)))"
| "udp_step (Sender_joined i) s = map_option (\<lambda>g. s\<lparr>table_of := g\<rparr>) (sender_joined i (table_of s))"
| "udp_step Call_Shutdown s =
     (case shutting s of
        H_idle \<Rightarrow> Some (s\<lparr>shutting := (if listening s = U_idle then H_returned None else H_lock)\<rparr>)
      | H_returned e \<Rightarrow> Some (s\<lparr>shutting := (if listening s = U_idle then H_returned None else H_lock)\<rparr>)
      | _ \<Rightarrow> None)"
| "udp_step Shutdown_locks s =
     (if shutting s = H_lock
      then let s' = s\<lparr>server_over := server_over s \<or> has_cancel s\<rparr> in
           Some (if has_manager s
                 then let (ks, g) = remove_all (table_of s) in s'\<lparr>table_of := g, shutting := H_sessions ks\<rparr>
                 else s'\<lparr>shutting := H_await\<rparr>)
      else None)"
| "udp_step Sessions_over s =
     (case shutting s of
        H_sessions ks \<Rightarrow>
          if list_all (\<lambda>k. life_over (lives (table_of s) ! k)) ks then Some (s\<lparr>shutting := H_await\<rparr>) else None
      | _ \<Rightarrow> None)"
| "udp_step Gives_up s = (if shutting s = H_await then Some (s\<lparr>shutting := H_returned (Some ErrContext)\<rparr>) else None)"
| "udp_step Shutdown_returns s =
     (if shutting s = H_await \<and> stopped s then Some (s\<lparr>shutting := H_returned None\<rparr>) else None)"

text \<open>The steps of the program itself; clients, callers and failing reads of an open socket do the others.\<close>

fun udp_own :: "udp_event \<Rightarrow> bool" where
  "udp_own Call_Listen = False"
| "udp_own (Datagram m) = False"
| "udp_own Read_fails = False"
| "udp_own Call_Shutdown = False"
| "udp_own Gives_up = False"
| "udp_own _ = True"

section \<open>The session manager keeps its invariant\<close>

text \<open>
  A session waits in its own \<open>close\<close> for a session that has been taken out of the map: for itself, or for a
  later one of the same number. \<open>awaited k\<close> is what everybody else who waits for \<open>k\<close> relies on: \<open>k\<close> does
  not wait for itself.
\<close>

fun joining :: "sender_pc \<Rightarrow> bool" where
  "joining (T_join k) = True"
| "joining _ = False"

abbreviation sender_of :: "session_table \<Rightarrow> nat \<Rightarrow> sender_pc" where
  "sender_of g i \<equiv> sender_at (lives g ! i)"

abbreviation number_of :: "session_table \<Rightarrow> nat \<Rightarrow> int" where
  "number_of g i \<equiv> number (lives g ! i)"

definition awaited :: "session_table \<Rightarrow> nat \<Rightarrow> bool" where
  "awaited g k \<longleftrightarrow> k < length (lives g) \<and> table g (number_of g k) \<noteq> Some k \<and> sender_of g k \<noteq> T_join k"

definition joins_ok :: "session_table \<Rightarrow> bool" where
  "joins_ok g \<longleftrightarrow> (\<forall>i k. i < length (lives g) \<longrightarrow> sender_of g i = T_join k \<longrightarrow>
     k < length (lives g) \<and> table g (number_of g k) \<noteq> Some k \<and> i \<le> k \<and> (i < k \<longrightarrow> sender_of g k \<noteq> T_join k))"

definition table_ok :: "session_table \<Rightarrow> bool" where
  "table_ok g \<longleftrightarrow>
     (\<forall>n i. table g n = Some i \<longrightarrow> i < length (lives g) \<and> number_of g i = n \<and> \<not> joining (sender_of g i)) \<and>
     (\<forall>i k. i < length (lives g) \<longrightarrow> table g (number_of g i) = Some k \<longrightarrow> i \<le> k) \<and> joins_ok g"

lemma table_okD:
  assumes "table_ok g"
  shows "table g n = Some i \<Longrightarrow> i < length (lives g)" "table g n = Some i \<Longrightarrow> number_of g i = n"
    and "table g n = Some i \<Longrightarrow> \<not> joining (sender_of g i)"
    and "i < length (lives g) \<Longrightarrow> table g (number_of g i) = Some k \<Longrightarrow> i \<le> k"
    and "i < length (lives g) \<Longrightarrow> sender_of g i = T_join k \<Longrightarrow> k < length (lives g)"
    and "i < length (lives g) \<Longrightarrow> sender_of g i = T_join k \<Longrightarrow> table g (number_of g k) \<noteq> Some k"
    and "i < length (lives g) \<Longrightarrow> sender_of g i = T_join k \<Longrightarrow> i \<le> k"
    and "i < length (lives g) \<Longrightarrow> sender_of g i = T_join k \<Longrightarrow> i < k \<Longrightarrow> sender_of g k \<noteq> T_join k"
  using assms unfolding table_ok_def joins_ok_def by blast+

lemma awaitedD:
  assumes "awaited g k"
  shows "k < length (lives g)" "table g (number_of g k) \<noteq> Some k" "sender_of g k \<noteq> T_join k"
  using assms by (simp_all add: awaited_def)

text \<open>A change of one session, in nothing but its place; nobody starts to wait.\<close>

definition local_change :: "nat \<Rightarrow> session_life \<Rightarrow> session_table \<Rightarrow> bool" where
  "local_change i c g \<longleftrightarrow>
     i < length (lives g) \<and> number c = number_of g i \<and> (joining (sender_at c) \<longrightarrow> sender_at c = sender_of g i)"

lemma local_change_ok:
  assumes "table_ok g" "local_change i c g"
  shows "table_ok (g\<lparr>lives := (lives g)[i := c]\<rparr>)" "awaited g k \<Longrightarrow> awaited (g\<lparr>lives := (lives g)[i := c]\<rparr>) k"
proof -
  let ?g = "g\<lparr>lives := (lives g)[i := c]\<rparr>"
  have num: "number_of ?g j = number_of g j" for j
    using assms(2) by (cases "j = i") (auto simp: local_change_def)
  have snd: "sender_of ?g j = sender_of g j \<or> \<not> joining (sender_of ?g j)" for j
    using assms(2) by (cases "j = i") (auto simp: local_change_def)
  have join: "sender_of g j = T_join k" if "sender_of ?g j = T_join k" for j k using snd [of j] that by auto
  have len: "length (lives ?g) = length (lives g)" "table ?g = table g" by simp_all
  show "table_ok ?g"
    unfolding table_ok_def joins_ok_def len num
  proof (intro conjI allI impI, goal_cases)
    case (1 n j)
    then show ?case by (rule table_okD(1) [OF assms(1)])
  next
    case (2 n j)
    then show ?case by (rule table_okD(2) [OF assms(1)])
  next
    case (3 n j)
    then show ?case using snd [of j] table_okD(3) [OF assms(1) 3] by auto
  next
    case (4 j k)
    then show ?case by (rule table_okD(4) [OF assms(1)])
  next
    case (5 j k)
    then show ?case using table_okD(5) [OF assms(1) _ join] by blast
  next
    case (6 j k)
    then show ?case using table_okD(6) [OF assms(1) _ join] by blast
  next
    case (7 j k)
    then show ?case using table_okD(7) [OF assms(1) _ join] by blast
  next
    case (8 j k)
    then show ?case using join table_okD(8) [OF assms(1) 8(1) join [OF 8(2)] 8(3)] by blast
  qed
  show "awaited ?g k" if "awaited g k" using that join unfolding awaited_def len num by blast
qed

lemma session_step_local:
  assumes "session_step over e (lives g ! i) = Some c" "i < length (lives g)"
  shows "local_change i c g"
  using assms by (cases e) (auto simp: local_change_def split: if_splits)

lemma find_or_create_ok:
  assumes "table_ok g" "find_or_create n g = (i, g')"
  shows "table_ok g'" "i < length (lives g')" "awaited g k \<Longrightarrow> awaited g' k" "length (lives g) \<le> length (lives g')"
proof -
  have *: "table_ok g' \<and> i < length (lives g') \<and> (awaited g k \<longrightarrow> awaited g' k) \<and> length (lives g) \<le> length (lives g')"
  proof (cases "table g n")
    case (Some j)
    then show ?thesis using assms table_okD(1) [OF assms(1)] by (auto simp: find_or_create_def)
  next
    case None
    let ?m = "length (lives g)"
    have g': "lives g' = lives g @ [new_life n]" "table g' = (table g)(n \<mapsto> ?m)" "i = ?m"
      using assms(2) None by (auto simp: find_or_create_def)
    have old: "lives g' ! j = lives g ! j" if "j < ?m" for j using that by (simp add: g'(1) nth_append)
    have new: "lives g' ! ?m = new_life n" by (simp add: g'(1))
    have join: "j < ?m \<and> sender_of g j = T_join k" if "j < length (lives g')" "sender_of g' j = T_join k" for j k
      using that old [of j] new by (cases "j = ?m") (simp_all add: g'(1) new_life_def)
    have ok: "table_ok g'"
      unfolding table_ok_def joins_ok_def
    proof (intro conjI allI impI, goal_cases)
      case (1 n' j)
      then show ?case using table_okD(1) [OF assms(1), of n' j] by (auto simp: g' less_Suc_eq split: if_splits)
    next
      case (2 n' j)
      then show ?case using table_okD(1,2) [OF assms(1), of n' j] old [of j] new
        by (cases "n' = n") (simp_all add: g'(2) new_life_def)
    next
      case (3 n' j)
      then show ?case using table_okD(1,3) [OF assms(1), of n' j] old [of j] new
        by (cases "n' = n") (simp_all add: g'(2) new_life_def)
    next
      case (4 j k)
      show ?case
      proof (cases "j = ?m \<or> number_of g j = n")
        case True
        then have "number_of g' j = n" using 4(1) old new by (cases "j = ?m") (auto simp: g'(1) new_life_def less_Suc_eq)
        then show ?thesis using 4 by (simp add: g')
      next
        case False
        then have j: "j < ?m" using 4(1) by (simp add: g'(1))
        then show ?thesis using table_okD(4) [OF assms(1) j, of k] 4(2) old [OF j] False by (simp add: g'(2))
      qed
    next
      case (5 j k)
      note j = join [OF 5, THEN conjunct1] join [OF 5, THEN conjunct2]
      show ?case using table_okD(5) [OF assms(1) j] by (simp add: g'(1) less_Suc_eq)
    next
      case (6 j k)
      note j = join [OF 6, THEN conjunct1] join [OF 6, THEN conjunct2]
      have k: "k < ?m" using table_okD(5) [OF assms(1) j] .
      then show ?case using table_okD(6) [OF assms(1) j] old [OF k] by (simp add: g'(2))
    next
      case (7 j k)
      note j = join [OF 7, THEN conjunct1] join [OF 7, THEN conjunct2]
      show ?case using table_okD(7) [OF assms(1) j] .
    next
      case (8 j k)
      note j = join [OF 8(1,2), THEN conjunct1] join [OF 8(1,2), THEN conjunct2]
      have k: "k < ?m" using table_okD(5) [OF assms(1) j] .
      then show ?case using table_okD(8) [OF assms(1) j 8(3)] old [OF k] by simp
    qed
    have "awaited g' k" if "awaited g k"
      using awaitedD [OF that] old [OF awaitedD(1) [OF that]] by (simp add: awaited_def g'(1,2))
    then show ?thesis using ok by (simp add: g'(1,3))
  qed
  then show "table_ok g'" "i < length (lives g')" "awaited g k \<Longrightarrow> awaited g' k" "length (lives g) \<le> length (lives g')" by blast+
qed

lemma nth_update_same: "f x = f (xs ! i) \<Longrightarrow> f (xs[i := x] ! j) = f (xs ! j)"
  by (cases "i < length xs"; cases "i = j") (simp_all add: list_update_beyond)

lemma cancel_life_simps [simp]:
  "length (lives (cancel_life k g)) = length (lives g)" "table (cancel_life k g) = table g"
  "number_of (cancel_life k g) i = number_of g i" "sender_of (cancel_life k g) i = sender_of g i"
proof -
  show "length (lives (cancel_life k g)) = length (lives g)" "table (cancel_life k g) = table g"
    by (simp_all add: cancel_life_def)
  show "number_of (cancel_life k g) i = number_of g i" "sender_of (cancel_life k g) i = sender_of g i"
    unfolding cancel_life_def using nth_update_same [of number "(lives g ! k)\<lparr>cancelled := True\<rparr>" "lives g" k i]
      nth_update_same [of sender_at "(lives g ! k)\<lparr>cancelled := True\<rparr>" "lives g" k i] by simp_all
qed

lemma fold_cancel_simps [simp]:
  "length (lives (fold cancel_life ks g)) = length (lives g)" "table (fold cancel_life ks g) = table g"
  "number_of (fold cancel_life ks g) i = number_of g i" "sender_of (fold cancel_life ks g) i = sender_of g i"
  by (induction ks arbitrary: g) simp_all

lemma set_sender_simps [simp]:
  "length (lives (set_sender i pc g)) = length (lives g)" "table (set_sender i pc g) = table g"
  "number_of (set_sender i pc g) j = number_of g j"
  "i < length (lives g) \<Longrightarrow> sender_of (set_sender i pc g) j = (if j = i then pc else sender_of g j)"
proof -
  show "length (lives (set_sender i pc g)) = length (lives g)" "table (set_sender i pc g) = table g"
    by (simp_all add: set_sender_def)
  show "number_of (set_sender i pc g) j = number_of g j"
    unfolding set_sender_def using nth_update_same [of number "(lives g ! i)\<lparr>sender_at := pc\<rparr>" "lives g" i j] by simp
  show "i < length (lives g) \<Longrightarrow> sender_of (set_sender i pc g) j = (if j = i then pc else sender_of g j)"
    by (simp add: set_sender_def nth_list_update)
qed

lemma set_sender_ok:
  assumes "table_ok g" "i < length (lives g)" "\<not> joining pc"
  shows "table_ok (set_sender i pc g)" "awaited g k \<Longrightarrow> awaited (set_sender i pc g) k"
proof -
  have "local_change i ((lives g ! i)\<lparr>sender_at := pc\<rparr>) g" using assms(2,3) by (simp add: local_change_def)
  then show "table_ok (set_sender i pc g)" "awaited g k \<Longrightarrow> awaited (set_sender i pc g) k"
    unfolding set_sender_def using local_change_ok [OF assms(1)] by blast+
qed

lemma remove_numberD:
  assumes "remove_number n g = Some (k, g')"
  shows "table g n = Some k" "length (lives g') = length (lives g)" "table g' = (table g)(n := None)"
    and "number_of g' i = number_of g i" "sender_of g' i = sender_of g i"
  using assms by (auto simp: remove_number_def split: option.splits)

text \<open>Taking sessions out of the map.\<close>

lemma fewer_entries:
  assumes "table_ok g" "length (lives g') = length (lives g)" "\<And>i. number_of g' i = number_of g i"
    and "\<And>i. sender_of g' i = sender_of g i" "\<And>n i. table g' n = Some i \<Longrightarrow> table g n = Some i"
  shows "table_ok g'" "awaited g k \<Longrightarrow> awaited g' k"
proof -
  show "table_ok g'"
    unfolding table_ok_def joins_ok_def assms(2-4)
  proof (intro conjI allI impI, goal_cases)
    case (6 i k)
    then show ?case using table_okD(6) [OF assms(1) 6(1,2)] assms(5) by blast
  next
    case (8 i k)
    then show ?case using table_okD(8) [OF assms(1)] by blast
  qed (use table_okD(1-5,7) [OF assms(1)] assms(5) in blast)+
  show "awaited g' k" if "awaited g k" using that assms(5) unfolding awaited_def assms(2-4) by blast
qed

lemma remove_number_ok:
  assumes "table_ok g" "remove_number n g = Some (k, g')"
  shows "table_ok g'" "awaited g' k" "awaited g j \<Longrightarrow> awaited g' j"
proof -
  note d = remove_numberD [OF assms(2)]
  have sub: "table g' m = Some i \<Longrightarrow> table g m = Some i" for m i by (simp add: d(3) split: if_splits)
  show "table_ok g'" "awaited g j \<Longrightarrow> awaited g' j" using fewer_entries [OF assms(1) d(2,4,5) sub] by blast+
  have "sender_of g k \<noteq> T_join k" using table_okD(3) [OF assms(1) d(1)] by auto
  then show "awaited g' k" unfolding awaited_def d(2,4,5) using table_okD(1,2) [OF assms(1) d(1)] by (simp add: d(3))
qed

lemma sender_removes_ok:
  assumes "table_ok g" "sender_removes i g = Some g'"
  shows "table_ok g'" "awaited g k \<Longrightarrow> awaited g' k" "length (lives g') = length (lives g)"
proof -
  have i: "i < length (lives g)" "sender_of g i = T_remove"
    using assms(2) by (auto simp: sender_removes_def split: if_splits)
  let ?n = "number_of g i"
  have *: "table_ok g' \<and> (awaited g k \<longrightarrow> awaited g' k) \<and> length (lives g') = length (lives g)"
  proof (cases "remove_number ?n g")
    case None
    then have "g' = set_sender i T_select g" using assms(2) i by (simp add: sender_removes_def)
    then show ?thesis using set_sender_ok [OF assms(1) i(1)] by simp
  next
    case (Some x)
    then obtain j h where h: "remove_number ?n g = Some (j, h)" by (cases x) simp
    then have g': "g' = set_sender i (T_join j) h" using assms(2) i by (simp add: sender_removes_def)
    note d = remove_numberD [OF h]
    note ok = remove_number_ok [OF assms(1) h]
    have len: "length (lives g') = length (lives g)" by (simp add: g' d(2))
    have num: "number_of g' m = number_of g m" for m by (simp add: g' d(4))
    have snd: "sender_of g' m = (if m = i then T_join j else sender_of g m)" for m using i(1) by (simp add: g' d(2,5))
    have tab: "table g' = (table g)(?n := None)" by (simp add: g' d(3))
    have j: "j < length (lives g)" "number_of g j = ?n" "\<not> joining (sender_of g j)" "i \<le> j"
      using table_okD(1-3) [OF assms(1) d(1)] table_okD(4) [OF assms(1) i(1) d(1)] by simp_all
    have "table_ok g'"
      unfolding table_ok_def joins_ok_def len num
    proof (intro conjI allI impI, goal_cases)
      case (1 n m)
      then show ?case using table_okD(1) [OF assms(1), of n m] by (simp add: tab split: if_splits)
    next
      case (2 n m)
      then show ?case using table_okD(2) [OF assms(1), of n m] by (simp add: tab split: if_splits)
    next
      case (3 n m)
      then have "table g n = Some m" "n \<noteq> ?n" by (simp_all add: tab split: if_splits)
      then show ?case using table_okD(2,3) [OF assms(1), of n m] by (auto simp: snd)
    next
      case (4 m l)
      then show ?case using table_okD(4) [OF assms(1) 4(1), of l] by (simp add: tab split: if_splits)
    next
      case (5 m l)
      then show ?case using table_okD(5) [OF assms(1) 5(1), of l] j(1) by (simp add: snd split: if_splits)
    next
      case (6 m l)
      then show ?case using table_okD(6) [OF assms(1) 6(1), of l] j(2) by (auto simp: snd tab split: if_splits)
    next
      case (7 m l)
      then show ?case using table_okD(7) [OF assms(1) 7(1), of l] j(4) by (auto simp: snd split: if_splits)
    next
      case (8 m l)
      show ?case
      proof (cases "m = i")
        case True
        then show ?thesis using 8 j(3) by (auto simp: snd split: if_splits)
      next
        case False
        then have m: "sender_of g m = T_join l" using 8(2) by (simp add: snd)
        have "l = i \<Longrightarrow> j \<noteq> l" using table_okD(6) [OF assms(1) 8(1) m] d(1) j(2) by auto
        then show ?thesis using table_okD(8) [OF assms(1) 8(1) m 8(3)] by (auto simp: snd)
      qed
    qed
    moreover have "awaited g' k" if a: "awaited g k"
    proof -
      have "k = i \<Longrightarrow> j \<noteq> k" using awaitedD(2) [OF a] d(1) by auto
      then show ?thesis using awaitedD [OF a] unfolding awaited_def len num by (auto simp: snd tab)
    qed
    ultimately show ?thesis using len by blast
  qed
  then show "table_ok g'" "awaited g k \<Longrightarrow> awaited g' k" "length (lives g') = length (lives g)" by blast+
qed

lemma sender_joined_ok:
  assumes "table_ok g" "sender_joined i g = Some g'"
  shows "table_ok g'" "awaited g k \<Longrightarrow> awaited g' k" "length (lives g') = length (lives g)"
  using assms set_sender_ok [OF assms(1), of i T_select] by (auto simp: sender_joined_def split: if_splits sender_pc.splits)

lemma remove_all_ok:
  assumes "table_ok g" "remove_all g = (ks, g')"
  shows "table_ok g'" "awaited g k \<Longrightarrow> awaited g' k" "length (lives g') = length (lives g)" "table g' = Map.empty"
    and "k \<in> set ks \<Longrightarrow> k < length (lives g') \<and> \<not> joining (sender_of g' k)"
proof -
  have g': "g' = fold cancel_life ks g \<lparr>table := Map.empty\<rparr>" "ks = filter (in_table g) [0..<length (lives g)]"
    using assms(2) by (auto simp: remove_all_def Let_def)
  show "table_ok g'" "awaited g k \<Longrightarrow> awaited g' k"
    using fewer_entries [OF assms(1), of g'] by (simp_all add: g'(1))
  show "length (lives g') = length (lives g)" "table g' = Map.empty" by (simp_all add: g'(1))
  show "k \<in> set ks \<Longrightarrow> k < length (lives g') \<and> \<not> joining (sender_of g' k)"
    using table_okD(3) [OF assms(1)] by (auto simp: g' in_table_def)
qed

text \<open>A goroutine of a datagram.\<close>

fun message_ok :: "message_pc \<Rightarrow> session_table \<Rightarrow> bool" where
  "message_ok (M_new m) g = True"
| "message_ok (M_found i m) g = (i < length (lives g))"
| "message_ok (M_data i) g = (i < length (lives g))"
| "message_ok (M_copy i) g = (i < length (lives g))"
| "message_ok (M_push i) g = (i < length (lives g))"
| "message_ok (M_ack i) g = (i < length (lives g))"
| "message_ok (M_remove i) g = (i < length (lives g))"
| "message_ok (M_join k) g = awaited g k"
| "message_ok M_over g = True"

text \<open>Later tables: sessions are only added, and who is awaited stays so.\<close>

definition later :: "session_table \<Rightarrow> session_table \<Rightarrow> bool" where
  "later g g' \<longleftrightarrow> length (lives g) \<le> length (lives g') \<and> (\<forall>k. awaited g k \<longrightarrow> awaited g' k)"

lemma later_refl [simp]: "later g g" by (simp add: later_def)

lemma message_ok_later: "message_ok pc g \<Longrightarrow> later g g' \<Longrightarrow> message_ok pc g'"
  by (cases pc) (auto simp: later_def)

lemma local_change_later: "table_ok g \<Longrightarrow> local_change i c g \<Longrightarrow> later g (g\<lparr>lives := (lives g)[i := c]\<rparr>)"
  using local_change_ok by (simp add: later_def)

lemma judge_ok: "judge i m v = Some pc \<Longrightarrow> i < length (lives g) \<Longrightarrow> message_ok pc g"
  by (induction i m v rule: judge.induct) auto

lemma message_step_ok:
  assumes "table_ok g" "message_ok pc g" "message_step locked over busy e pc g = Some (pc', g')"
  shows "table_ok g' \<and> message_ok pc' g' \<and> later g g'"
proof (cases e)
  case Find
  then obtain m where pc: "pc = M_new m" using assms(3) by (cases pc) auto
  show ?thesis
  proof (cases "\<exists>n. m = MessageConnect n")
    case True
    then obtain n where m: "m = MessageConnect n" by blast
    obtain i h where h: "find_or_create n g = (i, h)" by fastforce
    then show ?thesis
      using assms(3) find_or_create_ok [OF assms(1) h] Find pc m by (auto simp: later_def split: if_splits)
  next
    case False
    then have "g' = g \<and> (pc' = M_over \<or> (\<exists>i. table g (session_number m) = Some i \<and> pc' = M_found i m))"
      using assms(3) Find pc by (cases m) (auto split: if_splits option.splits)
    then show ?thesis using assms(1) table_okD(1) [OF assms(1)] by auto
  qed
next
  case (Judge v)
  then show ?thesis using assms judge_ok by (cases pc) auto
next
  case Push_line
  then obtain i where i: "pc = M_push i" using assms(3) by (cases pc) auto
  let ?c = "(lives g ! i)\<lparr>inq := Suc (inq (lives g ! i))\<rparr>"
  have lc: "local_change i ?c g" using assms(2) i by (simp add: local_change_def)
  have g': "g' = g\<lparr>lives := (lives g)[i := ?c]\<rparr>" "pc' = M_copy i"
    using assms(3) i Push_line by (auto split: if_splits)
  show ?thesis using local_change_ok(1) [OF assms(1) lc] local_change_later [OF assms(1) lc] assms(2) i by (simp add: g')
next
  case Give_ack
  then obtain i where i: "pc = M_ack i" using assms(3) by (cases pc) auto
  then have "g' = set_sender i T_loop g" "pc' = M_over" using assms(3) Give_ack by (auto split: if_splits)
  then show ?thesis using set_sender_ok [OF assms(1), of i T_loop] assms(2) i by (simp add: later_def)
next
  case Remove_session
  then obtain i where i: "pc = M_remove i" using assms(3) by (cases pc) auto
  show ?thesis
  proof (cases "remove_number (number_of g i) g")
    case None
    then show ?thesis using assms(1,3) i Remove_session by (auto split: if_splits)
  next
    case (Some x)
    then obtain k h where h: "remove_number (number_of g i) g = Some (k, h)" by (cases x) simp
    then have "g' = h" "pc' = M_join k" using assms(3) i Remove_session by (auto split: if_splits)
    then show ?thesis using remove_number_ok [OF assms(1) h] remove_numberD(2) [OF h] by (simp add: later_def)
  qed
qed (use assms in \<open>cases pc; auto split: if_splits\<close>)+

section \<open>The server keeps its invariant\<close>

text \<open>
  The phases of \<open>Listen\<close>, as implications; the sessions that \<open>Shutdown\<close> waits for are in no map and do not
  wait for any other.
\<close>

fun serving :: "udp_listen \<Rightarrow> bool" where
  "serving (U_serving e) = True"
| "serving _ = False"

fun returned :: "udp_listen \<Rightarrow> bool" where
  "returned (U_returned e) = True"
| "returned _ = False"

definition shutting_ok :: "udp_shutdown \<Rightarrow> session_table \<Rightarrow> bool" where
  "shutting_ok h g \<longleftrightarrow>
     (\<forall>ks. h = H_sessions ks \<longrightarrow> table g = Map.empty \<and> (\<forall>k\<in>set ks. k < length (lives g) \<and> \<not> joining (sender_of g k)))"

definition all_over :: "lrcp_server \<Rightarrow> bool" where
  "all_over s \<longleftrightarrow> list_all (\<lambda>m. m = M_over) (messages s)"

definition udp_inv :: "lrcp_server \<Rightarrow> bool" where
  "udp_inv s \<longleftrightarrow>
     table_ok (table_of s) \<and> list_all (\<lambda>m. message_ok m (table_of s)) (messages s) \<and> shutting_ok (shutting s) (table_of s) \<and>
     (returned (listening s) \<longrightarrow> stopped s \<and> server_over s \<and> \<not> closing s \<and> (receiver s = R_none \<or> receiver s = R_over)) \<and>
     (stopped s \<longrightarrow> returned (listening s)) \<and>
     (closing s \<longrightarrow> conn_open s \<and> (listening s = U_bound \<or> serving (listening s))) \<and>
     (conn_open s \<longrightarrow> closing s) \<and>
     (listening s = U_bound \<and> \<not> closing s \<longrightarrow> server_over s) \<and>
     (serving (listening s) \<longrightarrow> receiver s \<noteq> R_none) \<and>
     (receiver s \<noteq> R_none \<longrightarrow> serving (listening s) \<or> returned (listening s)) \<and>
     (receiver s = R_over \<longrightarrow> server_over s) \<and>
     (receiver s = R_none \<or> receiver s = R_over \<longrightarrow> all_over s) \<and>
     (server_over s \<longrightarrow> has_cancel s) \<and>
     (is_locked s \<longrightarrow> receiver s \<noteq> R_none \<and> server_over s) \<and>
     (shutting s \<noteq> H_idle \<and> \<not> (\<exists>e. shutting s = H_returned e) \<longrightarrow> listening s \<noteq> U_idle)"

lemma udp_invD:
  assumes "udp_inv s"
  shows "table_ok (table_of s)" "list_all (\<lambda>m. message_ok m (table_of s)) (messages s)" "shutting_ok (shutting s) (table_of s)"
    and "returned (listening s) \<Longrightarrow> stopped s \<and> server_over s \<and> \<not> closing s" "stopped s \<Longrightarrow> returned (listening s)"
    and "returned (listening s) \<Longrightarrow> receiver s = R_none \<or> receiver s = R_over"
    and "closing s \<Longrightarrow> conn_open s" "conn_open s \<Longrightarrow> closing s" "serving (listening s) \<Longrightarrow> receiver s \<noteq> R_none"
    and "receiver s \<noteq> R_none \<Longrightarrow> serving (listening s) \<or> returned (listening s)"
    and "receiver s = R_none \<or> receiver s = R_over \<Longrightarrow> all_over s"
    and "server_over s \<Longrightarrow> has_cancel s" "is_locked s \<Longrightarrow> receiver s \<noteq> R_none \<and> server_over s"
  using assms unfolding udp_inv_def by blast+

lemma udp_inv_New: "udp_inv NewServer"
  by (simp add: udp_inv_def NewServer_def table_ok_def joins_ok_def shutting_ok_def all_over_def)

text \<open>A step that changes the table and one of the goroutines of datagrams only.\<close>

lemma udp_inv_table:
  assumes "udp_inv s" "table_ok g" "later (table_of s) g" "shutting_ok (shutting s) g"
  shows "udp_inv (s\<lparr>table_of := g\<rparr>)"
proof -
  have "list_all (\<lambda>m. message_ok m g) (messages s)"
    using udp_invD(2) [OF assms(1)] message_ok_later [OF _ assms(3)] by (auto simp: list_all_iff)
  then show ?thesis
    using assms(1,2,4) unfolding udp_inv_def all_over_def has_cancel_def by (elim conjE, intro conjI) simp_all
qed

lemma udp_inv_message:
  assumes "udp_inv s" "j < length (messages s)" "message_ok pc (table_of s)" "messages s ! j \<noteq> M_over"
  shows "udp_inv (s\<lparr>messages := (messages s)[j := pc]\<rparr>)"
proof -
  have "list_all (\<lambda>m. message_ok m (table_of s)) ((messages s)[j := pc])"
    using list_all_update [OF udp_invD(2) [OF assms(1)], of pc] assms(3) by simp
  moreover have "\<not> all_over s" using assms(2,4) by (auto simp: all_over_def list_all_length)
  then have "receiver s \<noteq> R_none" "receiver s \<noteq> R_over" using udp_invD(11) [OF assms(1)] by blast+
  ultimately show ?thesis
    using assms(1) unfolding udp_inv_def has_cancel_def by (elim conjE, intro conjI) simp_all
qed

text \<open>Each kind of step.\<close>

lemma shutting_ok_later:
  assumes "shutting_ok h g" "later g g'" "table g' = table g" "\<And>k. \<not> joining (sender_of g k) \<Longrightarrow> \<not> joining (sender_of g' k)"
  shows "shutting_ok h g'"
  using assms unfolding shutting_ok_def later_def by (metis order_less_le_trans)

lemma udp_step_message:
  assumes "udp_inv s" "udp_step (Message j e) s = Some t"
  shows "udp_inv t"
proof -
  obtain pc g where j: "j < length (messages s)"
      and st: "message_step (is_locked s) (server_over s) (copying s) e (messages s ! j) (table_of s) = Some (pc, g)"
      and t: "t = s\<lparr>table_of := g, messages := (messages s)[j := pc]\<rparr>"
    using assms(2) by (auto split: if_splits)
  have pre: "table_ok (table_of s)" "message_ok (messages s ! j) (table_of s)"
    using udp_invD(1,2) [OF assms(1)] j by (simp_all add: list_all_length)
  note post = message_step_ok [OF pre st]
  have "shutting_ok (shutting s) g"
  proof (cases "is_locked s")
    case False
    then show ?thesis by (cases "shutting s") (simp_all add: shutting_ok_def)
  next
    case True
    have "table g = table (table_of s) \<and> (\<forall>k. \<not> joining (sender_of (table_of s) k) \<longrightarrow> \<not> joining (sender_of g k))"
      using st True pre(2)
      by (cases e; cases "messages s ! j") (auto split: if_splits simp: nth_list_update)
    then show ?thesis using shutting_ok_later udp_invD(3) [OF assms(1)] post by blast
  qed
  then have "udp_inv (s\<lparr>table_of := g\<rparr>)" using udp_inv_table [OF assms(1)] post by blast
  moreover have "messages s ! j \<noteq> M_over" using st by (cases e) auto
  ultimately have "udp_inv (s\<lparr>table_of := g\<rparr>\<lparr>messages := (messages s)[j := pc]\<rparr>)"
    using udp_inv_message [of "s\<lparr>table_of := g\<rparr>" j pc] j post by simp
  then show ?thesis using t by simp
qed

lemma udp_step_sessions:
  assumes "udp_inv s" "udp_step a s = Some t"
    and "(\<exists>i e. a = Session i e) \<or> (\<exists>i. a = Sender_removes i) \<or> (\<exists>i. a = Sender_joined i)"
  shows "udp_inv t"
proof -
  let ?g = "table_of s"
  note tab = udp_invD(1) [OF assms(1)] and shut = udp_invD(3) [OF assms(1)]
  have free: "shutting_ok (shutting s) g" if "\<not> is_locked s" for g
    using that by (cases "shutting s") (simp_all add: shutting_ok_def)
  consider (session) i e where "a = Session i e" | (removes) i where "a = Sender_removes i" | (joined) i where "a = Sender_joined i"
    using assms(3) by blast
  then show ?thesis
  proof cases
    case session
    then obtain c where c: "i < length (lives ?g)" "session_step (ctx_done (server_over s) ?g i) e (lives ?g ! i) = Some c"
      "t = s\<lparr>table_of := ?g\<lparr>lives := (lives ?g)[i := c]\<rparr>\<rparr>"
      using assms(2) by (auto simp: Let_def split: if_splits)
    note lc = session_step_local [OF c(2,1)]
    have "\<not> joining (sender_at c)" if "\<not> joining (sender_of ?g i)" using lc that by (auto simp: local_change_def)
    then have "\<not> joining (sender_of (?g\<lparr>lives := (lives ?g)[i := c]\<rparr>) k)" if "\<not> joining (sender_of ?g k)" for k
      using that c(1) by (cases "k = i") simp_all
    then have "shutting_ok (shutting s) (?g\<lparr>lives := (lives ?g)[i := c]\<rparr>)"
      using shutting_ok_later [OF shut local_change_later [OF tab lc]] by simp
    then show ?thesis
      using udp_inv_table [OF assms(1) local_change_ok(1) [OF tab lc] local_change_later [OF tab lc]] c(3) by simp
  next
    case removes
    then obtain g where g: "sender_removes i ?g = Some g" "t = s\<lparr>table_of := g\<rparr>" "\<not> is_locked s"
      using assms(2) by (auto split: if_splits)
    then show ?thesis
      using udp_inv_table [OF assms(1) sender_removes_ok(1) [OF tab g(1)]] sender_removes_ok(2,3) [OF tab g(1)] free
      by (simp add: later_def)
  next
    case joined
    then obtain g where g: "sender_joined i ?g = Some g" "t = s\<lparr>table_of := g\<rparr>" using assms(2) by auto
    have i: "i < length (lives ?g)" "g = set_sender i T_select ?g"
      using g(1) by (auto simp: sender_joined_def split: if_splits sender_pc.splits)
    have la: "later ?g g" using sender_joined_ok(2,3) [OF tab g(1)] by (simp add: later_def)
    have "shutting_ok (shutting s) g" using shutting_ok_later [OF shut la] i by simp
    then show ?thesis using udp_inv_table [OF assms(1) sender_joined_ok(1) [OF tab g(1)] la] g(2) by simp
  qed
qed

lemma udp_inv_shut:
  assumes "udp_inv s" "shutting_ok h (table_of s)" "locked_by h \<Longrightarrow> receiver s \<noteq> R_none \<and> server_over s"
    and "h \<noteq> H_idle \<and> \<not> (\<exists>e. h = H_returned e) \<longrightarrow> listening s \<noteq> U_idle"
  shows "udp_inv (s\<lparr>shutting := h\<rparr>)"
  using assms(1) assms(2-4) unfolding udp_inv_def all_over_def has_cancel_def by (elim conjE, intro conjI) simp_all

lemma udp_inv_shutting:
  assumes "udp_inv s" "\<not> locked_by h" "h \<noteq> H_idle \<and> \<not> (\<exists>e. h = H_returned e) \<longrightarrow> listening s \<noteq> U_idle"
  shows "udp_inv (s\<lparr>shutting := h\<rparr>)"
proof -
  have "shutting_ok h (table_of s)" using assms(2) by (cases h) (simp_all add: shutting_ok_def)
  then show ?thesis using udp_inv_shut [OF assms(1)] assms(2,3) by blast
qed

lemma udp_inv_cancel: "udp_inv s \<Longrightarrow> has_cancel s \<Longrightarrow> udp_inv (s\<lparr>server_over := True\<rparr>)"
  unfolding udp_inv_def all_over_def has_cancel_def by (elim conjE, intro conjI) simp_all

lemma udp_step_shutdown:
  assumes "udp_inv s" "udp_step Shutdown_locks s = Some t"
  shows "udp_inv t"
proof -
  have h: "shutting s = H_lock" using assms(2) by (simp split: if_splits)
  have run: "listening s \<noteq> U_idle" using assms(1) h by (simp add: udp_inv_def)
  define u where "u = s\<lparr>server_over := server_over s \<or> has_cancel s\<rparr>"
  have u: "udp_inv u" "listening u = listening s" "receiver u = receiver s" "table_of u = table_of s" "shutting u = H_lock"
    "has_cancel s \<Longrightarrow> server_over u"
    using assms(1) udp_inv_cancel [OF assms(1)] udp_invD(12) [OF assms(1)] h by (cases "has_cancel s"; simp add: u_def)+
  show ?thesis
  proof (cases "has_manager s")
    case False
    then have "t = u\<lparr>shutting := H_await\<rparr>" using assms(2) h by (simp add: Let_def u_def)
    then show ?thesis using udp_inv_shutting [OF u(1), of H_await] u(2) run by simp
  next
    case True
    obtain ks g where g: "remove_all (table_of s) = (ks, g)" by fastforce
    then have t: "t = u\<lparr>table_of := g\<rparr>\<lparr>shutting := H_sessions ks\<rparr>"
      using assms(2) h True by (simp add: Let_def u_def)
    note ok = remove_all_ok [OF udp_invD(1) [OF assms(1)] g]
    have "later (table_of u) g" using ok(2,3) u(4) by (simp add: later_def)
    moreover have "shutting_ok H_lock g" by (simp add: shutting_ok_def)
    ultimately have v: "udp_inv (u\<lparr>table_of := g\<rparr>)" using udp_inv_table [OF u(1) ok(1)] u(5) by simp
    have r: "receiver s \<noteq> R_none" using True by (simp add: has_manager_def)
    then have "has_cancel s" using udp_invD(10) [OF assms(1)] by (cases "listening s") (auto simp: has_cancel_def)
    moreover have "shutting_ok (H_sessions ks) g" using ok(4,5) by (simp add: shutting_ok_def)
    ultimately show ?thesis using udp_inv_shut [OF v, of "H_sessions ks"] u r run by (simp add: t)
  qed
qed

lemma udp_step_other:
  assumes "udp_inv s" "udp_step a s = Some t"
    and "a \<in> {Call_Listen, Set_cancel, Set_manager, Closer_wakes, Check, Read_closed, Read_fails, Error_taken, Receiver_ends,
        Listen_ends, Call_Shutdown, Sessions_over, Gives_up, Shutdown_returns} \<or> (\<exists>b. a = Listen_UDP b) \<or> (\<exists>m. a = Datagram m)"
  shows "udp_inv t"
proof -
  note defs = udp_inv_def all_over_def has_cancel_def shutting_ok_def
  have free: "is_locked s \<Longrightarrow> receiver s \<noteq> R_none" "is_locked s \<Longrightarrow> server_over s" using udp_invD(13) [OF assms(1)] by blast+
  show ?thesis
    using assms
  proof (cases a)
    case Call_Listen
    then show ?thesis using assms by (cases "listening s") (auto simp: defs)
  next
    case Set_cancel
    then show ?thesis using assms by (cases "listening s") (auto simp: defs split: if_splits)
  next
    case (Listen_UDP b)
    then show ?thesis using assms by (cases "listening s"; cases b) (auto simp: defs split: if_splits)
  next
    case Set_manager
    then show ?thesis using assms by (cases "listening s") (auto simp: defs split: if_splits)
  next
    case Closer_wakes
    then show ?thesis using assms by (cases "listening s") (auto simp: defs split: if_splits)
  next
    case Check
    then show ?thesis using assms by (cases "listening s") (auto simp: defs split: if_splits)
  next
    case (Datagram m)
    then show ?thesis using assms by (cases "listening s"; cases m) (auto simp: defs split: if_splits)
  next
    case Read_closed
    then show ?thesis using assms by (cases "listening s") (auto simp: defs split: if_splits)
  next
    case Read_fails
    then show ?thesis using assms by (cases "listening s") (auto simp: defs split: if_splits)
  next
    case Error_taken
    then show ?thesis using assms by (cases "listening s") (auto simp: defs split: if_splits)
  next
    case Receiver_ends
    then show ?thesis using assms by (cases "listening s") (auto simp: defs split: if_splits)
  next
    case Listen_ends
    then show ?thesis using assms by (cases "listening s") (auto simp: defs split: if_splits)
  next
    case Call_Shutdown
    then obtain h where "t = s\<lparr>shutting := h\<rparr>" "\<not> locked_by h" "h = H_lock \<longrightarrow> listening s \<noteq> U_idle" "h \<noteq> H_await"
      using assms(2) by (cases "shutting s") auto
    then show ?thesis using udp_inv_shutting [OF assms(1)] by (cases h) auto
  next
    case Sessions_over
    then have "t = s\<lparr>shutting := H_await\<rparr>" "\<exists>ks. shutting s = H_sessions ks"
      using assms(2) by (cases "shutting s"; simp split: if_splits)+
    moreover have "listening s \<noteq> U_idle" if "shutting s = H_sessions ks" for ks
      using udp_invD(10,13) [OF assms(1)] that by (cases "listening s") auto
    ultimately show ?thesis using udp_inv_shutting [OF assms(1), of H_await] by auto
  next
    case Gives_up
    then show ?thesis using assms(2) udp_inv_shutting [OF assms(1), of "H_returned (Some ErrContext)"] by (auto split: if_splits)
  next
    case Shutdown_returns
    then show ?thesis using assms(2) udp_inv_shutting [OF assms(1), of "H_returned None"] by (auto split: if_splits)
  qed auto
qed

lemma udp_step_inv: "udp_inv s \<Longrightarrow> udp_step a s = Some t \<Longrightarrow> udp_inv t"
proof (cases a)
  case (Message j e)
  assume "udp_inv s" "udp_step a s = Some t"
  then show ?thesis using udp_step_message Message by blast
next
  case Shutdown_locks
  assume "udp_inv s" "udp_step a s = Some t"
  then show ?thesis using udp_step_shutdown Shutdown_locks by blast
qed (erule udp_step_sessions udp_step_other, assumption, simp)+

interpretation udp: guarded_system udp_step "\<lambda>a. True" udp_inv
  by unfold_locales (rule udp_step_inv)

lemma udp_reachable: "run_steps udp_step as NewServer = Some s \<Longrightarrow> udp_inv s"
  using udp.run_keeps [OF udp_inv_New] by (simp add: list_all_iff)

end
