(* ===== verification/LrcpLifecycle.thy ===== *)
theory LrcpLifecycle
  imports LrcpServer
begin

text \<open>
  The end of the line reversal server: once its context is cancelled, every step of its goroutines makes a
  weight smaller, and some step can be taken until everything has stopped, so that every schedule ends; the
  one way to get stuck, and what goes wrong when \<open>Shutdown\<close> or an ack comes at the wrong time.
\<close>

section \<open>A weight\<close>

fun worker_weight :: "worker_pc \<Rightarrow> nat" where
  "worker_weight W_handle = 5"
| "worker_weight W_put = 4"
| "worker_weight W_select = 1"
| "worker_weight W_over = 0"

fun sender_weight :: "sender_pc \<Rightarrow> nat" where
  "sender_weight T_wait = 4"
| "sender_weight T_remove = 3"
| "sender_weight (T_join k) = 2"
| "sender_weight T_loop = 2"
| "sender_weight T_select = 1"
| "sender_weight T_over = 0"

definition life_weight :: "session_life \<Rightarrow> nat" where
  "life_weight c = 5 * inq c + 2 * outq c + worker_weight (worker_at c) + sender_weight (sender_at c)"

definition table_weight :: "session_table \<Rightarrow> nat" where
  "table_weight g = sum_list (map life_weight (lives g))"

fun message_weight :: "message_pc \<Rightarrow> nat" where
  "message_weight (M_new m) = 11"
| "message_weight (M_found i m) = 8"
| "message_weight (M_data i) = 2"
| "message_weight (M_copy i) = 1"
| "message_weight (M_push i) = 7"
| "message_weight (M_ack i) = 1"
| "message_weight (M_remove i) = 2"
| "message_weight (M_join k) = 1"
| "message_weight M_over = 0"

fun udp_listen_weight :: "udp_listen \<Rightarrow> nat" where
  "udp_listen_weight U_idle = 0"
| "udp_listen_weight U_entered = 8"
| "udp_listen_weight U_cancellable = 7"
| "udp_listen_weight U_bound = 4"
| "udp_listen_weight (U_serving e) = 1"
| "udp_listen_weight (U_returned e) = 0"

fun receiver_weight :: "receiver_pc \<Rightarrow> nat" where
  "receiver_weight R_read = 3"
| "receiver_weight R_check = 2"
| "receiver_weight R_error = 2"
| "receiver_weight R_join = 1"
| "receiver_weight _ = 0"

fun shutdown_weight :: "udp_shutdown \<Rightarrow> nat" where
  "shutdown_weight H_lock = 3"
| "shutdown_weight (H_sessions ks) = 2"
| "shutdown_weight H_await = 1"
| "shutdown_weight _ = 0"

definition udp_weight :: "lrcp_server \<Rightarrow> nat" where
  "udp_weight s =
     udp_listen_weight (listening s) + (if closing s then 1 else 0) + receiver_weight (receiver s) +
     sum_list (map message_weight (messages s)) + table_weight (table_of s) + shutdown_weight (shutting s)"

lemma table_weight_update:
  "i < length (lives g) \<Longrightarrow>
   table_weight (g\<lparr>lives := (lives g)[i := c]\<rparr>) + life_weight (lives g ! i) = table_weight g + life_weight c"
  using sum_list_map_update [of i "lives g" life_weight c] by (simp add: table_weight_def)

lemma session_lighter: "session_step True e c = Some d \<Longrightarrow> life_weight d < life_weight c"
  by (cases e) (auto simp: life_weight_def split: if_splits)

lemma set_sender_weight:
  assumes "i < length (lives g)"
  shows "table_weight (set_sender i pc g) + life_weight (lives g ! i) =
    table_weight g + life_weight ((lives g ! i)\<lparr>sender_at := pc\<rparr>)"
  using table_weight_update [OF assms] by (simp add: set_sender_def)

lemma set_sender_lighter:
  assumes "i < length (lives g)" "life_weight ((lives g ! i)\<lparr>sender_at := pc\<rparr>) < life_weight (lives g ! i)"
  shows "table_weight (set_sender i pc g) < table_weight g"
  using set_sender_weight [OF assms(1), of pc] assms(2) by linarith

lemma cancel_life_weight: "table_weight (cancel_life k g) = table_weight g"
proof (cases "k < length (lives g)")
  case True
  have "life_weight ((lives g ! k)\<lparr>cancelled := True\<rparr>) = life_weight (lives g ! k)" by (simp add: life_weight_def)
  then show ?thesis using table_weight_update [OF True, of "(lives g ! k)\<lparr>cancelled := True\<rparr>"] by (simp add: cancel_life_def)
next
  case False
  then show ?thesis by (simp add: cancel_life_def list_update_beyond)
qed

lemma remove_number_weight: "remove_number n g = Some (k, g') \<Longrightarrow> table_weight g' = table_weight g"
  by (auto simp: remove_number_def cancel_life_weight split: option.splits) (simp add: table_weight_def)

lemma remove_all_weight: "remove_all g = (ks, g') \<Longrightarrow> table_weight g' = table_weight g"
proof -
  have "table_weight (fold cancel_life ls g) = table_weight g" for ls
    by (induction ls arbitrary: g) (simp_all add: cancel_life_weight)
  then show "remove_all g = (ks, g') \<Longrightarrow> table_weight g' = table_weight g"
    by (auto simp: remove_all_def Let_def table_weight_def)
qed

lemma sender_removes_lighter:
  assumes "sender_removes i g = Some g'"
  shows "table_weight g' < table_weight g"
proof -
  have i: "i < length (lives g)" "sender_of g i = T_remove"
    using assms by (auto simp: sender_removes_def split: if_splits)
  show ?thesis
  proof (cases "remove_number (number_of g i) g")
    case None
    then show ?thesis using assms i set_sender_lighter [OF i(1), of T_select]
      by (simp add: sender_removes_def life_weight_def)
  next
    case (Some x)
    then obtain k h where h: "remove_number (number_of g i) g = Some (k, h)" by (cases x) simp
    note d = remove_numberD [OF h]
    have ih: "i < length (lives h)" "sender_of h i = T_remove" using i d(2,5) by simp_all
    have "g' = set_sender i (T_join k) h" using assms i h by (simp add: sender_removes_def)
    then show ?thesis using set_sender_lighter [OF ih(1), of "T_join k"] ih(2) remove_number_weight [OF h]
      by (simp add: life_weight_def)
  qed
qed

lemma sender_joined_lighter: "sender_joined i g = Some g' \<Longrightarrow> table_weight g' < table_weight g"
  using set_sender_lighter [of i g T_select]
  by (auto simp: sender_joined_def life_weight_def split: if_splits sender_pc.splits)

lemma judge_lighter: "judge i m v = Some pc \<Longrightarrow> message_weight pc < 8"
  by (induction i m v rule: judge.induct) auto

lemma message_lighter:
  assumes "message_ok pc g" "message_step locked True busy e pc g = Some (pc', g')"
  shows "message_weight pc' + table_weight g' < message_weight pc + table_weight g"
proof (cases e)
  case Find
  then obtain m where pc: "pc = M_new m" using assms(2) by (cases pc) auto
  have new: "table_weight h \<le> table_weight g + 2" if "find_or_create n g = (i, h)" for n i h
    using that by (auto simp: find_or_create_def table_weight_def life_weight_def new_life_def split: option.splits)
  have "table_weight g' \<le> table_weight g + 2 \<and> message_weight pc' \<le> 8"
    using assms(2) Find pc new by (cases m) (fastforce split: if_splits option.splits prod.splits)+
  then show ?thesis using pc by simp
next
  case (Judge v)
  then show ?thesis using assms(2) judge_lighter by (cases pc) auto
next
  case Push_line
  then obtain i where i: "pc = M_push i" using assms(2) by (cases pc) auto
  let ?c = "(lives g ! i)\<lparr>inq := Suc (inq (lives g ! i))\<rparr>"
  have "life_weight ?c = life_weight (lives g ! i) + 5" by (simp add: life_weight_def)
  then show ?thesis
    using table_weight_update [of i g ?c] assms i Push_line by (auto split: if_splits)
next
  case Give_ack
  then obtain i where i: "pc = M_ack i" using assms(2) by (cases pc) auto
  then have "sender_of g i = T_wait" "g' = set_sender i T_loop g" "pc' = M_over" using assms(2) Give_ack by (auto split: if_splits)
  then show ?thesis using set_sender_lighter [of i g T_loop] assms(1) i by (simp add: life_weight_def)
next
  case Remove_session
  then obtain i where i: "pc = M_remove i" using assms(2) by (cases pc) auto
  then show ?thesis using assms(2) Remove_session remove_number_weight by (fastforce split: if_splits option.splits)
qed (use assms(2) in \<open>cases pc; auto simp: ctx_done_def split: if_splits\<close>)+

lemma udp_lighter:
  assumes "udp_inv s" "server_over s" "udp_own a" "udp_step a s = Some t"
  shows "udp_weight t < udp_weight s"
proof (cases a)
  case (Message j e)
  then obtain pc g where j: "j < length (messages s)"
      and st: "message_step (is_locked s) True (copying s) e (messages s ! j) (table_of s) = Some (pc, g)"
      and t: "t = s\<lparr>table_of := g, messages := (messages s)[j := pc]\<rparr>"
    using assms(2,4) by (auto split: if_splits)
  have "message_ok (messages s ! j) (table_of s)" using udp_invD(2) [OF assms(1)] j by (simp add: list_all_length)
  from message_lighter [OF this st] sum_list_map_update [OF j, of message_weight pc] show ?thesis by (simp add: t udp_weight_def)
next
  case (Session i e)
  let ?g = "table_of s"
  obtain c where c: "i < length (lives ?g)" "session_step True e (lives ?g ! i) = Some c"
      "t = s\<lparr>table_of := ?g\<lparr>lives := (lives ?g)[i := c]\<rparr>\<rparr>"
    using assms(2,4) Session by (auto simp: Let_def ctx_done_def split: if_splits)
  then show ?thesis using table_weight_update [OF c(1), of c] session_lighter [OF c(2)] by (simp add: udp_weight_def)
next
  case (Sender_removes i)
  then show ?thesis using assms(4) sender_removes_lighter by (auto simp: udp_weight_def split: if_splits)
next
  case (Sender_joined i)
  then show ?thesis using assms(4) sender_joined_lighter by (auto simp: udp_weight_def)
next
  case Shutdown_locks
  obtain ks g where "remove_all (table_of s) = (ks, g)" by fastforce
  then show ?thesis
    using Shutdown_locks assms(4) remove_all_weight by (auto simp: udp_weight_def Let_def split: if_splits)
next
  case (Listen_UDP b)
  have "\<not> closing s" if "listening s = U_cancellable" using that assms(1) by (auto simp: udp_inv_def)
  then show ?thesis using assms(3,4) Listen_UDP by (cases b) (auto simp: udp_weight_def split: if_splits)
next
  case Set_manager
  have "receiver s = R_none" if "listening s = U_bound"
    using udp_invD(10) [OF assms(1)] that by (cases "receiver s = R_none") simp_all
  then show ?thesis using assms(4) Set_manager by (auto simp: udp_weight_def split: if_splits)
next
  case Check
  then show ?thesis using assms(2,4) by (auto simp: udp_weight_def split: if_splits)
next
  case Error_taken
  then show ?thesis using assms(4) by (cases "listening s") (auto simp: udp_weight_def split: if_splits)
next
  case Listen_ends
  then show ?thesis using assms(4) by (cases "listening s") (auto simp: udp_weight_def split: if_splits)
next
  case Sessions_over
  then show ?thesis using assms(4) by (cases "shutting s") (auto simp: udp_weight_def split: if_splits)
qed (use assms(3,4) in \<open>auto simp: udp_weight_def split: if_splits\<close>)

section \<open>Progress\<close>

fun pending :: "udp_shutdown \<Rightarrow> bool" where
  "pending H_lock = True"
| "pending (H_sessions ks) = True"
| "pending H_await = True"
| "pending _ = False"

text \<open>
  Everything has stopped: \<open>Listen\<close> has returned, the socket is closed, the receiving and closing goroutines and
  all goroutines of datagrams are over, and no \<open>Shutdown\<close> is pending.
\<close>

definition udp_stopped :: "lrcp_server \<Rightarrow> bool" where
  "udp_stopped s \<longleftrightarrow>
     returned (listening s) \<and> stopped s \<and> \<not> conn_open s \<and> \<not> closing s \<and> (receiver s = R_none \<or> receiver s = R_over) \<and>
     list_all (\<lambda>m. m = M_over) (messages s) \<and> \<not> pending (shutting s)"

text \<open>
  \<open>Shutdown\<close> holds the lock of the sessions and waits for a session whose sending goroutine, after its
  timeout, waits for that lock in \<open>Remove\<close>.
\<close>

definition deadlocked :: "lrcp_server \<Rightarrow> bool" where
  "deadlocked s \<longleftrightarrow> (\<exists>ks. shutting s = H_sessions ks \<and> (\<exists>k\<in>set ks. sender_of (table_of s) k = T_remove))"

definition can_move :: "lrcp_server \<Rightarrow> bool" where
  "can_move s \<longleftrightarrow> (\<exists>a. udp_own a \<and> udp_step a s \<noteq> None)"

lemma can_moveI: "udp_own a \<Longrightarrow> udp_step a s \<noteq> None \<Longrightarrow> can_move s"
  unfolding can_move_def by blast

lemma session_possible:
  assumes "worker_at c \<noteq> W_over \<or> sender_at c \<in> {T_select, T_loop, T_wait}"
  shows "\<exists>e. session_step True e c \<noteq> None"
proof (cases "worker_at c = W_over")
  case False
  then have "session_step True Worker_quits c \<noteq> None \<or> session_step True Handler_returns c \<noteq> None"
    by (cases "worker_at c") auto
  then show ?thesis by blast
next
  case True
  then have "session_step True Sender_quits c \<noteq> None \<or> session_step True (Burst True) c \<noteq> None \<or>
      session_step True Wait_ends c \<noteq> None"
    using assms by (cases "sender_at c") auto
  then show ?thesis by blast
qed

lemma session_can_move:
  assumes "server_over s" "k < length (lives (table_of s))"
    and "worker_at (lives (table_of s) ! k) \<noteq> W_over \<or> sender_of (table_of s) k \<in> {T_select, T_loop, T_wait}"
  shows "can_move s"
proof -
  obtain e where "session_step True e (lives (table_of s) ! k) \<noteq> None" using session_possible [OF assms(3)] by blast
  then have "udp_step (Session k e) s \<noteq> None" using assms(1,2) by (auto simp: Let_def ctx_done_def)
  then show ?thesis by (rule can_moveI [rotated]) simp
qed

text \<open>A session that is awaited ends, if nobody holds the lock: sessions wait for later ones only.\<close>

lemma awaited_moves:
  assumes "udp_inv s" "server_over s" "\<not> is_locked s"
  shows "k < length (lives (table_of s)) \<Longrightarrow> \<not> life_over (lives (table_of s) ! k) \<Longrightarrow> sender_of (table_of s) k \<noteq> T_join k \<Longrightarrow>
    can_move s"
proof (induction "length (lives (table_of s)) - k" arbitrary: k rule: less_induct)
  case less
  let ?g = "table_of s"
  note tab = udp_invD(1) [OF assms(1)]
  show ?case
  proof (cases "worker_at (lives ?g ! k) \<noteq> W_over \<or> sender_of ?g k \<in> {T_select, T_loop, T_wait}")
    case True
    then show ?thesis using session_can_move [OF assms(2) less.prems(1)] by blast
  next
    case False
    then consider (remove) "sender_of ?g k = T_remove" | (join) m where "sender_of ?g k = T_join m"
      using less.prems(2) by (cases "sender_of ?g k") (auto simp: life_over_def)
    then show ?thesis
    proof cases
      case remove
      then have "udp_step (Sender_removes k) s \<noteq> None"
        using assms(3) less.prems(1) by (auto simp: sender_removes_def split: option.split)
      then show ?thesis by (rule can_moveI [rotated]) simp
    next
      case join
      have m: "m < length (lives ?g)" "k < m" "sender_of ?g m \<noteq> T_join m"
        using table_okD(5,7,8) [OF tab less.prems(1) join] less.prems(3) join by (auto simp: order_le_less)
      show ?thesis
      proof (cases "life_over (lives ?g ! m)")
        case True
        then have "udp_step (Sender_joined k) s \<noteq> None" using join less.prems(1) by (simp add: sender_joined_def)
        then show ?thesis by (rule can_moveI [rotated]) simp
      next
        case False
        show ?thesis using less.hyps [OF _ m(1) False m(3)] m(1,2) by simp
      qed
    qed
  qed
qed

lemma message_can_move:
  assumes "j < length (messages s)" "message_step (is_locked s) (server_over s) (copying s) e (messages s ! j) (table_of s) \<noteq> None"
  shows "can_move s"
proof -
  have "udp_step (Message j e) s \<noteq> None" using assms by auto
  then show ?thesis by (rule can_moveI [rotated]) simp
qed

lemma judge_possible: "\<exists>v. judge i m v \<noteq> None"
proof (cases m)
  case (MessageClose n)
  then have "judge i m Taken \<noteq> None" by simp
  then show ?thesis by blast
next
  case (MessageConnect n)
  then have "judge i m Answered \<noteq> None" by simp
  then show ?thesis by blast
next
  case (MessageData n p d)
  then have "judge i m Answered \<noteq> None" by simp
  then show ?thesis by blast
next
  case (MessageAck n l)
  then have "judge i m Answered \<noteq> None" by simp
  then show ?thesis by blast
next
  case MessageUnknown
  then have "judge i m Answered \<noteq> None" by simp
  then show ?thesis by blast
qed

lemma copier_moves:
  assumes "j < length (messages s)" "messages s ! j = M_copy i \<or> messages s ! j = M_push i" "server_over s"
  shows "can_move s"
  using assms(2)
proof
  assume "messages s ! j = M_copy i"
  then show ?thesis using message_can_move [OF assms(1), of "Copy False"] by simp
next
  assume "messages s ! j = M_push i"
  then show ?thesis using message_can_move [OF assms(1), of Quit] assms(3) by (simp add: ctx_done_def)
qed

lemma message_moves:
  assumes "udp_inv s" "server_over s" "\<not> is_locked s" "j < length (messages s)" "messages s ! j \<noteq> M_over"
  shows "can_move s"
proof -
  note move = message_can_move [OF assms(4)]
  show ?thesis
  proof (cases "messages s ! j")
    case (M_new m)
    then show ?thesis using move [of Find] assms(3) by (cases m) (auto simp: split_beta split: option.splits)
  next
    case (M_found i m)
    obtain v where "judge i m v \<noteq> None" using judge_possible by blast
    then show ?thesis using move [of "Judge v"] M_found by auto
  next
    case (M_data i)
    show ?thesis
    proof (cases "copying s i")
      case True
      then obtain l where "l < length (messages s)" "messages s ! l = M_copy i \<or> messages s ! l = M_push i"
        by (auto simp: copying_def in_set_conv_nth)
      then show ?thesis using copier_moves assms(2) by blast
    next
      case False
      then show ?thesis using move [of Lock_data] M_data by simp
    qed
  next
    case (M_copy i)
    then show ?thesis using copier_moves [OF assms(4)] assms(2) by blast
  next
    case (M_push i)
    then show ?thesis using copier_moves [OF assms(4)] assms(2) by blast
  next
    case (M_ack i)
    then show ?thesis using move [of Quit] assms(2) by (simp add: ctx_done_def)
  next
    case (M_remove i)
    then show ?thesis using move [of Remove_session] assms(3) by (auto split: option.splits)
  next
    case (M_join k)
    then have k: "awaited (table_of s) k" using udp_invD(2) [OF assms(1)] assms(4) by (force simp: list_all_length)
    show ?thesis
    proof (cases "life_over (lives (table_of s) ! k)")
      case True
      then show ?thesis using move [of Joined] M_join by simp
    next
      case False
      then show ?thesis using awaited_moves [OF assms(1-3)] awaitedD [OF k] by blast
    qed
  qed (use assms(5) in simp)
qed

lemma locked_moves:
  assumes "udp_inv s" "server_over s" "shutting s = H_sessions ks" "\<not> deadlocked s"
  shows "can_move s"
proof (cases "list_all (\<lambda>k. life_over (lives (table_of s) ! k)) ks")
  case True
  then have "udp_step Sessions_over s \<noteq> None" using assms(3) by simp
  then show ?thesis by (rule can_moveI [rotated]) simp
next
  case False
  let ?g = "table_of s"
  obtain k where k: "k \<in> set ks" "\<not> life_over (lives ?g ! k)" using False by (auto simp: list_all_iff)
  have "k < length (lives ?g)" "\<not> joining (sender_of ?g k)"
    using udp_invD(3) [OF assms(1)] assms(3) k(1) by (auto simp: shutting_ok_def)
  moreover have "sender_of ?g k \<noteq> T_remove" using assms(3,4) k(1) by (auto simp: deadlocked_def)
  ultimately show ?thesis using session_can_move [OF assms(2), of k] k(2) by (cases "sender_of ?g k") (auto simp: life_over_def)
qed

lemma serving_moves:
  assumes "udp_inv s" "server_over s" "\<not> is_locked s" "listening s = U_serving e"
  shows "can_move s"
proof (cases "closing s")
  case True
  then have "udp_step Closer_wakes s \<noteq> None" using assms(2) by simp
  then show ?thesis by (rule can_moveI [rotated]) simp
next
  case False
  then have shut: "\<not> conn_open s" using udp_invD(8) [OF assms(1)] by blast
  show ?thesis
  proof (cases "receiver s")
    case R_none
    then show ?thesis using udp_invD(9) [OF assms(1)] assms(4) by simp
  next
    case R_check
    then have "udp_step Check s \<noteq> None" by simp
    then show ?thesis by (rule can_moveI [rotated]) simp
  next
    case R_read
    then have "udp_step Read_closed s \<noteq> None" using shut by simp
    then show ?thesis by (rule can_moveI [rotated]) simp
  next
    case R_error
    then have "udp_step Error_taken s \<noteq> None" using assms(4) by simp
    then show ?thesis by (rule can_moveI [rotated]) simp
  next
    case R_join
    show ?thesis
    proof (cases "list_all (\<lambda>m. m = M_over) (messages s)")
      case True
      then have "udp_step Receiver_ends s \<noteq> None" using R_join by simp
      then show ?thesis by (rule can_moveI [rotated]) simp
    next
      case False
      then show ?thesis using message_moves [OF assms(1-3)] by (auto simp: list_all_length)
    qed
  next
    case R_over
    then have "udp_step Listen_ends s \<noteq> None" using assms(4) False by simp
    then show ?thesis by (rule can_moveI [rotated]) simp
  qed
qed

lemma udp_possible:
  assumes "udp_inv s" "server_over s" "\<not> (udp_stopped s \<or> deadlocked s)"
  shows "\<exists>a. udp_own a \<and> udp_step a s \<noteq> None"
proof -
  have cancel: "has_cancel s" using udp_invD(12) [OF assms(1,2)] .
  have "can_move s"
  proof (cases "is_locked s")
    case True
    then obtain ks where "shutting s = H_sessions ks" by (cases "shutting s") auto
    then show ?thesis using locked_moves assms by blast
  next
    case False
    show ?thesis
    proof (cases "listening s")
      case U_cancellable
      then have "udp_step (Listen_UDP True) s \<noteq> None" by simp
      then show ?thesis by (rule can_moveI [rotated]) simp
    next
      case U_bound
      then have "udp_step Set_manager s \<noteq> None" using False by simp
      then show ?thesis by (rule can_moveI [rotated]) simp
    next
      case (U_serving e)
      then show ?thesis using serving_moves [OF assms(1,2) False] by blast
    next
      case (U_returned e)
      then have r: "stopped s" "\<not> closing s" "\<not> conn_open s" "receiver s = R_none \<or> receiver s = R_over" "all_over s"
        using udp_invD(4,6,8,11) [OF assms(1)] by auto
      then have "pending (shutting s)" using assms(3) U_returned by (simp add: udp_stopped_def all_over_def)
      then consider "shutting s = H_lock" | "shutting s = H_await" using False by (cases "shutting s") auto
      then show ?thesis
      proof cases
        case 1
        then have "udp_step Shutdown_locks s \<noteq> None" by (simp add: Let_def split_beta)
        then show ?thesis by (rule can_moveI [rotated]) simp
      next
        case 2
        then have "udp_step Shutdown_returns s \<noteq> None" using r(1) by simp
        then show ?thesis by (rule can_moveI [rotated]) simp
      qed
    qed (use cancel in \<open>simp_all add: has_cancel_def\<close>)
  qed
  then show ?thesis by (simp add: can_move_def)
qed

lemma server_over_stays:
  assumes "server_over s" "udp_step a s = Some t"
  shows "server_over t"
  using assms
  by (cases a) (auto simp: Let_def split_beta split: if_splits udp_listen.splits udp_shutdown.splits)

interpretation udp_end: draining udp_step udp_own "\<lambda>s. udp_inv s \<and> server_over s" udp_weight "\<lambda>s. udp_stopped s \<or> deadlocked s"
  by unfold_locales (blast intro: udp_step_inv server_over_stays udp_lighter udp_possible)+

section \<open>Goroutines that wait for good\<close>

lemma find_or_create_sender:
  "find_or_create n g = (i, g') \<Longrightarrow> k < length (lives g) \<Longrightarrow> k < length (lives g') \<and> sender_of g' k = sender_of g k"
  by (auto simp: find_or_create_def nth_append split: option.splits)

lemma message_step_sender:
  assumes "message_step locked over busy e pc g = Some (pc', g')" "message_ok pc g" "k < length (lives g)" "sender_of g k \<noteq> T_wait"
  shows "k < length (lives g') \<and> sender_of g' k = sender_of g k"
proof (cases e)
  case Find
  then obtain m where pc: "pc = M_new m" using assms(1) by (cases pc) auto
  show ?thesis
  proof (cases "g' = g")
    case False
    then obtain n i where "find_or_create n g = (i, g')" using assms(1) pc Find by (cases m) (auto split: if_splits prod.splits option.splits)
    then show ?thesis using find_or_create_sender assms(3) by blast
  qed (use assms(3) in simp)
next
  case Remove_session
  then obtain i where i: "pc = M_remove i" using assms(1) by (cases pc) auto
  show ?thesis
  proof (cases "remove_number (number_of g i) g")
    case None
    then show ?thesis using assms(1,3) i Remove_session by (auto split: if_splits)
  next
    case (Some x)
    then obtain l h where h: "remove_number (number_of g i) g = Some (l, h)" by (cases x) simp
    then have "g' = h" using assms(1) i Remove_session by (auto split: if_splits)
    then show ?thesis using remove_numberD(2,5) [OF h] assms(3) by simp
  qed
qed (use assms in \<open>cases pc; auto simp: nth_list_update split: if_splits\<close>)+

lemma remove_all_sender:
  "remove_all g = (ks, g') \<Longrightarrow> k < length (lives g) \<Longrightarrow> k < length (lives g') \<and> sender_of g' k = sender_of g k"
  by (auto simp: remove_all_def Let_def)

text \<open>A sending goroutine in \<open>Remove\<close> moves only by its own steps there.\<close>

lemma sender_waits:
  assumes "udp_inv s" "udp_step a s = Some t" "i < length (lives (table_of s))"
    and "sender_of (table_of s) i = T_remove \<or> joining (sender_of (table_of s) i)" "a \<noteq> Sender_removes i" "a \<noteq> Sender_joined i"
  shows "i < length (lives (table_of t)) \<and> sender_of (table_of t) i = sender_of (table_of s) i"
proof -
  let ?g = "table_of s"
  have nw: "sender_of ?g i \<noteq> T_wait" using assms(4) by auto
  show ?thesis
  proof (cases a)
    case (Message j e)
    then obtain pc g where j: "j < length (messages s)"
      and st: "message_step (is_locked s) (server_over s) (copying s) e (messages s ! j) ?g = Some (pc, g)" "table_of t = g"
      using assms(2) by (auto split: if_splits)
    have "message_ok (messages s ! j) ?g" using udp_invD(2) [OF assms(1)] j by (simp add: list_all_length)
    then show ?thesis using message_step_sender [OF st(1) _ assms(3) nw] st(2) by simp
  next
    case (Session j e)
    then obtain c where c: "j < length (lives ?g)" "session_step (ctx_done (server_over s) ?g j) e (lives ?g ! j) = Some c"
      "table_of t = ?g\<lparr>lives := (lives ?g)[j := c]\<rparr>"
      using assms(2) by (auto simp: Let_def split: if_splits)
    have "sender_at c = sender_of ?g j" if "j = i" using c(2) assms(4) that by (cases e) (auto split: if_splits)
    then show ?thesis using assms(3) c(1,3) by (cases "j = i") simp_all
  next
    case (Sender_removes j)
    then obtain g where g: "sender_removes j ?g = Some g" "table_of t = g" using assms(2) by (auto split: if_splits)
    have "j \<noteq> i" "j < length (lives ?g)" using Sender_removes assms(5) g(1) by (auto simp: sender_removes_def split: if_splits)
    moreover have "length (lives g) = length (lives ?g)" using sender_removes_ok(3) udp_invD(1) [OF assms(1)] g(1) by blast
    moreover have "sender_of g i = sender_of ?g i"
    proof (cases "remove_number (number_of ?g j) ?g")
      case None
      then show ?thesis using g(1) \<open>j \<noteq> i\<close> by (auto simp: sender_removes_def split: if_splits)
    next
      case (Some x)
      then obtain k h where h: "remove_number (number_of ?g j) ?g = Some (k, h)" by (cases x) simp
      then have "g = set_sender j (T_join k) h" using g(1) by (auto simp: sender_removes_def split: if_splits)
      then show ?thesis using remove_numberD(2,5) [OF h] \<open>j \<noteq> i\<close> \<open>j < length (lives ?g)\<close> by simp
    qed
    ultimately show ?thesis using assms(3) g(2) by simp
  next
    case (Sender_joined j)
    then obtain g where g: "sender_joined j ?g = Some g" "table_of t = g" using assms(2) by auto
    have "j < length (lives ?g)" "g = set_sender j T_select ?g"
      using g(1) by (auto simp: sender_joined_def split: if_splits sender_pc.splits)
    moreover have "j \<noteq> i" using Sender_joined assms(6) by blast
    ultimately show ?thesis using assms(3) g(2) by simp
  next
    case Shutdown_locks
    obtain ks g where g: "remove_all ?g = (ks, g)" by fastforce
    then show ?thesis using remove_all_sender [OF g assms(3)] Shutdown_locks assms(2,3)
      by (auto simp: Let_def split: if_splits)
  qed (use assms(2,3) in \<open>auto split: if_splits udp_listen.splits udp_shutdown.splits\<close>)
qed

lemma locked_stays:
  assumes "udp_step a s = Some t" "shutting s = H_sessions ks" "i \<in> set ks" "\<not> life_over (lives (table_of s) ! i)"
  shows "shutting t = H_sessions ks"
  using assms by (cases a) (auto simp: Let_def list_all_iff split: if_splits udp_listen.splits)

lemma deadlock_stays:
  assumes "udp_inv s" "shutting s = H_sessions ks" "i \<in> set ks" "sender_of (table_of s) i = T_remove" "run_steps udp_step as s = Some t"
  shows "shutting t = H_sessions ks"
  using assms
proof (induction as arbitrary: s)
  case (Cons a as)
  from Cons.prems(5) obtain u where u: "udp_step a s = Some u" "run_steps udp_step as u = Some t" by (rule run_steps_ConsE)
  have i: "i < length (lives (table_of s))" using udp_invD(3) [OF Cons.prems(1)] Cons.prems(2,3) by (auto simp: shutting_ok_def)
  have "a \<noteq> Sender_removes i" "a \<noteq> Sender_joined i"
    using u(1) Cons.prems(2,4) i by (auto simp: sender_joined_def)
  then have "sender_of (table_of u) i = T_remove" using sender_waits [OF Cons.prems(1) u(1) i] Cons.prems(4) by simp
  moreover have "shutting u = H_sessions ks"
    using locked_stays [OF u(1) Cons.prems(2,3)] Cons.prems(4) by (simp add: life_over_def)
  ultimately show ?case using Cons.IH [OF udp_step_inv [OF Cons.prems(1) u(1)] _ Cons.prems(3) _ u(2)] by blast
qed simp

lemma self_join_stays:
  assumes "udp_inv s" "i < length (lives (table_of s))" "sender_of (table_of s) i = T_join i" "run_steps udp_step as s = Some t"
  shows "sender_of (table_of t) i = T_join i"
  using assms
proof (induction as arbitrary: s)
  case (Cons a as)
  from Cons.prems(4) obtain u where u: "udp_step a s = Some u" "run_steps udp_step as u = Some t" by (rule run_steps_ConsE)
  have "a \<noteq> Sender_removes i" "a \<noteq> Sender_joined i"
    using u(1) Cons.prems(2,3) by (auto simp: sender_joined_def sender_removes_def life_over_def split: if_splits)
  then show ?case
    using sender_waits [OF Cons.prems(1) u(1) Cons.prems(2)] Cons.prems(3)
      Cons.IH [OF udp_step_inv [OF Cons.prems(1) u(1)] _ _ u(2)] by simp
qed simp

section \<open>Properties of the server\<close>


text \<open>A client connects and sends a line; then the server is shut down.\<close>

definition shutdown_run :: "udp_event list" where
  "shutdown_run =
     [Call_Listen, Set_cancel, Listen_UDP True, Set_manager, Check, Datagram (Some (MessageConnect 7)), Message 0 Find,
      Message 0 (Judge Answered), Check, Datagram (Some (MessageData 7 0 ''hi'')), Message 1 Find, Message 1 (Judge Taken),
      Message 1 Lock_data, Message 1 (Copy True), Message 1 Push_line, Session 0 Take_line, Call_Shutdown, Shutdown_locks]"

lemmas udp_eval =
  NewServer_def has_cancel_def has_manager_def find_or_create_def new_life_def session_number_def ctx_done_def copying_def
  remove_all_def cancel_life_def in_table_def remove_number_def set_sender_def sender_removes_def sender_joined_def
  upt_rec [of _ "Suc n" for n]


text \<open>
  C39: A session that times out can hang in two ways. If \<open>Shutdown\<close> takes the lock of the sessions first
  and waits for it, neither ever moves again, so that \<open>Shutdown\<close> does not return whatever its context
  says. Otherwise, when the session is still in the map, its sending goroutine waits for its own end in
  \<open>Remove\<close>, for good: the session never ends and its client is never told.
\<close>

theorem lrcp_timeout_hangs:
  assumes "run_steps udp_step as NewServer = Some s" "i < length (lives (table_of s))" "sender_of (table_of s) i = T_remove"
  shows "(shutting s = H_sessions ks \<and> i \<in> set ks \<and> run_steps udp_step bs s = Some t \<longrightarrow> shutting t = H_sessions ks) \<and>
    (table (table_of s) (number_of (table_of s) i) = Some i \<and> run_steps udp_step (Sender_removes i # bs) s = Some t \<longrightarrow>
      sender_of (table_of t) i = T_join i)"
proof (intro conjI impI)
  have inv: "udp_inv s" using udp_reachable assms(1) .
  show "shutting s = H_sessions ks \<and> i \<in> set ks \<and> run_steps udp_step bs s = Some t \<Longrightarrow> shutting t = H_sessions ks"
    using deadlock_stays [OF inv _ _ assms(3)] by blast
  assume a: "table (table_of s) (number_of (table_of s) i) = Some i \<and> run_steps udp_step (Sender_removes i # bs) s = Some t"
  then obtain u where u: "udp_step (Sender_removes i) s = Some u" "run_steps udp_step bs u = Some t"
    using run_steps_ConsE by metis
  obtain h where h: "remove_number (number_of (table_of s) i) (table_of s) = Some (i, h)"
    using a by (auto simp: remove_number_def)
  then have "table_of u = set_sender i (T_join i) h"
    using u(1) assms(2,3) by (auto simp: sender_removes_def split: if_splits)
  then have "i < length (lives (table_of u))" "sender_of (table_of u) i = T_join i"
    using remove_numberD(2) [OF h] assms(2) by simp_all
  then show "sender_of (table_of t) i = T_join i" using self_join_stays [OF udp_step_inv [OF inv u(1)] _ _ u(2)] by blast
qed

text \<open>A reply is never acknowledged, and the timer of the session ends.\<close>

definition timeout_run :: "udp_event list" where
  "timeout_run =
     [Call_Listen, Set_cancel, Listen_UDP True, Set_manager, Check, Datagram (Some (MessageConnect 7)), Message 0 Find,
      Message 0 (Judge Answered), Check, Datagram (Some (MessageData 7 0 ''hi'')), Message 1 Find, Message 1 (Judge Taken),
      Message 1 Lock_data, Message 1 (Copy True), Message 1 Push_line, Session 0 Take_line, Session 0 Handler_returns,
      Session 0 Put_reply, Session 0 Next_reply, Session 0 (Burst False), Session 0 Session_timeout]"

theorem lrcp_timeout_hangs_witness:
  "(\<exists>s. run_steps udp_step (timeout_run @ [Call_Shutdown, Shutdown_locks]) NewServer = Some s \<and>
      (\<forall>bs t. run_steps udp_step bs s = Some t \<longrightarrow> shutting t = H_sessions [0])) \<and>
   (\<exists>s. run_steps udp_step timeout_run NewServer = Some s \<and>
      (\<forall>bs t. run_steps udp_step (Sender_removes 0 # bs) s = Some t \<longrightarrow> sender_of (table_of t) 0 = T_join 0))"
proof
  obtain s where s: "run_steps udp_step (timeout_run @ [Call_Shutdown, Shutdown_locks]) NewServer = Some s"
      "0 < length (lives (table_of s))" "sender_of (table_of s) 0 = T_remove" "shutting s = H_sessions [0]"
    by (simp add: timeout_run_def udp_eval)
  from lrcp_timeout_hangs [OF s(1-3)] s(1,4)
  show "\<exists>s. run_steps udp_step (timeout_run @ [Call_Shutdown, Shutdown_locks]) NewServer = Some s \<and>
      (\<forall>bs t. run_steps udp_step bs s = Some t \<longrightarrow> shutting t = H_sessions [0])" by fastforce
next
  obtain s where s: "run_steps udp_step timeout_run NewServer = Some s" "0 < length (lives (table_of s))"
      "sender_of (table_of s) 0 = T_remove" "table (table_of s) (number_of (table_of s) 0) = Some 0"
    by (simp add: timeout_run_def udp_eval)
  from lrcp_timeout_hangs [OF s(1-3)] s(1,4)
  show "\<exists>s. run_steps udp_step timeout_run NewServer = Some s \<and>
      (\<forall>bs t. run_steps udp_step (Sender_removes 0 # bs) s = Some t \<longrightarrow> sender_of (table_of t) 0 = T_join 0)" by blast
qed

text \<open>
  What a caller sees when \<open>Shutdown\<close> comes too early, as long as the socket can be bound, no read of it
  fails and the caller does not give up.
\<close>

fun harmless :: "udp_event \<Rightarrow> bool" where
  "harmless (Listen_UDP ok) = ok"
| "harmless Read_fails = False"
| "harmless Gives_up = False"
| "harmless _ = True"

definition early :: "lrcp_server \<Rightarrow> bool" where
  "early s \<longleftrightarrow>
     \<not> server_over s \<and> \<not> stopped s \<and> shutting s = H_await \<and> receiver s \<in> {R_none, R_check, R_read} \<and>
     (listening s = U_bound \<or> serving (listening s) \<longrightarrow> conn_open s) \<and> (receiver s \<noteq> R_none \<longrightarrow> serving (listening s))"

lemma early_stays: "early s \<Longrightarrow> harmless a \<Longrightarrow> udp_step a s = Some t \<Longrightarrow> early t"
proof (cases a)
  case (Message j e)
  assume "early s" "udp_step a s = Some t"
  then show ?thesis using Message by (auto simp: early_def split: if_splits)
next
  case (Listen_UDP ok)
  assume "early s" "harmless a" "udp_step a s = Some t"
  then show ?thesis using Listen_UDP by (cases "listening s") (auto simp: early_def)
next
  case Set_manager
  assume "early s" "udp_step a s = Some t"
  then show ?thesis using Set_manager by (cases "listening s") (auto simp: early_def split: if_splits)
next
  case Call_Listen
  assume "early s" "udp_step a s = Some t"
  then show ?thesis using Call_Listen by (cases "listening s") (auto simp: early_def)
next
  case Set_cancel
  assume "early s" "udp_step a s = Some t"
  then show ?thesis using Set_cancel by (cases "listening s") (auto simp: early_def split: if_splits)
qed (auto simp: early_def Let_def split: if_splits udp_listen.splits)

interpretation early: guarded_system udp_step harmless early
  by unfold_locales (rule early_stays)

text \<open>
  A \<open>Shutdown\<close> that comes while \<open>Listen\<close> has started but not yet set \<open>cancel\<close> cancels nothing, and waits for
  a server that goes on serving.
\<close>

theorem lrcp_early_shutdown:
  assumes "run_steps udp_step as NewServer = Some s" "listening s = U_entered" "shutting s = H_lock"
    and "list_all harmless bs" "run_steps udp_step (Shutdown_locks # bs) s = Some t"
  shows "shutting t = H_await \<and> \<not> server_over t"
proof -
  have inv: "udp_inv s" using udp_reachable assms(1) .
  have r: "receiver s = R_none" "\<not> server_over s" "\<not> stopped s"
    using udp_invD(5,10,12) [OF inv] assms(2) by (auto simp: has_cancel_def)
  obtain u where u: "udp_step Shutdown_locks s = Some u" "run_steps udp_step bs u = Some t"
    using assms(5) run_steps_ConsE by metis
  have "early u" using u(1) assms(2,3) r by (auto simp: early_def has_cancel_def has_manager_def)
  then show ?thesis using early.run_keeps [OF _ assms(4) u(2)] by (simp add: early_def)
qed

theorem lrcp_early_shutdown_witness:
  "\<exists>t. run_steps udp_step [Call_Listen, Call_Shutdown, Shutdown_locks, Set_cancel, Listen_UDP True, Set_manager, Check] NewServer =
      Some t \<and> shutting t = H_await \<and> \<not> server_over t"
proof -
  obtain s where s: "run_steps udp_step [Call_Listen, Call_Shutdown] NewServer = Some s" "listening s = U_entered" "shutting s = H_lock"
    by (simp add: NewServer_def)
  obtain t where t: "run_steps udp_step [Shutdown_locks, Set_cancel, Listen_UDP True, Set_manager, Check] s = Some t"
    "run_steps udp_step [Call_Listen, Call_Shutdown, Shutdown_locks, Set_cancel, Listen_UDP True, Set_manager, Check] NewServer = Some t"
    using s(1) by (auto simp: NewServer_def has_cancel_def has_manager_def)
  from lrcp_early_shutdown [OF s _ t(1)] t(2) show ?thesis by auto
qed

section \<open>Acknowledgements out of order\<close>

text \<open>Served at once, an ack is accepted and handed over as \<open>HandleIncoming\<close> says.\<close>

lemma ack_in_two_steps:
  assumes inv: "sess_inv T s" and T: "stream_ok T"
  shows "HandleIncoming (MessageAck n l) s =
    (case accept_ack l s of
       Inl as \<Rightarrow> Some (as, s)
     | Inr s1 \<Rightarrow> Option.bind (signal_ack l s1) (\<lambda>s2. map_option (\<lambda>as. (as, s2)) (send_burst s2)))"
proof (cases "l \<le> lenTotalOutgoing s \<or> l > shouldBeSent s")
  case True
  then show ?thesis by (auto simp: accept_ack_def)
next
  case False
  have "signal_ack l (s\<lparr>lenTotalOutgoing := l\<rparr>) = Some (take_ack l (s\<lparr>lenTotalOutgoing := l\<rparr>))"
  proof (cases "cur s")
    case None
    then show ?thesis by (simp add: signal_ack_def take_ack_def)
  next
    case (Some c)
    obtain buf initLen curPos where c: "c = (buf, initLen, curPos)" by (cases c)
    let ?R = "replies (take (handled s) (incomingChan s))"
    have o: "handled s < length (incomingChan s)" "buf = reverse_handler (incomingChan s ! handled s) @ [newline]"
      "initLen = int (length ?R)" "lenTotalOutgoing s = int (length ?R) + int curPos"
      "shouldBeSent s = int (length ?R) + int (length buf)"
      using inv Some c by (auto simp: sess_inv_def out_inv_def Let_def)
    have "int (length ?R) + int (length buf) < 2 ^ 31"
      using reply_bound [OF inv T, of "Suc (handled s)"] o(1,2) replies_take_Suc [OF o(1)] by simp
    then have "wrap32 (l - initLen) = l - initLen"
      using False o(3-5) by (intro wrap32_id) (auto simp: int32_range_def)
    then show ?thesis using Some c False o(3,4) by (simp add: signal_ack_def)
  qed
  with False show ?thesis by (simp add: accept_ack_def Let_def)
qed

text \<open>
  C29: An ack that comes late crashes the server. When two acks of a line are accepted one after the other
  and the later one, which completes the line, is handed to the sending goroutine first, that goroutine goes
  on to the next reply; when it then takes the length of the earlier ack, which lies before this reply, it
  slices the reply at a negative position.
\<close>

theorem lrcp_late_ack_panics:
  assumes "accept_ack a s = Inr s1" "accept_ack b s1 = Inr s2" "0 \<le> lenTotalOutgoing s" "b < 2 ^ 31"
    and "signal_ack b s2 = Some s3" "cur s3 = None" "handled s3 < length (incomingChan s3)"
  shows "sess_exec NextLine s3 = map_option (\<lambda>as. (as, start_line s3)) (send_burst (start_line s3)) \<and>
    signal_ack a (start_line s3) = None"
proof -
  have ab: "lenTotalOutgoing s < a" "a < b" "lenTotalOutgoing s2 = b"
    using assms(1,2) by (auto simp: accept_ack_def split: if_splits)
  have "lenTotalOutgoing s3 = b"
    using assms(5) ab(3) by (auto simp: signal_ack_def take_ack_def Let_def split: option.splits if_splits prod.splits)
  moreover have "wrap32 (a - b) = a - b" using ab assms(3,4) by (intro wrap32_id) (auto simp: int32_range_def)
  ultimately show ?thesis
    using ab assms(6,7) by (simp add: signal_ack_def start_line_def Let_def)
qed

text \<open>The first of two replies is being sent; acks of 1 and of 3 bytes cross.\<close>

definition two_replies :: sessionUDP where
  "two_replies =
     (new_session 7)\<lparr>incomingChan := [''ab'', ''c''], cur := Some (''ba'' @ [newline], 0, 0), shouldBeSent := 3\<rparr>"

theorem lrcp_late_ack_panics_witness:
  "\<exists>s1 s2 s3. accept_ack 1 two_replies = Inr s1 \<and> accept_ack 3 s1 = Inr s2 \<and> signal_ack 3 s2 = Some s3 \<and>
    signal_ack 1 (start_line s3) = None"
proof -
  obtain s1 s2 s3 where s: "accept_ack 1 two_replies = Inr s1" "accept_ack 3 s1 = Inr s2" "0 \<le> lenTotalOutgoing two_replies"
      "(3 :: int) < 2 ^ 31" "signal_ack 3 s2 = Some s3" "cur s3 = None" "handled s3 < length (incomingChan s3)"
    by (simp add: two_replies_def new_session_def accept_ack_def signal_ack_def take_ack_def wrap32_def)
  from lrcp_late_ack_panics [OF s] s show ?thesis by blast
qed

section \<open>A datagram and its answer\<close>

lemma sess_number_kept: "sess_exec e s = Some (as, s') \<Longrightarrow> sess_number s' = sess_number s"
proof (cases e)
  case (Incoming m)
  assume "sess_exec e s = Some (as, s')"
  then show ?thesis using Incoming
    by (cases m) (auto simp: accept_data_def readNewLineFromMessage_def take_ack_def Let_def
        split: sum.splits option.splits if_splits)
qed (auto simp: start_line_def Let_def split: if_splits)

lemma sess_run_number: "sess_run es s = Some (as, s') \<Longrightarrow> sess_number s' = sess_number s"
proof (induction es arbitrary: s as)
  case (Cons e es)
  then obtain bs u cs where "sess_exec e s = Some (bs, u)" "sess_run es u = Some (cs, s')" by (auto split: option.splits)
  then show ?case using Cons.IH sess_number_kept by metis
qed simp

lemma control_text:
  assumes "msg_range m" "\<forall>n p d. m \<noteq> MessageData n p d" "m \<noteq> MessageUnknown"
  shows "dispatcher True True m = [wire m]" "UnmarshalMessage (wire m) = Inr m"
proof -
  have size: "MarshalSize m \<le> MTU"
    using assms by (cases m) (auto simp: MTU_def dest!: Digits_int32)
  show "dispatcher True True m = [wire m]" using size by (simp add: dispatcher_def Marshal_def)
  show "UnmarshalMessage (wire m) = Inr m" using round_trip_control [OF assms(1) _ assms(2,3)] wire_MTU [OF assms(1) size] by blast
qed



end
