(* ===== verification/Codec.thy ===== *)
theory Codec
  imports Prelude
begin

text \<open>
  Prefix codecs: encoders whose output can be decoded in front of anything that follows, and
  decoders that do not look beyond what they consume. The interface is what a protocol layer
  relies on to read a sequence of messages from a stream; the client lemmas (injectivity,
  no encoding is a prefix of another, sequences are read back) are proved once in the locale.
  Below it the big-endian integers of \<open>encoding/binary\<close>, as its first implementations.
\<close>

fun read_n :: "(byte list \<Rightarrow> ('a \<times> byte list) option) \<Rightarrow> nat \<Rightarrow> byte list \<Rightarrow> ('a list \<times> byte list) option" where
  "read_n dec 0 b = Some ([], b)"
| "read_n dec (Suc n) b =
     (case dec b of
        None \<Rightarrow> None
      | Some (x, r) \<Rightarrow> (case read_n dec n r of None \<Rightarrow> None | Some (xs, r') \<Rightarrow> Some (x # xs, r')))"

locale prefix_codec =
  fixes enc :: "'a \<Rightarrow> byte list" and dec :: "byte list \<Rightarrow> ('a \<times> byte list) option" and valid :: "'a \<Rightarrow> bool"
  assumes dec_enc: "valid x \<Longrightarrow> dec (enc x @ r) = Some (x, r)"
    and dec_extend: "dec b = Some (x, r) \<Longrightarrow> dec (b @ s) = Some (x, r @ s)"
begin

lemma enc_inj: "valid x \<Longrightarrow> valid y \<Longrightarrow> enc x = enc y \<Longrightarrow> x = y"
  using dec_enc [of x "[]"] dec_enc [of y "[]"] by simp

lemma enc_prefix_free:
  assumes "valid x" "valid y" "enc x @ r = enc y @ s"
  shows "x = y \<and> r = s"
proof -
  have "Some (x, r) = Some (y, s)"
    using dec_enc [OF assms(1), of r] dec_enc [OF assms(2), of s] unfolding assms(3) by (rule trans [OF sym])
  then show ?thesis by simp
qed

lemma read_n_enc: "\<forall>x\<in>set xs. valid x \<Longrightarrow> read_n dec (length xs) (concat (map enc xs) @ r) = Some (xs, r)"
  by (induction xs) (simp_all add: dec_enc)

lemma read_n_extend: "read_n dec n b = Some (xs, r) \<Longrightarrow> read_n dec n (b @ s) = Some (xs, r @ s)"
proof (induction n arbitrary: b xs)
  case (Suc n)
  then obtain x r1 ys where x: "dec b = Some (x, r1)" "read_n dec n r1 = Some (ys, r)" "xs = x # ys"
    by (auto split: option.splits)
  then show ?case using Suc.IH [OF x(2)] dec_extend [OF x(1)] by simp
qed simp

end

section \<open>Big-endian integers\<close>

definition put_u8 :: "uint8 \<Rightarrow> byte list" where
  "put_u8 w = [w]"

definition put_u16 :: "uint16 \<Rightarrow> byte list" where
  "put_u16 w = [word_of_nat (unat w div 256), word_of_nat (unat w)]"

definition put_u32 :: "uint32 \<Rightarrow> byte list" where
  "put_u32 w = [word_of_nat (unat w div 16777216), word_of_nat (unat w div 65536),
     word_of_nat (unat w div 256), word_of_nat (unat w)]"

fun get_u8 :: "byte list \<Rightarrow> (uint8 \<times> byte list) option" where
  "get_u8 (a # r) = Some (a, r)"
| "get_u8 b = None"

fun get_u16 :: "byte list \<Rightarrow> (uint16 \<times> byte list) option" where
  "get_u16 (a # b # r) = Some (word_of_nat (unat a * 256 + unat b), r)"
| "get_u16 b = None"

fun get_u32 :: "byte list \<Rightarrow> (uint32 \<times> byte list) option" where
  "get_u32 (a # b # c # d # r) =
     Some (word_of_nat (((unat a * 256 + unat b) * 256 + unat c) * 256 + unat d), r)"
| "get_u32 b = None"

lemma unat_byte_of_nat: "unat (word_of_nat n :: byte) = n mod 256"
  by (simp add: unat_of_nat)

lemma bytes_of_nat16: "n < 65536 \<Longrightarrow> (n div 256) mod 256 * 256 + n mod 256 = n" for n :: nat
  by simp

lemma bytes_of_nat32:
  fixes n :: nat
  assumes "n < 4294967296"
  shows "((n div 16777216 mod 256 * 256 + n div 65536 mod 256) * 256 + n div 256 mod 256) * 256 + n mod 256 = n"
proof -
  have "n div 16777216 mod 256 = n div 65536 div 256" using assms by (simp add: div_mult2_eq [symmetric])
  moreover have "n div 65536 = n div 256 div 256" by (simp add: div_mult2_eq [symmetric])
  ultimately show ?thesis by (metis div_mult_mod_eq)
qed

lemma get_put_u16: "get_u16 (put_u16 w @ r) = Some (w, r)"
proof -
  have "unat w < 65536" using unsigned_less [of w, where ?'a = nat] by simp
  note n = bytes_of_nat16 [OF this]
  show ?thesis
    unfolding put_u16_def append.simps get_u16.simps unat_byte_of_nat n by simp
qed

lemma get_put_u32: "get_u32 (put_u32 w @ r) = Some (w, r)"
proof -
  have "unat w < 4294967296" using unsigned_less [of w, where ?'a = nat] by simp
  note n = bytes_of_nat32 [OF this]
  show ?thesis
    unfolding put_u32_def append.simps get_u32.simps unat_byte_of_nat n by simp
qed

lemma get_u16_extend: "get_u16 b = Some (x, r) \<Longrightarrow> get_u16 (b @ s) = Some (x, r @ s)"
  by (cases b rule: get_u16.cases) auto

lemma get_u32_extend: "get_u32 b = Some (x, r) \<Longrightarrow> get_u32 (b @ s) = Some (x, r @ s)"
  by (cases b rule: get_u32.cases) auto

interpretation u8: prefix_codec put_u8 get_u8 "\<lambda>_. True"
  by unfold_locales (auto simp: put_u8_def elim: get_u8.elims)

interpretation u16: prefix_codec put_u16 get_u16 "\<lambda>_. True"
  by unfold_locales (auto simp: get_put_u16 get_u16_extend)

interpretation u32: prefix_codec put_u32 get_u32 "\<lambda>_. True"
  by unfold_locales (auto simp: get_put_u32 get_u32_extend)

end
