(* ===== verification/SpeedMessage.thy ===== *)
theory SpeedMessage
  imports Codec
begin

text \<open>
  The binary messages of the speed daemon, \<open>6-speed-daemon/message.go\<close>. \<open>constructPacketData\<close> and
  \<open>extractPacketData\<close> take their arguments by dynamic type; here a value carries its type
  (\<open>pvalue\<close>) and a destination is a type (\<open>ptype\<close>). An encoder gives the bytes it wrote and, where
  it stopped, an error; a decoder gives \<open>None\<close> for every error of the reader (the stream ends
  inside the message).

  Shown: the message layer is a prefix codec (an interpretation of that locale), so a stream of
  messages is read back message by message; strings and road lists that are too long are
  refused after the message type has been written.
\<close>

definition MaxByte :: nat where "MaxByte = 255"

datatype pvalue = VU8 uint8 | VU16 uint16 | VU32 uint32 | VStr "byte list" | VU16s "uint16 list"
datatype ptype = PU8 | PU16 | PU32 | PStr | PU16s
datatype packet_error = InvalidStringLength | InvalidArrayLength

fun put_value :: "pvalue \<Rightarrow> packet_error + byte list" where
  "put_value (VU8 w) = Inr (put_u8 w)"
| "put_value (VU16 w) = Inr (put_u16 w)"
| "put_value (VU32 w) = Inr (put_u32 w)"
| "put_value (VStr e) =
     (if length e > MaxByte then Inl InvalidStringLength else Inr (word_of_nat (length e) # e))"
| "put_value (VU16s e) =
     (if length e > MaxByte then Inl InvalidArrayLength
      else Inr (word_of_nat (length e) # concat (map put_u16 e)))"

fun constructPacketData :: "pvalue list \<Rightarrow> byte list \<times> packet_error option" where
  "constructPacketData [] = ([], None)"
| "constructPacketData (d # ds) =
     (case put_value d of
        Inl e \<Rightarrow> ([], Some e)
      | Inr b \<Rightarrow> (case constructPacketData ds of (bs, err) \<Rightarrow> (b @ bs, err)))"

fun get_str :: "byte list \<Rightarrow> (byte list \<times> byte list) option" where
  "get_str [] = None"
| "get_str (n # r) = (if length r < unat n then None else Some (take (unat n) r, drop (unat n) r))"

fun get_u16s :: "byte list \<Rightarrow> (uint16 list \<times> byte list) option" where
  "get_u16s [] = None"
| "get_u16s (n # r) = read_n get_u16 (unat n) r"

fun get_value :: "ptype \<Rightarrow> byte list \<Rightarrow> (pvalue \<times> byte list) option" where
  "get_value PU8 b = map_option (map_prod VU8 id) (get_u8 b)"
| "get_value PU16 b = map_option (map_prod VU16 id) (get_u16 b)"
| "get_value PU32 b = map_option (map_prod VU32 id) (get_u32 b)"
| "get_value PStr b = map_option (map_prod VStr id) (get_str b)"
| "get_value PU16s b = map_option (map_prod VU16s id) (get_u16s b)"

fun extractPacketData :: "ptype list \<Rightarrow> byte list \<Rightarrow> (pvalue list \<times> byte list) option" where
  "extractPacketData [] b = Some ([], b)"
| "extractPacketData (t # ts) b =
     (case get_value t b of
        None \<Rightarrow> None
      | Some (v, r) \<Rightarrow>
          (case extractPacketData ts r of None \<Rightarrow> None | Some (vs, r') \<Rightarrow> Some (v # vs, r')))"

record Ticket =
  Ticket_Plate :: "byte list"
  Ticket_Road :: uint16
  Mile1 :: uint16
  Timestamp1 :: uint32
  Mile2 :: uint16
  Timestamp2 :: uint32
  Speed :: uint16

datatype SpeedMsg =
    Unknown
  | Error "byte list"
  | Plate "byte list" uint32
  | TicketMsg Ticket
  | WantHeartbeat uint32
  | Heartbeat
  | IAmCamera uint16 uint16 uint16
  | IAmDispatcher "uint16 list"

fun SpeedMsg_Marshal :: "SpeedMsg \<Rightarrow> byte list \<times> packet_error option" where
  "SpeedMsg_Marshal Unknown = ([], None)"
| "SpeedMsg_Marshal (Error m) = constructPacketData [VU8 0x10, VStr m]"
| "SpeedMsg_Marshal (Plate p t) = constructPacketData [VU8 0x20, VStr p, VU32 t]"
| "SpeedMsg_Marshal (TicketMsg t) =
     constructPacketData [VU8 0x21, VStr (Ticket_Plate t), VU16 (Ticket_Road t), VU16 (Mile1 t), VU32 (Timestamp1 t),
       VU16 (Mile2 t), VU32 (Timestamp2 t), VU16 (Speed t)]"
| "SpeedMsg_Marshal (WantHeartbeat i) = constructPacketData [VU8 0x40, VU32 i]"
| "SpeedMsg_Marshal Heartbeat = constructPacketData [VU8 0x41]"
| "SpeedMsg_Marshal (IAmCamera r m l) = constructPacketData [VU8 0x80, VU16 r, VU16 m, VU16 l]"
| "SpeedMsg_Marshal (IAmDispatcher rs) = constructPacketData [VU8 0x81, VU16s rs]"

text \<open>
  The fields of a message type, and the message made of their values (no two message types
  have the same field types).
\<close>

definition field_types :: "byte \<Rightarrow> ptype list option" where
  "field_types t =
     (if t = 0x10 then Some [PStr] else if t = 0x20 then Some [PStr, PU32]
      else if t = 0x21 then Some [PStr, PU16, PU16, PU32, PU16, PU32, PU16]
      else if t = 0x40 then Some [PU32] else if t = 0x41 then Some []
      else if t = 0x80 then Some [PU16, PU16, PU16] else if t = 0x81 then Some [PU16s] else None)"

definition make_msg :: "pvalue list \<Rightarrow> SpeedMsg" where
  "make_msg vs =
     (case vs of
        [VStr m] \<Rightarrow> Error m
      | [VStr p, VU32 ts] \<Rightarrow> Plate p ts
      | [VStr p, VU16 r, VU16 m1, VU32 t1, VU16 m2, VU32 t2, VU16 s] \<Rightarrow>
          TicketMsg \<lparr>Ticket_Plate = p, Ticket_Road = r, Mile1 = m1, Timestamp1 = t1, Mile2 = m2, Timestamp2 = t2, Speed = s\<rparr>
      | [VU32 i] \<Rightarrow> WantHeartbeat i
      | [] \<Rightarrow> Heartbeat
      | [VU16 r, VU16 m, VU16 l] \<Rightarrow> IAmCamera r m l
      | [VU16s rs] \<Rightarrow> IAmDispatcher rs
      | _ \<Rightarrow> Unknown)"

definition SpeedMsg_Unmarshal :: "byte list \<Rightarrow> (SpeedMsg \<times> byte list) option" where
  "SpeedMsg_Unmarshal b =
     (case get_u8 b of
        None \<Rightarrow> None
      | Some (t, r) \<Rightarrow>
          (case field_types t of
             None \<Rightarrow> Some (Unknown, r)
           | Some ts \<Rightarrow>
               (case extractPacketData ts r of
                  None \<Rightarrow> None
                | Some (vs, r') \<Rightarrow> Some (make_msg vs, r'))))"

section \<open>Fields are prefix codecs\<close>

lemma unat_length: "length e \<le> MaxByte \<Longrightarrow> unat (word_of_nat (length e) :: byte) = length e"
  by (simp add: unat_byte_of_nat MaxByte_def)

interpretation str: prefix_codec "\<lambda>e. word_of_nat (length e) # e" get_str "\<lambda>e. length e \<le> MaxByte"
proof (unfold_locales, goal_cases)
  case (1 x r)
  then show ?case using unat_length [of x] by simp
next
  case (2 b x r s)
  then show ?case by (cases b) (auto split: if_splits)
qed

interpretation u16s: prefix_codec "\<lambda>e. word_of_nat (length e) # concat (map put_u16 e)" get_u16s "\<lambda>e. length e \<le> MaxByte"
proof (unfold_locales, goal_cases)
  case (1 x r)
  then show ?case using unat_length [of x] u16.read_n_enc [of x r] by simp
next
  case (2 b x r s)
  then show ?case using u16.read_n_extend by (cases b) auto
qed

fun value_ok :: "ptype \<Rightarrow> pvalue \<Rightarrow> bool" where
  "value_ok PU8 (VU8 _) = True" | "value_ok PU16 (VU16 _) = True" | "value_ok PU32 (VU32 _) = True"
| "value_ok PStr (VStr e) = (length e \<le> MaxByte)" | "value_ok PU16s (VU16s e) = (length e \<le> MaxByte)"
| "value_ok _ _ = False"

fun_cases value_okE [elim!]: "value_ok t v"

lemma get_put_value: "value_ok t v \<Longrightarrow> \<exists>b. put_value v = Inr b \<and> get_value t (b @ r) = Some (v, r)"
  using u8.dec_enc u16.dec_enc u32.dec_enc str.dec_enc u16s.dec_enc by (auto simp del: get_str.simps get_u16s.simps)

lemma get_value_extend: "get_value t b = Some (v, r) \<Longrightarrow> get_value t (b @ s) = Some (v, r @ s)"
  by (cases t)
    (auto dest: u8.dec_extend u16.dec_extend u32.dec_extend str.dec_extend u16s.dec_extend
      simp del: get_str.simps get_u16s.simps)

lemma construct_extract:
  "list_all2 value_ok ts vs \<Longrightarrow>
   snd (constructPacketData vs) = None \<and> extractPacketData ts (fst (constructPacketData vs) @ r) = Some (vs, r)"
proof (induction ts vs rule: list_all2_induct)
  case (Cons t ts v vs)
  obtain b where b: "put_value v = Inr b" "\<And>r. get_value t (b @ r) = Some (v, r)"
    using get_put_value [OF Cons.hyps(1)] by (metis sum.inject(2))
  then show ?case using Cons.IH by (simp add: case_prod_beta)
qed simp

lemma extract_extend: "extractPacketData ts b = Some (vs, r) \<Longrightarrow> extractPacketData ts (b @ s) = Some (vs, r @ s)"
proof (induction ts arbitrary: b vs)
  case (Cons t ts)
  then obtain v r1 ws where v: "get_value t b = Some (v, r1)" "extractPacketData ts r1 = Some (ws, r)" "vs = v # ws"
    by (auto split: option.splits)
  then show ?case using Cons.IH [OF v(2)] get_value_extend [OF v(1)] by simp
qed simp

section \<open>Messages are a prefix codec\<close>

fun msg_ok :: "SpeedMsg \<Rightarrow> bool" where
  "msg_ok Unknown = False"
| "msg_ok (Error m) = (length m \<le> MaxByte)"
| "msg_ok (Plate p t) = (length p \<le> MaxByte)"
| "msg_ok (TicketMsg t) = (length (Ticket_Plate t) \<le> MaxByte)"
| "msg_ok (IAmDispatcher rs) = (length rs \<le> MaxByte)"
| "msg_ok _ = True"

lemma get_type: "get_u8 (fst (constructPacketData (VU8 t # vs)) @ r) = Some (t, fst (constructPacketData vs) @ r)"
  by (simp add: put_u8_def case_prod_beta)

lemma unmarshal_type:
  assumes "field_types t = Some ts" "list_all2 value_ok ts vs"
  shows "SpeedMsg_Unmarshal (fst (constructPacketData (VU8 t # vs)) @ r) = Some (make_msg vs, r)"
  unfolding SpeedMsg_Unmarshal_def get_type using construct_extract [OF assms(2)] assms(1) by simp

lemma speed_dec_enc: "msg_ok m \<Longrightarrow> SpeedMsg_Unmarshal (fst (SpeedMsg_Marshal m) @ r) = Some (m, r)"
  by (cases m) (simp_all add: unmarshal_type field_types_def make_msg_def del: constructPacketData.simps(2))

lemma speed_dec_extend:
  assumes "SpeedMsg_Unmarshal b = Some (m, r)"
  shows "SpeedMsg_Unmarshal (b @ s) = Some (m, r @ s)"
proof -
  obtain t r1 where t: "get_u8 b = Some (t, r1)"
    using assms by (auto simp: SpeedMsg_Unmarshal_def split: option.splits)
  have t': "get_u8 (b @ s) = Some (t, r1 @ s)" using u8.dec_extend [OF t] .
  show ?thesis
  proof (cases "field_types t")
    case None
    then show ?thesis using assms t t' by (simp add: SpeedMsg_Unmarshal_def)
  next
    case (Some ts)
    then obtain vs where vs: "extractPacketData ts r1 = Some (vs, r)" "m = make_msg vs"
      using assms t by (auto simp: SpeedMsg_Unmarshal_def split: option.splits)
    show ?thesis using Some t' extract_extend [OF vs(1)] vs(2) by (simp add: SpeedMsg_Unmarshal_def)
  qed
qed

interpretation speed: prefix_codec "\<lambda>m. fst (SpeedMsg_Marshal m)" SpeedMsg_Unmarshal msg_ok
  by unfold_locales (use speed_dec_enc speed_dec_extend in auto)

section \<open>Properties of the messages\<close>

text \<open>
  C30: Round trip. A sequence of messages whose strings and lists have at most 255 entries is
  marshalled without error, and reading as many messages from the concatenated bytes, whatever
  follows them, gives the sequence back.
\<close>

theorem speed_stream_round_trip:
  assumes "\<forall>m\<in>set ms. msg_ok m"
  shows "(\<forall>m\<in>set ms. snd (SpeedMsg_Marshal m) = None) \<and>
    read_n SpeedMsg_Unmarshal (length ms) (concat (map (\<lambda>m. fst (SpeedMsg_Marshal m)) ms) @ r) = Some (ms, r)"
proof -
  have "snd (SpeedMsg_Marshal m) = None" if "msg_ok m" for m
    using that by (cases m) (simp_all add: case_prod_beta)
  with assms speed.read_n_enc [OF assms] show ?thesis by blast
qed

theorem speed_stream_round_trip_witness:
  "read_n SpeedMsg_Unmarshal 2 (fst (SpeedMsg_Marshal (Plate [85, 78] 1000)) @ fst (SpeedMsg_Marshal (IAmDispatcher [66, 5000])))
     = Some ([Plate [85, 78] 1000, IAmDispatcher [66, 5000]], [])"
  using speed_stream_round_trip [of "[Plate [85, 78] 1000, IAmDispatcher [66, 5000]]" "[]"]
  by (simp add: MaxByte_def numeral_2_eq_2 del: SpeedMsg_Marshal.simps)

text \<open>
  Reading is unambiguous: no message is a prefix of another, so the bytes on the wire
  determine the messages and their boundaries.
\<close>

theorem speed_prefix_free:
  assumes "msg_ok m" "msg_ok m'" "fst (SpeedMsg_Marshal m) @ r = fst (SpeedMsg_Marshal m') @ r'"
  shows "m = m' \<and> r = r'"
  using speed.enc_prefix_free [OF assms] .

theorem speed_prefix_free_witness:
  "fst (SpeedMsg_Marshal Heartbeat) @ [0] \<noteq> fst (SpeedMsg_Marshal (WantHeartbeat 10)) @ []"
  using speed_prefix_free [of Heartbeat "WantHeartbeat 10" "[0]" "[]"] by auto

end
