(* ===== verification/Go_Float.thy ===== *)
theory Go_Float
  imports Complex_Main Prelude
begin

text \<open>
  The part of Go's \<open>float64\<close> arithmetic that the speed daemon uses: non-negative values, each
  operation the exact result rounded to 53 significant bits, half to even (IEEE 754, in the
  range of normal numbers). A division by zero gives \<open>Inf\<close>. The conversion to \<open>uint16\<close> truncates; what it
  gives for a value that does not fit is left to the implementation by the language, and is
  the parameter \<open>oor\<close>.
\<close>

definition round_even :: "rat \<Rightarrow> int" where
  "round_even x =
     (let f = \<lfloor>x\<rfloor>; d = x - of_int f in
      if d < 1/2 then f else if 1/2 < d then f + 1 else if even f then f else f + 1)"

definition pow2 :: "int \<Rightarrow> rat" where
  "pow2 e = (if 0 \<le> e then 2 ^ nat e else 1 / 2 ^ nat (- e))"

text \<open>The exponent that brings \<open>x\<close> into \<open>[2^52, 2^53)\<close>; 2200 steps suffice for every \<open>float64\<close>.\<close>

fun scale_exp :: "nat \<Rightarrow> rat \<Rightarrow> int \<Rightarrow> int" where
  "scale_exp 0 x e = e"
| "scale_exp (Suc n) x e =
     (if 2 ^ 53 \<le> x then scale_exp n (x / 2) (e + 1)
      else if x < 2 ^ 52 then scale_exp n (x * 2) (e - 1)
      else e)"

definition fl :: "rat \<Rightarrow> rat" where
  "fl x = (if x \<le> 0 then 0
     else let e = scale_exp 2200 x 0 in of_int (round_even (x / pow2 e)) * pow2 e)"

datatype float64 = Fin rat | Inf

fun fdiv :: "rat \<Rightarrow> rat \<Rightarrow> float64" where
  "fdiv x y = (if y = 0 then Inf else Fin (fl (x / y)))"

fun fmul :: "float64 \<Rightarrow> rat \<Rightarrow> float64" where
  "fmul (Fin x) y = Fin (fl (x * y))"
| "fmul Inf y = Inf"

definition to_uint16 :: "(float64 \<Rightarrow> uint16) \<Rightarrow> float64 \<Rightarrow> uint16" where
  "to_uint16 oor x =
     (case x of
        Fin r \<Rightarrow> if \<lfloor>r\<rfloor> < 65536 then word_of_int \<lfloor>r\<rfloor> else oor x
      | Inf \<Rightarrow> oor x)"

section \<open>Rounding error\<close>

lemma round_even_error: "\<bar>of_int (round_even x) - x\<bar> \<le> 1/2"
proof -
  have "of_int \<lfloor>x\<rfloor> \<le> x" "x < of_int \<lfloor>x\<rfloor> + 1" by linarith+
  then show ?thesis unfolding round_even_def Let_def by (auto simp: abs_le_iff)
qed

lemma pow2_pos: "0 < pow2 e"
  by (simp add: pow2_def)

lemma pow2_Suc: "pow2 (e + 1) = 2 * pow2 e"
proof (cases "0 \<le> e")
  case True
  then show ?thesis by (simp add: pow2_def nat_add_distrib)
next
  case False
  then have "nat (- e) = Suc (nat (- (e + 1)))" by simp
  then show ?thesis using False by (simp add: pow2_def)
qed

lemma pow2_pred: "pow2 (e - 1) = pow2 e / 2"
  using pow2_Suc [of "e - 1"] by simp

text \<open>The loop keeps the scaled value, and reaches the range within the number of binary digits.\<close>

lemma scale_exp_correct:
  assumes "0 < x" "x * pow2 e = y"
    and "2 ^ 52 / 2 ^ n \<le> x" "x < 2 ^ 53 * 2 ^ n"
  shows "2 ^ 52 \<le> y / pow2 (scale_exp n x e)"
  using assms
proof (induction n arbitrary: x e)
  case 0
  have "y / pow2 e = x" using "0.prems"(2) pow2_pos [of e] by auto
  then show ?case using "0.prems"(3) by simp
next
  case (Suc n)
  consider "2 ^ 53 \<le> x" | "x < 2 ^ 52" | "2 ^ 52 \<le> x" "x < 2 ^ 53" by linarith
  then show ?case
  proof cases
    case 1
    have "2 ^ 52 / 2 ^ n \<le> (2 ^ 52 :: rat)" by (simp add: divide_le_eq)
    also have "2 ^ 52 \<le> x / 2" using 1 by simp
    finally have "2 ^ 52 / 2 ^ n \<le> x / 2" .
    moreover have "x / 2 < 2 ^ 53 * 2 ^ n" using Suc.prems(4) by simp
    ultimately show ?thesis
      using 1 Suc.IH [of "x / 2" "e + 1"] Suc.prems(1,2) by (simp add: pow2_Suc)
  next
    case 2
    have "x * 2 < 2 ^ 53" using 2 by simp
    also have "(2 ^ 53 :: rat) \<le> 2 ^ 53 * 2 ^ n" by simp
    finally have "x * 2 < 2 ^ 53 * 2 ^ n" .
    moreover have "2 ^ 52 / 2 ^ n \<le> x * 2" using Suc.prems(3) by (simp add: field_simps)
    ultimately show ?thesis
      using 2 Suc.IH [of "x * 2" "e - 1"] Suc.prems(1,2) by (simp add: pow2_pred)
  next
    case 3
    have "y / pow2 e = x" using Suc.prems(2) pow2_pos [of e] by auto
    then show ?thesis using 3 by simp
  qed
qed

lemma fl_error:
  assumes "1 / 2 ^ 1000 \<le> x" "x \<le> 2 ^ 1000"
  shows "\<bar>fl x - x\<bar> \<le> x / 2 ^ 53"
proof -
  have x: "0 < x" using assms(1) by (rule less_le_trans [rotated]) simp
  let ?p = "pow2 (scale_exp 2200 x 0)"
  have "(2 ^ 52 :: rat) / 2 ^ 2200 \<le> 1 / 2 ^ 1000" by simp
  moreover have "(2 ^ 1000 :: rat) < 2 ^ 53 * 2 ^ 2200" by simp
  ultimately have s: "2 ^ 52 \<le> x / ?p"
    using assms by (intro scale_exp_correct [OF x]) (auto simp: pow2_def)
  have p: "0 < ?p" by (rule pow2_pos)
  have "fl x - x = (of_int (round_even (x / ?p)) - x / ?p) * ?p"
    using x p by (simp add: fl_def Let_def algebra_simps)
  then have "\<bar>fl x - x\<bar> = \<bar>of_int (round_even (x / ?p)) - x / ?p\<bar> * ?p" using p by (simp add: abs_mult)
  also have "\<dots> \<le> 1/2 * ?p" using round_even_error p by (intro mult_right_mono) auto
  also have "\<dots> \<le> x / 2 ^ 53" using s p by (simp add: le_divide_eq)
  finally show ?thesis .
qed

end
