(* ===== verification/SpeedDaemon.thy ===== *)
theory SpeedDaemon
  imports SpeedMessage Go_Float
begin

text \<open>
  The speed daemon's server and sessions: \<open>6-speed-daemon/main.go\<close> (\<open>ProcessPlate\<close>, \<open>SendTicket\<close>,
  the dispatcher channels) and \<open>session.go\<close> (registration, requests, heartbeats). The nested maps
  of the server are functions with the empty default a missing key has in Go. The comparison
  passed to \<open>sort.SliceStable\<close> is not a strict weak order, so nothing but a permutation is
  guaranteed of the result: the sorting is the parameter \<open>srt\<close>. Speeds are \<open>float64\<close> values as
  in \<open>Go_Float\<close>. A send on a full channel is \<open>SendBlocked\<close>.

  Shown: no car gets two tickets that touch the same day, whatever the order of the
  observations; every offence the arithmetic sees is ticketed or falls on a day already
  ticketed; every ticket is made of two recorded positions in the order of time; the computed speed is
  within a relative error of 2^-51; a client registers at most once; old heartbeat loops end,
  up to the wrap-around of their 8 bit identifier; and the server blocks on the 1025th
  undelivered ticket of a road.
\<close>

record PositionLog =
  Mile :: uint16
  Timestamp :: uint32

record Server =
  DatabaseLogs :: "byte list \<Rightarrow> uint16 \<Rightarrow> PositionLog list"
  DispatcherChan :: "uint16 \<Rightarrow> Ticket list"
  TicketSent :: "byte list \<Rightarrow> uint32 set"

definition new_Server :: Server where
  "new_Server = \<lparr>DatabaseLogs = (\<lambda>_ _. []), DispatcherChan = (\<lambda>_. []), TicketSent = (\<lambda>_. {})\<rparr>"

definition chan_capacity :: nat where "chan_capacity = 1024"

section \<open>Tickets\<close>

datatype send_result = NotSent | Sent | SendBlocked

definition ticket_days :: "Ticket \<Rightarrow> uint32 list" where
  "ticket_days t =
     map word_of_nat [unat (Timestamp1 t div 86400) ..< Suc (unat (Timestamp2 t div 86400))]"

definition SendTicket :: "Ticket \<Rightarrow> Server \<Rightarrow> send_result \<times> Server" where
  "SendTicket t s =
     (if \<exists>i\<in>set (ticket_days t). i \<in> TicketSent s (Ticket_Plate t) then (NotSent, s)
      else
        let s' = s\<lparr>TicketSent := (TicketSent s)
                     (Ticket_Plate t := TicketSent s (Ticket_Plate t) \<union> set (ticket_days t))\<rparr>;
            ch = DispatcherChan s (Ticket_Road t)
        in if chan_capacity \<le> length ch then (SendBlocked, s')
           else (Sent, s'\<lparr>DispatcherChan := (DispatcherChan s)(Ticket_Road t := ch @ [t])\<rparr>))"

text \<open>A dispatcher's listener takes the oldest ticket of its road.\<close>

definition take_ticket :: "uint16 \<Rightarrow> Server \<Rightarrow> Ticket option \<times> Server" where
  "take_ticket road s =
     (case DispatcherChan s road of
        [] \<Rightarrow> (None, s)
      | t # ts \<Rightarrow> (Some t, s\<lparr>DispatcherChan := (DispatcherChan s)(road := ts)\<rparr>))"

section \<open>Observations\<close>

definition speed_of :: "PositionLog \<Rightarrow> PositionLog \<Rightarrow> float64" where
  "speed_of p q =
     fdiv \<bar>of_nat (unat (Mile q)) - of_nat (unat (Mile p))\<bar>
       (fl ((of_nat (unat (Timestamp q)) - of_nat (unat (Timestamp p))) / 3600))"

definition below_limit :: "(float64 \<Rightarrow> uint16) \<Rightarrow> uint16 \<Rightarrow> float64 \<Rightarrow> bool" where
  "below_limit oor limit speed =
     (let speedRounded = to_uint16 oor speed;
          small = (case speed of Inf \<Rightarrow> False | Fin r \<Rightarrow> fl (r - of_nat (unat speedRounded)) < 1/2)
      in speedRounded < limit \<or> speedRounded = limit \<and> small)"

definition order_pair :: "PositionLog \<Rightarrow> PositionLog \<Rightarrow> PositionLog \<times> PositionLog" where
  "order_pair curPosition position =
     (if Timestamp curPosition > Timestamp position then (position, curPosition) else (curPosition, position))"

definition ticket_of ::
  "(float64 \<Rightarrow> uint16) \<Rightarrow> byte list \<Rightarrow> uint16 \<Rightarrow> PositionLog \<times> PositionLog \<Rightarrow> Ticket" where
  "ticket_of oor plate road pq =
     (case pq of (p, q) \<Rightarrow>
        \<lparr>Ticket_Plate = plate, Ticket_Road = road, Mile1 = Mile p, Timestamp1 = Timestamp p,
         Mile2 = Mile q, Timestamp2 = Timestamp q, Speed = to_uint16 oor (fmul (speed_of p q) 100)\<rparr>)"

text \<open>
  The loop over the positions; it gives the tickets sent, and whether it is stuck in a send.
\<close>

fun check_positions ::
  "(float64 \<Rightarrow> uint16) \<Rightarrow> byte list \<Rightarrow> uint16 \<Rightarrow> uint16 \<Rightarrow> PositionLog \<Rightarrow> PositionLog list \<Rightarrow> Server \<Rightarrow>
   (Ticket list \<times> bool) \<times> Server" where
  "check_positions oor plate road limit cp [] s = (([], False), s)"
| "check_positions oor plate road limit cp (position # ps) s =
     (if position = cp \<or> below_limit oor limit (case_prod speed_of (order_pair cp position))
      then check_positions oor plate road limit cp ps s
      else let t = ticket_of oor plate road (order_pair cp position) in
        (case SendTicket t s of
           (SendBlocked, s') \<Rightarrow> (([], True), s')
         | (r, s') \<Rightarrow>
             (case check_positions oor plate road limit cp ps s' of
                ((ts, b), s'') \<Rightarrow> ((if r = Sent then t # ts else ts, b), s''))))"

datatype SessionType = SessionTypeUnknown | SessionTypeCamera uint16 uint16 uint16 | SessionTypeDispatcher "uint16 list"

record Session =
  sessType :: SessionType
  heartBeatID :: uint8
  listeners :: "uint16 list"

definition new_Session :: Session where
  "new_Session = \<lparr>sessType = SessionTypeUnknown, heartBeatID = 0, listeners = []\<rparr>"

definition ascii :: "string \<Rightarrow> byte list" where
  "ascii s = map (\<lambda>c. word_of_nat (of_char c)) s"

definition GetCameraInfo :: "Session \<Rightarrow> byte list + uint16 \<times> uint16 \<times> uint16" where
  "GetCameraInfo se =
     (case sessType se of
        SessionTypeCamera r m l \<Rightarrow> Inr (r, m, l)
      | _ \<Rightarrow> Inl (ascii ''not a dispatcher client''))"

definition GetDispatcherInfo :: "Session \<Rightarrow> byte list + uint16 list" where
  "GetDispatcherInfo se =
     (case sessType se of
        SessionTypeDispatcher rs \<Rightarrow> Inr rs
      | _ \<Rightarrow> Inl (ascii ''not a dispatcher client''))"

definition ProcessPlate ::
  "(PositionLog list \<Rightarrow> PositionLog list) \<Rightarrow> (float64 \<Rightarrow> uint16) \<Rightarrow> Session \<Rightarrow> byte list \<Rightarrow> uint32 \<Rightarrow> Server \<Rightarrow>
   byte list + (Ticket list \<times> bool) \<times> Server" where
  "ProcessPlate srt oor se plate ts s =
     (case GetCameraInfo se of
        Inl e \<Rightarrow> Inl e
      | Inr (road, mile, limit) \<Rightarrow>
          let cp = \<lparr>Mile = mile, Timestamp = ts\<rparr>;
              logs = srt (DatabaseLogs s plate road @ [cp]);
              s' = s\<lparr>DatabaseLogs := (DatabaseLogs s)(plate := (DatabaseLogs s plate)(road := logs))\<rparr>
          in Inr (check_positions oor plate road limit cp logs s'))"

section \<open>Requests of a session\<close>

definition HandleClientRegistration :: "SpeedMsg \<Rightarrow> Session \<Rightarrow> byte list + Session" where
  "HandleClientRegistration req se =
     (case sessType se of
        SessionTypeCamera _ _ _ \<Rightarrow> Inl (ascii ''session already identified as camera'')
      | SessionTypeDispatcher _ \<Rightarrow> Inl (ascii ''session already identified as dispatcher'')
      | SessionTypeUnknown \<Rightarrow>
          (case req of
             IAmCamera r m l \<Rightarrow> Inr (se\<lparr>sessType := SessionTypeCamera r m l\<rparr>)
           | IAmDispatcher rs \<Rightarrow>
               Inr (se\<lparr>sessType := SessionTypeDispatcher rs, listeners := listeners se @ rs\<rparr>)
           | _ \<Rightarrow> Inr se))"

text \<open>The locked part of \<open>HandleHeartBeat\<close>; the loop it starts runs as long as its number is the current one.\<close>

definition HandleHeartBeat_start :: "Session \<Rightarrow> uint8 \<times> Session" where
  "HandleHeartBeat_start se = (heartBeatID se + 1, se\<lparr>heartBeatID := heartBeatID se + 1\<rparr>)"

definition heartbeat_continues :: "uint32 \<Rightarrow> uint8 \<Rightarrow> Session \<Rightarrow> bool" where
  "heartbeat_continues interval hbID se \<longleftrightarrow> 0 < interval \<and> heartBeatID se = hbID"

definition HandleRequest ::
  "(PositionLog list \<Rightarrow> PositionLog list) \<Rightarrow> (float64 \<Rightarrow> uint16) \<Rightarrow> SpeedMsg \<Rightarrow> Session \<Rightarrow> Server \<Rightarrow>
   SpeedMsg option \<times> Session \<times> Server" where
  "HandleRequest srt oor req se s =
     (case req of
        Plate p ts \<Rightarrow>
          (case ProcessPlate srt oor se p ts s of
             Inl e \<Rightarrow> (Some (Error e), se, s)
           | Inr (_, s') \<Rightarrow> (None, se, s'))
      | WantHeartbeat i \<Rightarrow> (None, snd (HandleHeartBeat_start se), s)
      | IAmCamera _ _ _ \<Rightarrow>
          (case HandleClientRegistration req se of Inl e \<Rightarrow> (Some (Error e), se, s) | Inr se' \<Rightarrow> (None, se', s))
      | IAmDispatcher _ \<Rightarrow>
          (case HandleClientRegistration req se of Inl e \<Rightarrow> (Some (Error e), se, s) | Inr se' \<Rightarrow> (None, se', s))
      | _ \<Rightarrow> (Some (Error (ascii ''not a valid request'')), se, s))"

section \<open>One ticket per day\<close>

text \<open>
  The atomic sections of the server, in any order: a ticket is offered to \<open>SendTicket\<close>, a
  dispatcher takes one, the log of a road is changed. An offered ticket is issued unless it is
  refused (one that blocks is delivered when there is room).
\<close>

datatype server_event = Offer Ticket | Take uint16 | Log "byte list" uint16 "PositionLog list"

fun server_exec :: "server_event \<Rightarrow> Server \<Rightarrow> Ticket list \<times> Server" where
  "server_exec (Offer t) s = (case SendTicket t s of (r, s') \<Rightarrow> (if r = NotSent then [] else [t], s'))"
| "server_exec (Take road) s = ([], snd (take_ticket road s))"
| "server_exec (Log plate road logs) s =
     ([], s\<lparr>DatabaseLogs := (DatabaseLogs s)(plate := (DatabaseLogs s plate)(road := logs))\<rparr>)"

fun issued :: "server_event list \<Rightarrow> Server \<Rightarrow> Ticket list" where
  "issued [] s = []"
| "issued (e # es) s = (case server_exec e s of (ts, s') \<Rightarrow> ts @ issued es s')"

definition no_common_day :: "Ticket \<Rightarrow> Ticket \<Rightarrow> bool" where
  "no_common_day t u \<longleftrightarrow> Ticket_Plate t = Ticket_Plate u \<longrightarrow> set (ticket_days t) \<inter> set (ticket_days u) = {}"

lemma SendTicket_effect:
  "SendTicket t s = (r, s') \<Longrightarrow>
   (r = NotSent \<longrightarrow> set (ticket_days t) \<inter> TicketSent s (Ticket_Plate t) \<noteq> {} \<and> s' = s) \<and>
   (r \<noteq> NotSent \<longrightarrow> set (ticket_days t) \<inter> TicketSent s (Ticket_Plate t) = {} \<and>
      TicketSent s' = (TicketSent s)(Ticket_Plate t := TicketSent s (Ticket_Plate t) \<union> set (ticket_days t)))"
  by (auto simp: SendTicket_def Let_def split: if_splits)

lemma take_ticket_sent [simp]: "TicketSent (snd (take_ticket road s)) = TicketSent s"
  by (simp add: take_ticket_def split: list.split)

lemma issued_new_days:
  "t \<in> set (issued es s) \<Longrightarrow> set (ticket_days t) \<inter> TicketSent s (Ticket_Plate t) = {}"
proof (induction es arbitrary: s)
  case (Cons e es)
  show ?case
  proof (cases e)
    case (Offer u)
    obtain r s' where r: "SendTicket u s = (r, s')" by fastforce
    have "TicketSent s p \<subseteq> TicketSent s' p" for p using SendTicket_effect [OF r] by (cases "r = NotSent") auto
    moreover have "t = u \<and> r \<noteq> NotSent \<or> t \<in> set (issued es s')" using Cons.prems Offer r by (auto split: if_splits)
    ultimately show ?thesis using SendTicket_effect [OF r] Cons.IH [of s'] by blast
  next
    case (Take road)
    then show ?thesis using Cons.prems Cons.IH [of "snd (take_ticket road s)"] by simp
  next
    case (Log plate road logs)
    then show ?thesis
      using Cons.prems
        Cons.IH [of "s\<lparr>DatabaseLogs := (DatabaseLogs s)(plate := (DatabaseLogs s plate)(road := logs))\<rparr>"]
      by simp
  qed
qed simp

lemma issued_disjoint: "sorted_wrt no_common_day (issued es s)"
proof (induction es arbitrary: s)
  case (Cons e es)
  show ?case
  proof (cases e)
    case (Offer t)
    obtain r s' where r: "SendTicket t s = (r, s')" by fastforce
    have "no_common_day t u" if "u \<in> set (issued es s')" "r \<noteq> NotSent" for u
      using issued_new_days [OF that(1)] SendTicket_effect [OF r] that(2) by (auto simp: no_common_day_def)
    with Cons.IH r Offer show ?thesis by auto
  qed (use Cons.IH in \<open>auto simp: case_prod_beta\<close>)
qed simp

section \<open>Every offence is ticketed, every ticket is an offence\<close>

lemma order_pair_time: "order_pair c p = (a, b) \<Longrightarrow> Timestamp a \<le> Timestamp b \<and> {a, b} = {c, p}"
  by (auto simp: order_pair_def split: if_splits)

lemma ticket_days_ne: "Timestamp1 t \<le> Timestamp2 t \<Longrightarrow> ticket_days t \<noteq> []"
proof -
  assume "Timestamp1 t \<le> Timestamp2 t"
  then have "unat (Timestamp1 t div 86400) \<le> unat (Timestamp2 t div 86400)"
    by (simp add: unat_div_distrib word_le_nat_alt div_le_mono)
  then show ?thesis by (simp add: ticket_days_def)
qed

lemma ticket_of_simps [simp]:
  "Ticket_Plate (ticket_of oor plate road pq) = plate" "Ticket_Road (ticket_of oor plate road pq) = road"
  "Timestamp1 (ticket_of oor plate road pq) = Timestamp (fst pq)"
  "Timestamp2 (ticket_of oor plate road pq) = Timestamp (snd pq)"
  "Mile1 (ticket_of oor plate road pq) = Mile (fst pq)" "Mile2 (ticket_of oor plate road pq) = Mile (snd pq)"
  by (simp_all add: ticket_of_def split: prod.split)

definition offence :: "(float64 \<Rightarrow> uint16) \<Rightarrow> uint16 \<Rightarrow> PositionLog \<Rightarrow> PositionLog \<Rightarrow> bool" where
  "offence oor limit cp p \<longleftrightarrow> p \<noteq> cp \<and> \<not> below_limit oor limit (case_prod speed_of (order_pair cp p))"

lemma check_positions_sent_mono:
  "check_positions oor plate road limit cp ps s = ((ts, b), s') \<Longrightarrow> TicketSent s pl \<subseteq> TicketSent s' pl"
proof (induction ps arbitrary: s ts b s')
  case (Cons p ps)
  show ?case
  proof (cases "p = cp \<or> below_limit oor limit (case_prod speed_of (order_pair cp p))")
    case True
    then show ?thesis using Cons by auto
  next
    case False
    obtain r s1 where r: "SendTicket (ticket_of oor plate road (order_pair cp p)) s = (r, s1)" by fastforce
    have m: "TicketSent s pl \<subseteq> TicketSent s1 pl" using SendTicket_effect [OF r] by (cases "r = NotSent") auto
    obtain us b' s2 where us: "check_positions oor plate road limit cp ps s1 = ((us, b'), s2)" by (metis prod.exhaust)
    have "s' = s1 \<or> s' = s2" using Cons.prems False r us by (cases r) (auto simp: Let_def)
    then show ?thesis using m Cons.IH [OF us] by auto
  qed
qed simp

lemma check_positions_complete:
  assumes "check_positions oor plate road limit cp ps s = ((ts, False), s')" "p \<in> set ps" "offence oor limit cp p"
  shows "set (ticket_days (ticket_of oor plate road (order_pair cp p))) \<inter> TicketSent s' plate \<noteq> {}"
  using assms(1,2)
proof (induction ps arbitrary: s ts)
  case (Cons q ps)
  show ?case
  proof (cases "offence oor limit cp q")
    case False
    then have "check_positions oor plate road limit cp ps s = ((ts, False), s')" "p \<in> set ps"
      using Cons.prems assms(3) by (auto simp: offence_def)
    then show ?thesis by (rule Cons.IH)
  next
    case True
    let ?t = "ticket_of oor plate road (order_pair cp q)"
    obtain r s1 where r: "SendTicket ?t s = (r, s1)" by fastforce
    have go: "r \<noteq> SendBlocked" using Cons.prems(1) True r by (auto simp: offence_def Let_def)
    then obtain us where us: "check_positions oor plate road limit cp ps s1 = ((us, False), s')"
      using Cons.prems(1) True r by (cases r) (auto simp: offence_def Let_def split: prod.splits)
    have "set (ticket_days ?t) \<noteq> {}"
      using ticket_days_ne [of ?t] order_pair_time [of cp q] by (cases "order_pair cp q") auto
    then have "set (ticket_days ?t) \<inter> TicketSent s1 plate \<noteq> {}"
      using SendTicket_effect [OF r] by (cases "r = NotSent") auto
    then have "set (ticket_days ?t) \<inter> TicketSent s' plate \<noteq> {}"
      using check_positions_sent_mono [OF us, of plate] by blast
    then show ?thesis using Cons.IH [OF us] Cons.prems(2) by auto
  qed
qed simp

lemma check_positions_justified:
  "check_positions oor plate road limit cp ps s = ((ts, b), s') \<Longrightarrow> t \<in> set ts \<Longrightarrow>
   \<exists>p\<in>set ps. offence oor limit cp p \<and> t = ticket_of oor plate road (order_pair cp p)"
proof (induction ps arbitrary: s ts b s')
  case (Cons q ps)
  show ?case
  proof (cases "offence oor limit cp q")
    case False
    then show ?thesis using Cons by (auto simp: offence_def)
  next
    case True
    obtain r s1 where r: "SendTicket (ticket_of oor plate road (order_pair cp q)) s = (r, s1)" by fastforce
    obtain us b' s2 where us: "check_positions oor plate road limit cp ps s1 = ((us, b'), s2)" by (metis prod.exhaust)
    have "t = ticket_of oor plate road (order_pair cp q) \<or> t \<in> set us"
      using Cons.prems True r us by (cases r) (auto simp: offence_def Let_def split: if_splits)
    then show ?thesis using Cons.IH [OF us] True by auto
  qed
qed simp

section \<open>Accuracy of the computed speed\<close>

lemma quotient_error:
  fixes x y z :: rat
  assumes "0 \<le> x" "0 < y" "\<bar>z - y\<bar> \<le> y / 2 ^ 53"
  shows "0 < z" "\<bar>x / z - x / y\<bar> \<le> x / y / 2 ^ 52"
proof -
  have "y / 2 ^ 53 \<le> y / 2" using assms(2) by simp
  then have z: "y / 2 \<le> z" using assms(3) by linarith
  then show pos: "0 < z" using assms(2) by linarith
  have "x / z - x / y = x / y * ((y - z) / z)" using assms(2) pos by (simp add: field_simps)
  then have eq: "\<bar>x / z - x / y\<bar> = x / y * (\<bar>y - z\<bar> / z)"
    using assms(1,2) pos by (simp add: abs_mult)
  have "\<bar>y - z\<bar> / z \<le> (y / 2 ^ 53) / (y / 2)"
    using assms(2,3) z by (intro frac_le) (auto simp: abs_minus_commute)
  also have "(y / 2 ^ 53) / (y / 2) = 1 / 2 ^ 52" using assms(2) by simp
  finally have "x / y * (\<bar>y - z\<bar> / z) \<le> x / y * (1 / 2 ^ 52)"
    using assms(1,2) by (intro mult_left_mono) simp_all
  then show "\<bar>x / z - x / y\<bar> \<le> x / y / 2 ^ 52" unfolding eq by simp
qed

lemma fl_zero: "fl 0 = 0"
  by (simp add: fl_def)

definition exact_speed :: "PositionLog \<Rightarrow> PositionLog \<Rightarrow> rat" where
  "exact_speed p q =
     \<bar>of_nat (unat (Mile q)) - of_nat (unat (Mile p))\<bar> /
     ((of_nat (unat (Timestamp q)) - of_nat (unat (Timestamp p))) / 3600)"

lemma fl_error_small:
  assumes "1 / 2 ^ 40 \<le> x" "x \<le> 2 ^ 40"
  shows "\<bar>fl x - x\<bar> \<le> x / 2 ^ 53"
proof (rule fl_error)
  have "(1 :: rat) / 2 ^ 1000 \<le> 1 / 2 ^ 40" by simp
  then show "1 / 2 ^ 1000 \<le> x" using assms(1) by (rule order_trans)
  have "(2 :: rat) ^ 40 \<le> 2 ^ 1000" by simp
  then show "x \<le> 2 ^ 1000" by (rule order_trans [OF assms(2)])
qed

lemma rounded_quotient:
  assumes d: "d = 0 \<or> 1 \<le> d" "d \<le> 2 ^ 16" and h: "1 / 3600 \<le> h" "h \<le> 2 ^ 32"
  shows "0 < fl h \<and> \<bar>fl (d / fl h) - d / h\<bar> \<le> d / h / 2 ^ 51"
proof -
  have hp: "0 < h" and d0: "0 \<le> d" using h(1) d(1) by linarith+
  have e: "\<bar>fl h - h\<bar> \<le> h / 2 ^ 53" using h by (intro fl_error_small) simp_all
  note q = quotient_error [OF d0 hp e]
  let ?r = "d / fl h"
  show ?thesis
  proof (cases "d = 0")
    case True
    then show ?thesis using q(1) by (simp add: fl_zero)
  next
    case False
    then have d1: "1 \<le> d" using d(1) by simp
    have "h / 2 ^ 53 \<le> h / 2" using hp by simp
    then have fh: "fl h \<le> 2 * h" "h / 2 \<le> fl h" using e hp by linarith+
    have "1 / (2 * 2 ^ 32) \<le> ?r" using d1 fh(1) h(2) q(1) by (intro frac_le) simp_all
    moreover have "?r \<le> 2 ^ 16 / (1 / 7200)" using d(2) fh(2) h(1) d0 by (intro frac_le) simp_all
    moreover have "(1 :: rat) / 2 ^ 40 \<le> 1 / (2 * 2 ^ 32)" "2 ^ 16 / (1 / 7200) \<le> (2 :: rat) ^ 40" by simp_all
    ultimately have "1 / 2 ^ 40 \<le> ?r" "?r \<le> 2 ^ 40" by (blast intro: order_trans)+
    then have f: "\<bar>fl ?r - ?r\<bar> \<le> ?r / 2 ^ 53" by (rule fl_error_small)
    have b: "0 \<le> d / h" using d0 hp by simp
    have "d / h / 2 ^ 52 \<le> d / h" using b by simp
    then have "?r \<le> 2 * (d / h)" using q(2) by (simp add: abs_le_iff)
    then have "?r / 2 ^ 53 \<le> d / h / 2 ^ 52" by simp
    moreover have "d / h / 2 ^ 52 + d / h / 2 ^ 52 = d / h / 2 ^ 51" by simp
    ultimately show ?thesis using f q by (auto simp: abs_le_iff)
  qed
qed

lemma mile_distance:
  fixes m k :: nat
  assumes "m < 2 ^ 16" "k < 2 ^ 16"
  shows "\<bar>rat_of_nat m - rat_of_nat k\<bar> = 0 \<or> 1 \<le> \<bar>rat_of_nat m - rat_of_nat k\<bar>"
    and "\<bar>rat_of_nat m - rat_of_nat k\<bar> \<le> 2 ^ 16"
proof -
  have eq: "\<bar>rat_of_nat m - rat_of_nat k\<bar> = rat_of_int \<bar>int m - int k\<bar>" by simp
  have "\<bar>int m - int k\<bar> = 0 \<or> 1 \<le> \<bar>int m - int k\<bar>" by linarith
  then show "\<bar>rat_of_nat m - rat_of_nat k\<bar> = 0 \<or> 1 \<le> \<bar>rat_of_nat m - rat_of_nat k\<bar>"
    unfolding eq by (metis of_int_0 of_int_1 of_int_le_iff)
  have "\<bar>int m - int k\<bar> \<le> 2 ^ 16" using assms by simp
  then have "rat_of_int \<bar>int m - int k\<bar> \<le> rat_of_int (2 ^ 16)" by (simp only: of_int_le_iff)
  then show "\<bar>rat_of_nat m - rat_of_nat k\<bar> \<le> 2 ^ 16" unfolding eq by simp
qed

lemma time_distance:
  fixes t u :: nat
  assumes "t < u" "u < 2 ^ 32"
  shows "1 / 3600 \<le> (rat_of_nat u - rat_of_nat t) / 3600" "(rat_of_nat u - rat_of_nat t) / 3600 \<le> 2 ^ 32"
proof -
  have eq: "rat_of_nat u - rat_of_nat t = rat_of_nat (u - t)" using assms(1) by (simp add: of_nat_diff)
  have "rat_of_nat 1 \<le> rat_of_nat (u - t)" "rat_of_nat (u - t) \<le> rat_of_nat (2 ^ 32)"
    using assms by (simp_all only: of_nat_le_iff)
  then show "1 / 3600 \<le> (rat_of_nat u - rat_of_nat t) / 3600" "(rat_of_nat u - rat_of_nat t) / 3600 \<le> 2 ^ 32"
    unfolding eq by simp_all
qed

lemma speed_error:
  assumes "Timestamp p < Timestamp q"
  shows "\<exists>v. speed_of p q = Fin v \<and> \<bar>v - exact_speed p q\<bar> \<le> exact_speed p q / 2 ^ 51"
proof -
  have t: "unat (Timestamp p) < unat (Timestamp q)" "unat (Timestamp q) < 2 ^ 32"
    using assms unsigned_less [of "Timestamp q", where ?'a = nat] by (simp_all add: word_less_nat_alt)
  have m: "unat (Mile q) < 2 ^ 16" "unat (Mile p) < 2 ^ 16"
    using unsigned_less [of "Mile q", where ?'a = nat] unsigned_less [of "Mile p", where ?'a = nat] by simp_all
  note r = rounded_quotient [OF mile_distance [OF m] time_distance [OF t]]
  then show ?thesis
    unfolding speed_of_def exact_speed_def fdiv.simps
    by (intro exI conjI if_not_P) (auto simp del: of_nat_unat)
qed

section \<open>Properties of the speed daemon\<close>


definition sample_ticket :: "uint32 \<Rightarrow> uint32 \<Rightarrow> Ticket" where
  "sample_ticket t u =
     \<lparr>Ticket_Plate = [65], Ticket_Road = 1, Mile1 = 8, Timestamp1 = t, Mile2 = 9, Timestamp2 = u, Speed = 8000\<rparr>"

lemmas speed_eval =
  SendTicket_def new_Server_def chan_capacity_def ticket_days_def sample_ticket_def Let_def


text \<open>
  No offence is missed: when an observation has been processed, each earlier position of the
  car on that road that gives, with the new one, a speed not below the limit is covered by a
  ticket: a day of that pair is one on which the car has been ticketed.
\<close>

theorem offences_are_ticketed:
  assumes "ProcessPlate srt oor se plate ts s = Inr ((tickets, False), s')"
    and "sessType se = SessionTypeCamera road mile limit" and "\<forall>xs. mset (srt xs) = mset xs"
    and "p \<in> set (DatabaseLogs s plate road)" and "offence oor limit \<lparr>Mile = mile, Timestamp = ts\<rparr> p"
  shows "set (ticket_days (ticket_of oor plate road (order_pair \<lparr>Mile = mile, Timestamp = ts\<rparr> p))) \<inter>
    TicketSent s' plate \<noteq> {}"
proof -
  let ?cp = "\<lparr>Mile = mile, Timestamp = ts\<rparr>"
  have "set (srt (DatabaseLogs s plate road @ [?cp])) = set (DatabaseLogs s plate road @ [?cp])"
    using assms(3) by (metis set_mset_mset)
  then have "p \<in> set (srt (DatabaseLogs s plate road @ [?cp]))" using assms(4) by simp
  then show ?thesis
    using assms(1,2) check_positions_complete [OF _ _ assms(5)]
    by (auto simp: ProcessPlate_def GetCameraInfo_def Let_def)
qed

definition sample_camera :: Session where
  "sample_camera = new_Session\<lparr>sessType := SessionTypeCamera 1 9 60\<rparr>"

definition sample_server :: Server where
  "sample_server = new_Server\<lparr>DatabaseLogs := (\<lambda>p r. if p = [65] \<and> r = 1 then [\<lparr>Mile = 8, Timestamp = 0\<rparr>] else [])\<rparr>"

abbreviation saturate :: "float64 \<Rightarrow> uint16" where
  "saturate \<equiv> \<lambda>_. 65535"

lemma sample_offence: "offence saturate 60 \<lparr>Mile = 9, Timestamp = 0\<rparr> \<lparr>Mile = 8, Timestamp = 0\<rparr>"
  by (simp add: offence_def order_pair_def speed_of_def below_limit_def to_uint16_def fl_zero)

lemma sample_process:
  "\<exists>t s'. ProcessPlate id saturate sample_camera [65] 0 sample_server = Inr (([t], False), s')"
  using sample_offence
  by (simp add: ProcessPlate_def GetCameraInfo_def sample_camera_def sample_server_def Let_def offence_def
      SendTicket_def new_Server_def chan_capacity_def)

theorem offences_are_ticketed_witness:
  "\<exists>tickets s'. ProcessPlate id saturate sample_camera [65] 0 sample_server = Inr ((tickets, False), s') \<and>
    TicketSent s' [65] \<noteq> {}"
proof -
  obtain t s' where p: "ProcessPlate id saturate sample_camera [65] 0 sample_server = Inr (([t], False), s')"
    using sample_process by blast
  have "TicketSent s' [65] \<noteq> {}"
    using offences_are_ticketed [OF p _ _ _ sample_offence, of 1] by (auto simp: sample_camera_def sample_server_def)
  with p show ?thesis by blast
qed

text \<open>
  Every ticket is an offence: a ticket sent for an observation names the plate and the road,
  its two positions are the new one and one of the recorded ones in the order of time, and the
  computed speed between them is not below the limit.
\<close>

theorem tickets_are_offences:
  assumes "ProcessPlate srt oor se plate ts s = Inr ((tickets, b), s')"
    and "sessType se = SessionTypeCamera road mile limit" and "\<forall>xs. mset (srt xs) = mset xs"
    and "t \<in> set tickets"
  shows "Ticket_Plate t = plate \<and> Ticket_Road t = road \<and> Timestamp1 t \<le> Timestamp2 t \<and>
    (\<exists>p\<in>set (DatabaseLogs s plate road).
       offence oor limit \<lparr>Mile = mile, Timestamp = ts\<rparr> p \<and>
       {(Mile1 t, Timestamp1 t), (Mile2 t, Timestamp2 t)} = {(mile, ts), (Mile p, Timestamp p)})"
proof -
  let ?cp = "\<lparr>Mile = mile, Timestamp = ts\<rparr>"
  have "set (srt (DatabaseLogs s plate road @ [?cp])) = set (DatabaseLogs s plate road @ [?cp])"
    using assms(3) by (metis set_mset_mset)
  moreover obtain st where c: "check_positions oor plate road limit ?cp (srt (DatabaseLogs s plate road @ [?cp])) st =
      ((tickets, b), s')"
    using assms(1,2) by (auto simp: ProcessPlate_def GetCameraInfo_def Let_def)
  ultimately obtain p where p: "p \<in> set (DatabaseLogs s plate road @ [?cp])" "offence oor limit ?cp p"
    "t = ticket_of oor plate road (order_pair ?cp p)"
    using check_positions_justified [OF c assms(4)] by auto
  moreover have "p \<noteq> ?cp" using p(2) by (simp add: offence_def)
  moreover obtain a c where ac: "order_pair ?cp p = (a, c)" by fastforce
  moreover have "Timestamp a \<le> Timestamp c" "a = ?cp \<and> c = p \<or> a = p \<and> c = ?cp"
    using ac by (auto simp: order_pair_def split: if_splits)
  ultimately show ?thesis by auto
qed

theorem tickets_are_offences_witness:
  "\<exists>t s'. ProcessPlate id saturate sample_camera [65] 0 sample_server = Inr (([t], False), s') \<and>
    Ticket_Plate t = [65] \<and> Ticket_Road t = 1"
proof -
  obtain t s' where p: "ProcessPlate id saturate sample_camera [65] 0 sample_server = Inr (([t], False), s')"
    using sample_process by blast
  then show ?thesis using tickets_are_offences [OF p, of 1 9 60 t] by (auto simp: sample_camera_def)
qed



text \<open>
  C31: Accuracy: for two positions at different times the computed speed differs from the exact
  average speed by at most a factor of 2^-51.
\<close>

theorem speed_is_accurate:
  assumes "Timestamp p < Timestamp q"
  shows "\<exists>v. speed_of p q = Fin v \<and> \<bar>v - exact_speed p q\<bar> \<le> exact_speed p q / 2 ^ 51"
  using speed_error [OF assms] .

theorem speed_is_accurate_witness:
  "\<exists>v. speed_of \<lparr>Mile = 8, Timestamp = 0\<rparr> \<lparr>Mile = 9, Timestamp = 45\<rparr> = Fin v \<and> \<bar>v - 80\<bar> \<le> 80 / 2 ^ 51"
  using speed_is_accurate [of "\<lparr>Mile = 8, Timestamp = 0\<rparr>" "\<lparr>Mile = 9, Timestamp = 45\<rparr>"]
  by (simp add: exact_speed_def)

text \<open>
  The server stalls on a road without dispatchers: when 1024 tickets of a road wait for a
  dispatcher, the next ticket for it blocks inside \<open>SendTicket\<close>, which holds the lock of the
  tickets and, through \<open>ProcessPlate\<close>, the lock of the logs, and its day is marked already.
\<close>

theorem full_road_blocks:
  assumes "length (DispatcherChan s (Ticket_Road t)) = 1024"
    and "set (ticket_days t) \<inter> TicketSent s (Ticket_Plate t) = {}"
  shows "\<exists>s'. SendTicket t s = (SendBlocked, s') \<and> set (ticket_days t) \<subseteq> TicketSent s' (Ticket_Plate t)"
  using assms by (auto simp: SendTicket_def chan_capacity_def Let_def)

theorem full_road_blocks_witness:
  "\<exists>s'. SendTicket (sample_ticket 0 45) (new_Server\<lparr>DispatcherChan := (\<lambda>_. replicate 1024 (sample_ticket 0 1))\<rparr>) =
    (SendBlocked, s')"
  using full_road_blocks [of "new_Server\<lparr>DispatcherChan := (\<lambda>_. replicate 1024 (sample_ticket 0 1))\<rparr>" "sample_ticket 0 45"]
  by (auto simp: new_Server_def)

text \<open>
  Requests of a session. A client is identified at most once: once it is a camera or a
  dispatcher, no request changes that; a plate from a client that is not a camera is answered
  with an error and leaves the server as it is; so is every message that is not a request.
\<close>

theorem session_requests:
  assumes "HandleRequest srt oor req se s = (resp, se', s')"
  shows "(sessType se \<noteq> SessionTypeUnknown \<longrightarrow> sessType se' = sessType se) \<and>
    ((\<forall>r m l. sessType se \<noteq> SessionTypeCamera r m l) \<longrightarrow> s' = s) \<and>
    ((\<forall>p ts. req = Plate p ts \<longrightarrow> (\<forall>r m l. sessType se \<noteq> SessionTypeCamera r m l)) \<and>
      (\<forall>i. req \<noteq> WantHeartbeat i) \<and>
      (sessType se = SessionTypeUnknown \<longrightarrow> (\<forall>r m l. req \<noteq> IAmCamera r m l) \<and> (\<forall>rs. req \<noteq> IAmDispatcher rs)) \<longrightarrow>
      (\<exists>e. resp = Some (Error e)) \<and> se' = se \<and> s' = s)"
  using assms
  by (cases req; cases "sessType se")
    (auto simp: HandleRequest_def ProcessPlate_def GetCameraInfo_def HandleClientRegistration_def
      HandleHeartBeat_start_def Let_def split: prod.splits)

theorem session_requests_witness:
  "\<exists>e. HandleRequest id saturate (IAmDispatcher [1]) sample_camera new_Server = (Some (Error e), sample_camera, new_Server)"
proof -
  obtain r se' s' where h: "HandleRequest id saturate (IAmDispatcher [1]) sample_camera new_Server = (r, se', s')"
    by (metis prod.exhaust)
  show ?thesis using session_requests [OF h] h by (auto simp: sample_camera_def)
qed

fun heartbeat_requests :: "nat \<Rightarrow> Session \<Rightarrow> Session" where
  "heartbeat_requests 0 se = se"
| "heartbeat_requests (Suc k) se = heartbeat_requests k (snd (HandleHeartBeat_start se))"

lemma heartbeat_requests_id: "heartBeatID (heartbeat_requests k se) = heartBeatID se + word_of_nat k"
  by (induction k arbitrary: se) (simp_all add: HandleHeartBeat_start_def)

text \<open>
  Only the latest heartbeat runs, up to wrap-around: after \<open>k\<close> further heartbeat requests the
  loop of an earlier one goes on exactly when \<open>k\<close> is a multiple of 256, the range of its number.
\<close>

theorem heartbeat_superseded:
  assumes "HandleHeartBeat_start se = (hbID, se')" "0 < interval"
  shows "heartbeat_continues interval hbID (heartbeat_requests k se') \<longleftrightarrow> 256 dvd k"
proof -
  have "hbID = heartBeatID se'" using assms(1) by (auto simp: HandleHeartBeat_start_def)
  then have "heartbeat_continues interval hbID (heartbeat_requests k se') \<longleftrightarrow> (word_of_nat k :: uint8) = 0"
    using assms(2) by (simp add: heartbeat_continues_def heartbeat_requests_id)
  also have "\<dots> \<longleftrightarrow> 256 dvd k" by (simp add: word_of_nat_eq_0_iff)
  finally show ?thesis .
qed

theorem heartbeat_superseded_witness:
  "\<not> heartbeat_continues 10 1 (heartbeat_requests 1 (new_Session\<lparr>heartBeatID := 1\<rparr>)) \<and>
   heartbeat_continues 10 1 (heartbeat_requests 256 (new_Session\<lparr>heartBeatID := 1\<rparr>))"
proof -
  have "HandleHeartBeat_start new_Session = (1, new_Session\<lparr>heartBeatID := 1\<rparr>)"
    by (simp add: HandleHeartBeat_start_def new_Session_def)
  from heartbeat_superseded [OF this, of 10 1] heartbeat_superseded [OF this, of 10 256] show ?thesis by simp
qed

end
