(* ===== verification/Go_Bufio.thy ===== *)
theory Go_Bufio
  imports Prelude
begin

text \<open>
  The standard library's \<open>bufio.Reader\<close> as the servers use it: \<open>ReadSlice\<close> and \<open>ReadBytes\<close> over a
  source that delivers its bytes in pieces of any size. The source is the list of what its reads
  give; a piece longer than the free part of the buffer is delivered in several reads, and the
  empty list is end of file. A reader that transforms what it reads (a cipher) sits between the
  source and the buffer, as a state and a function on the pieces.

  The locale \<open>stream_map\<close> says what such a transformer promises (it does not depend on how the
  stream is cut); under it the slices returned, one after the other, are the transformed stream,
  cut after delimiters.
\<close>

datatype bufio_error = ErrBufferFull | ErrEOF

text \<open>Buffered bytes, transformer state, source.\<close>

type_synonym ('a, 's) breader = "'a list \<times> 's \<times> 'a list list"

fun src_size :: "'a list list \<Rightarrow> nat" where
  "src_size [] = 0"
| "src_size (c # src) = Suc (length c) + src_size src"

function ReadSlice ::
  "('s \<Rightarrow> 'a list \<Rightarrow> 's \<times> 'a list) \<Rightarrow> nat \<Rightarrow> 'a \<Rightarrow> ('a, 's) breader \<Rightarrow>
   (bufio_error option \<times> 'a list) \<times> ('a, 's) breader" where
  "ReadSlice rd room delim (buf, st, src) =
     (if delim \<in> set buf then
        ((None, takeWhile (\<lambda>b. b \<noteq> delim) buf @ [delim]), (tl (dropWhile (\<lambda>b. b \<noteq> delim) buf), st, src))
      else if room \<le> length buf then ((Some ErrBufferFull, buf), ([], st, src))
      else case src of
             [] \<Rightarrow> ((Some ErrEOF, buf), ([], st, []))
           | c # src' \<Rightarrow>
               let n = min (room - length buf) (length c);
                   (st', p) = rd st (take n c)
               in ReadSlice rd room delim
                    (buf @ p, st', if n = length c then src' else drop n c # src'))"
  by pat_completeness auto
termination
  by (relation "measure (\<lambda>(_, _, _, _, _, src). src_size src)") (auto split: if_splits)

declare ReadSlice.simps [simp del]

lemma takeWhile_before: "d \<notin> set xs \<Longrightarrow> takeWhile (\<lambda>b. b \<noteq> d) (xs @ d # ys) = xs"
  by (induction xs) auto

lemma dropWhile_before: "d \<notin> set xs \<Longrightarrow> dropWhile (\<lambda>b. b \<noteq> d) (xs @ d # ys) = d # ys"
  by (induction xs) auto

lemma split_first_unique:
  "d \<notin> set xs \<Longrightarrow> d \<notin> set ys \<Longrightarrow> xs @ d # us = ys @ d # vs \<Longrightarrow> xs = ys \<and> us = vs"
  using takeWhile_before [of d xs us] takeWhile_before [of d ys vs] by simp

section \<open>Transformers of a stream\<close>

locale stream_map =
  fixes rd :: "'s \<Rightarrow> 'a list \<Rightarrow> 's \<times> 'a list"
  assumes rd_Nil: "rd s [] = (s, [])"
    and rd_append: "rd s (xs @ ys) = (let (s1, p) = rd s xs; (s2, q) = rd s1 ys in (s2, p @ q))"
    and rd_length: "length (snd (rd s xs)) = length xs"
begin

definition content :: "('a, 's) breader \<Rightarrow> 'a list" where
  "content r = (case r of (buf, st, src) \<Rightarrow> buf @ snd (rd st (concat src)))"

definition weight :: "('a, 's) breader \<Rightarrow> nat" where
  "weight r = (case r of (buf, st, src) \<Rightarrow> length buf + src_size src)"

lemma content_fill:
  assumes "rd st (take n c) = (st', p)"
  shows "content (buf @ p, st', if n = length c then src else drop n c # src) = content (buf, st, c # src)"
proof -
  have "rd st (take n c @ (drop n c @ concat src)) = (let (s2, q) = rd st' (drop n c @ concat src) in (s2, p @ q))"
    by (simp only: rd_append [of st "take n c"] assms Let_def case_prod_conv)
  then have "rd st (c @ concat src) = (let (s2, q) = rd st' (drop n c @ concat src) in (s2, p @ q))"
    unfolding append_assoc [symmetric] append_take_drop_id .
  then show ?thesis by (simp add: content_def case_prod_beta)
qed

lemma weight_fill:
  assumes "rd st (take n c) = (st', p)" "n \<le> length c"
  shows "weight (buf @ p, st', if n = length c then src else drop n c # src) \<le> weight (buf, st, c # src)"
  using rd_length [of st "take n c"] assms by (simp add: weight_def)

text \<open>What one slice is: the buffer content up to the delimiter, a full buffer, or all that is left.\<close>

definition slice_ok :: "nat \<Rightarrow> 'a \<Rightarrow> ('a, 's) breader \<Rightarrow> (bufio_error option \<times> 'a list) \<times> ('a, 's) breader \<Rightarrow> bool" where
  "slice_ok room delim r res =
     (case res of ((err, frag), r') \<Rightarrow>
        frag @ content r' = content r \<and> weight r' \<le> weight r \<and>
        (case err of
           None \<Rightarrow> weight r' < weight r \<and> (\<exists>l. frag = l @ [delim] \<and> delim \<notin> set l)
         | Some ErrBufferFull \<Rightarrow> weight r' < weight r \<and> room \<le> length frag \<and> delim \<notin> set frag
         | Some ErrEOF \<Rightarrow> content r' = [] \<and> delim \<notin> set frag \<and> length frag < room))"

lemma slice_ok_fill:
  assumes "slice_ok room delim r1 res" "content r1 = content r" "weight r1 \<le> weight r"
  shows "slice_ok room delim r res"
  using assms unfolding slice_ok_def by (auto split: option.splits bufio_error.splits)

lemma ReadSlice_ok: "0 < room \<Longrightarrow> slice_ok room delim (buf, st, src) (ReadSlice rd room delim (buf, st, src))"
proof (induction "src_size src" arbitrary: buf st src rule: less_induct)
  case less
  consider (found) "delim \<in> set buf" | (full) "delim \<notin> set buf" "room \<le> length buf"
    | (eof) "delim \<notin> set buf" "length buf < room" "src = []"
    | (more) c src' where "delim \<notin> set buf" "length buf < room" "src = c # src'"
    by (cases src) force+
  then show ?case
  proof cases
    case found
    then obtain xs ys where xs: "buf = xs @ delim # ys" "delim \<notin> set xs" by (meson split_list_first)
    then have "takeWhile (\<lambda>b. b \<noteq> delim) buf = xs" "dropWhile (\<lambda>b. b \<noteq> delim) buf = delim # ys"
      by (simp_all add: takeWhile_before dropWhile_before)
    then show ?thesis
      using found xs by (subst ReadSlice.simps) (simp add: slice_ok_def content_def weight_def)
  next
    case full
    then show ?thesis using less.prems
      by (subst ReadSlice.simps) (auto simp: slice_ok_def content_def weight_def)
  next
    case eof
    then show ?thesis
      by (subst ReadSlice.simps) (auto simp: slice_ok_def content_def weight_def rd_Nil)
  next
    case more
    define n where "n = min (room - length buf) (length c)"
    define src'' where "src'' = (if n = length c then src' else drop n c # src')"
    obtain st' p where rd: "rd st (take n c) = (st', p)" by fastforce
    have "src_size src'' < src_size src" using more by (auto simp: src''_def n_def)
    from less.hyps [OF this less.prems]
    have ok: "slice_ok room delim (buf @ p, st', src'') (ReadSlice rd room delim (buf @ p, st', src''))" .
    have "n \<le> length c" by (simp add: n_def)
    from content_fill [OF rd, of buf src'] weight_fill [OF rd this, of buf src']
    have "slice_ok room delim (buf, st, src) (ReadSlice rd room delim (buf @ p, st', src''))"
      unfolding more(3) src''_def [symmetric] by (rule slice_ok_fill [OF ok])
    moreover have "ReadSlice rd room delim (buf, st, src) = ReadSlice rd room delim (buf @ p, st', src'')"
      using more rd by (subst ReadSlice.simps) (simp add: Let_def n_def src''_def)
    ultimately show ?thesis by simp
  qed
qed

text \<open>Eliminations of the four outcomes, as the callers need them.\<close>

lemma ReadSlice_delim:
  assumes "ReadSlice rd room delim r = ((None, frag), r')" "0 < room"
  obtains l where "frag = l @ [delim]" "delim \<notin> set l" "content r = l @ delim # content r'" "weight r' < weight r"
  using ReadSlice_ok [OF assms(2), of delim "fst r" "fst (snd r)" "snd (snd r)"] assms(1) that
  by (auto simp: slice_ok_def)

lemma ReadSlice_full:
  assumes "ReadSlice rd room delim r = ((Some ErrBufferFull, frag), r')" "0 < room"
  shows "delim \<notin> set frag \<and> content r = frag @ content r' \<and> room \<le> length frag \<and> weight r' < weight r"
  using ReadSlice_ok [OF assms(2), of delim "fst r" "fst (snd r)" "snd (snd r)"] assms(1)
  by (auto simp: slice_ok_def)

lemma ReadSlice_EOF:
  assumes "ReadSlice rd room delim r = ((Some ErrEOF, frag), r')" "0 < room"
  shows "delim \<notin> set frag \<and> content r = frag \<and> content r' = [] \<and> length frag < room"
  using ReadSlice_ok [OF assms(2), of delim "fst r" "fst (snd r)" "snd (snd r)"] assms(1)
  by (auto simp: slice_ok_def)

lemma ReadSlice_found:
  assumes "content r = l @ delim # rest" "delim \<notin> set l" "length l < room"
  obtains r' where "ReadSlice rd room delim r = ((None, l @ [delim]), r')" "content r' = rest"
proof -
  have pos: "0 < room" using assms(3) by simp
  obtain err frag r' where res: "ReadSlice rd room delim r = ((err, frag), r')" by (metis surj_pair)
  show ?thesis
  proof (cases err)
    case None
    from ReadSlice_delim [OF res [unfolded None] pos] obtain k where
      "frag = k @ [delim]" "delim \<notin> set k" "content r = k @ delim # content r'" by blast
    with assms(1,2) have "frag = l @ [delim]" "content r' = rest"
      using split_first_unique [of delim k l "content r'" rest] by auto
    with res None that show ?thesis by blast
  next
    case (Some e)
    then have "delim \<notin> set frag" "length l < length frag" "\<exists>t. content r = frag @ t"
      using ReadSlice_full [of room delim r frag r'] ReadSlice_EOF [of room delim r frag r'] res assms pos
      by (cases e; auto)+
    with assms(1) have False by (auto simp: append_eq_append_conv2 Cons_eq_append_conv)
    then show ?thesis ..
  qed
qed

lemma ReadSlice_last:
  assumes "delim \<notin> set (content r)" "length (content r) < room"
  obtains r' where "ReadSlice rd room delim r = ((Some ErrEOF, content r), r')"
proof -
  have pos: "0 < room" using assms(2) by simp
  obtain err frag r' where res: "ReadSlice rd room delim r = ((err, frag), r')" by (metis surj_pair)
  have "err \<noteq> None" using ReadSlice_delim [of room delim r frag r'] res pos assms(1)
    by (metis in_set_conv_decomp)
  moreover have "err \<noteq> Some ErrBufferFull"
    using ReadSlice_full [of room delim r frag r'] res pos assms(2) by auto
  ultimately have err: "err = Some ErrEOF" by (cases err) (use bufio_error.exhaust in auto)
  with ReadSlice_EOF [of room delim r frag r'] res pos that show ?thesis by simp
qed

end

section \<open>Reading without a transformer\<close>

definition plain_read :: "unit \<Rightarrow> 'a list \<Rightarrow> unit \<times> 'a list" where
  "plain_read s xs = (s, xs)"

interpretation plain: stream_map plain_read
  by unfold_locales (auto simp: plain_read_def)

text \<open>\<open>bufio.NewReader\<close>'s buffer has 4096 bytes. \<open>ReadBytes\<close> joins full buffers until the delimiter or an error.\<close>

definition defaultBufSize :: nat where
  "defaultBufSize = 4096"

lemma defaultBufSize_pos: "0 < defaultBufSize"
  by (simp add: defaultBufSize_def)

function ReadBytes ::
  "'a \<Rightarrow> ('a, unit) breader \<Rightarrow> 'a list \<Rightarrow> (bufio_error option \<times> 'a list) \<times> ('a, unit) breader" where
  "ReadBytes delim r full =
     (case ReadSlice plain_read defaultBufSize delim r of
        ((err, frag), r') \<Rightarrow>
          if err = Some ErrBufferFull then ReadBytes delim r' (full @ frag) else ((err, full @ frag), r'))"
  by pat_completeness auto
termination
  by (relation "measure (\<lambda>(_, r, _). plain.weight r)")
    (auto dest!: plain.ReadSlice_full [OF _ defaultBufSize_pos] sym [where t = "ReadSlice _ _ _ _"])

declare ReadBytes.simps [simp del]

text \<open>\<open>ReadBytes\<close> returns the next line with its terminator, however the connection delivers it.\<close>

lemma ReadBytes_spec:
  "\<exists>r'. if delim \<in> set (plain.content r)
        then \<exists>l. ReadBytes delim r full = ((None, full @ l @ [delim]), r') \<and> delim \<notin> set l \<and>
                 plain.content r = l @ delim # plain.content r'
        else ReadBytes delim r full = ((Some ErrEOF, full @ plain.content r), r') \<and> plain.content r' = []"
proof (induction delim r full rule: ReadBytes.induct)
  case (1 delim r full)
  obtain err frag r' where res: "ReadSlice plain_read defaultBufSize delim r = ((err, frag), r')"
    by (metis surj_pair)
  consider "err = None" | "err = Some ErrBufferFull" | "err = Some ErrEOF"
    by (cases err) (use bufio_error.exhaust in auto)
  then show ?case
  proof cases
    assume e: "err = None"
    from plain.ReadSlice_delim [OF res [unfolded e] defaultBufSize_pos] obtain l where
      "frag = l @ [delim]" "delim \<notin> set l" "plain.content r = l @ delim # plain.content r'" by metis
    then show ?thesis using res e by (subst (1 2) ReadBytes.simps) auto
  next
    assume e: "err = Some ErrBufferFull"
    then have "ReadBytes delim r full = ReadBytes delim r' (full @ frag)"
      using res by (subst ReadBytes.simps) simp
    then show ?thesis
      using "1.IH" [OF res [symmetric] refl e]
        plain.ReadSlice_full [OF res [unfolded e] defaultBufSize_pos]
      by (auto split: if_splits)
  next
    assume e: "err = Some ErrEOF"
    then show ?thesis using res plain.ReadSlice_EOF [OF res [unfolded e] defaultBufSize_pos]
      by (subst (1 2) ReadBytes.simps) auto
  qed
qed

lemma ReadBytes_shorter:
  "((err, l), r') = ReadBytes delim r full \<Longrightarrow> \<not> err \<noteq> None \<Longrightarrow> length (plain.content r') < length (plain.content r)"
  using ReadBytes_spec [of delim r full] by (auto split: if_splits)

text \<open>\<open>bufio.NewReader\<close> on a connection or a pipe.\<close>

definition new_reader :: "string list \<Rightarrow> (char, unit) breader" where
  "new_reader src = ([], (), src)"

lemma content_new_reader: "plain.content (new_reader src) = concat src"
  by (simp add: plain.content_def new_reader_def plain_read_def)

end
