(* ===== verification/IslCipher.thy ===== *)
theory IslCipher
  imports Go_Bufio
begin

text \<open>
  The ciphers of the insecure sockets layer, \<open>8-insecure-sockets-layer/isl/cipher.go\<close>: the five
  cipher operations with their stream positions, the chains that \<open>NewReader\<close> and \<open>NewWriter\<close>
  build from a cipher spec, and the parser of specs with its no-op check.

  \<open>Read(p)\<close> of an operation transforms the whole buffer \<open>p\<close> of its caller although only the
  first \<open>n\<close> bytes were read, and advances its position by \<open>n\<close>; \<open>Write(p)\<close> transforms \<open>p\<close> and
  advances by the \<open>n\<close> bytes the underlying writer took. In the definitions \<open>n\<close> is what the
  connection at the end of the chain returned. Operations of a chain always have an underlying
  reader or writer (\<open>NewReader\<close> and \<open>NewWriter\<close> set it), so the guards against nil are not reached.
  Positions are Go's 64 bit \<open>int\<close>; only their low byte is used.

  The interface \<open>stream_cipher\<close> is what a session relies on: reading undoes writing, however
  the bytes are cut into calls on the two sides.
\<close>

unbundle bit_operations_syntax

datatype CipherOperation = ReverseBits | Xor byte | XorPos nat | Add byte | AddPos nat

text \<open>\<open>math/bits.Reverse8\<close>: bit \<open>k\<close> of the result is bit \<open>7 - k\<close> of the argument.\<close>

definition Reverse8 :: "byte \<Rightarrow> byte" where
  "Reverse8 b = horner_sum of_bool 2 (map (bit b) [7, 6, 5, 4, 3, 2, 1, 0])"

text \<open>\<open>for i, b := range p { p[i] = f(i, b) }\<close>, from index \<open>i\<close> on.\<close>

fun range_map :: "(nat \<Rightarrow> 'a \<Rightarrow> 'b) \<Rightarrow> nat \<Rightarrow> 'a list \<Rightarrow> 'b list" where
  "range_map f i [] = []"
| "range_map f i (b # p) = f i b # range_map f (Suc i) p"

fun op_Copy :: "CipherOperation \<Rightarrow> CipherOperation" where
  "op_Copy ReverseBits = ReverseBits"
| "op_Copy (Xor N) = Xor N"
| "op_Copy (XorPos pos) = XorPos 0"
| "op_Copy (Add N) = Add N"
| "op_Copy (AddPos pos) = AddPos 0"

text \<open>The loop bodies of \<open>Read\<close> and \<open>Write\<close>, and \<open>c.pos += n\<close>.\<close>

fun read_byte_at :: "CipherOperation \<Rightarrow> nat \<Rightarrow> byte \<Rightarrow> byte" where
  "read_byte_at ReverseBits i b = Reverse8 b"
| "read_byte_at (Xor N) i b = b XOR N"
| "read_byte_at (XorPos pos) i b = b XOR word_of_nat (pos + i)"
| "read_byte_at (Add N) i b = b - N"
| "read_byte_at (AddPos pos) i b = b - word_of_nat (pos + i)"

fun write_byte_at :: "CipherOperation \<Rightarrow> nat \<Rightarrow> byte \<Rightarrow> byte" where
  "write_byte_at ReverseBits i b = Reverse8 b"
| "write_byte_at (Xor N) i b = b XOR N"
| "write_byte_at (XorPos pos) i b = b XOR word_of_nat (pos + i)"
| "write_byte_at (Add N) i b = b + N"
| "write_byte_at (AddPos pos) i b = b + word_of_nat (pos + i)"

fun op_advance :: "nat \<Rightarrow> CipherOperation \<Rightarrow> CipherOperation" where
  "op_advance n (XorPos pos) = XorPos (pos + n)"
| "op_advance n (AddPos pos) = AddPos (pos + n)"
| "op_advance n op = op"

definition op_Read :: "CipherOperation \<Rightarrow> nat \<Rightarrow> byte list \<Rightarrow> CipherOperation \<times> byte list" where
  "op_Read c n p = (op_advance n c, range_map (read_byte_at c) 0 p)"

definition op_Write :: "CipherOperation \<Rightarrow> nat \<Rightarrow> byte list \<Rightarrow> CipherOperation \<times> byte list" where
  "op_Write c n p = (op_advance n c, range_map (write_byte_at c) 0 p)"

section \<open>Chains\<close>

text \<open>
  A chain is the list of its operations from the outermost to the one next to the connection.
  The outermost operation is the first of the spec for the reader and for the writer: a read
  applies it last, a write applies it first.
\<close>

definition NewReader :: "CipherOperation list \<Rightarrow> CipherOperation list" where
  "NewReader Operations = map op_Copy Operations"

definition NewWriter :: "CipherOperation list \<Rightarrow> CipherOperation list" where
  "NewWriter Operations = map op_Copy Operations"

fun chain_Read :: "nat \<Rightarrow> CipherOperation list \<Rightarrow> byte list \<Rightarrow> CipherOperation list \<times> byte list" where
  "chain_Read n [] p = ([], p)"
| "chain_Read n (c # cs) p =
     (let (cs', q) = chain_Read n cs p; (c', r) = op_Read c n q in (c' # cs', r))"

fun chain_Write :: "nat \<Rightarrow> CipherOperation list \<Rightarrow> byte list \<Rightarrow> CipherOperation list \<times> byte list" where
  "chain_Write n [] p = ([], p)"
| "chain_Write n (c # cs) p =
     (let (c', q) = op_Write c n p; (cs', r) = chain_Write n cs q in (c' # cs', r))"

text \<open>A read that fills its part of the buffer, and a write that is taken completely.\<close>

definition cipher_read :: "CipherOperation list \<Rightarrow> byte list \<Rightarrow> CipherOperation list \<times> byte list" where
  "cipher_read cs p = chain_Read (length p) cs p"

definition cipher_write :: "CipherOperation list \<Rightarrow> byte list \<Rightarrow> CipherOperation list \<times> byte list" where
  "cipher_write cs p = chain_Write (length p) cs p"

section \<open>Cipher specs\<close>

datatype spec_error = SpecEOF | SpecInvalidType | SpecNoOp

text \<open>A read into a buffer of one byte.\<close>

fun next_byte :: "'a list list \<Rightarrow> ('a \<times> 'a list list) option" where
  "next_byte [] = None"
| "next_byte ([] # src) = next_byte src"
| "next_byte ((b # c) # src) = Some (b, c # src)"

text \<open>One iteration of the loop: an operation, or \<open>None\<close> at the end marker.\<close>

definition read_operation :: "byte list list \<Rightarrow> spec_error + CipherOperation option \<times> byte list list" where
  "read_operation src =
     (case next_byte src of
        None \<Rightarrow> Inl SpecEOF
      | Some (b, src1) \<Rightarrow>
          if b = 0x00 then Inr (None, src1)
          else if b = 0x01 then Inr (Some ReverseBits, src1)
          else if b = 0x02 then
            (case next_byte src1 of None \<Rightarrow> Inl SpecEOF | Some (N, src2) \<Rightarrow> Inr (Some (Xor N), src2))
          else if b = 0x03 then Inr (Some (XorPos 0), src1)
          else if b = 0x04 then
            (case next_byte src1 of None \<Rightarrow> Inl SpecEOF | Some (N, src2) \<Rightarrow> Inr (Some (Add N), src2))
          else if b = 0x05 then Inr (Some (AddPos 0), src1)
          else Inl SpecInvalidType)"

lemma next_byteD: "next_byte src = Some (b, src') \<Longrightarrow> concat src = b # concat src'"
  by (induction src rule: next_byte.induct) auto

text \<open>The bytes that denote an operation.\<close>

fun op_code :: "CipherOperation \<Rightarrow> byte list" where
  "op_code ReverseBits = [1]"
| "op_code (Xor N) = [2, N]"
| "op_code (XorPos pos) = [3]"
| "op_code (Add N) = [4, N]"
| "op_code (AddPos pos) = [5]"

lemma read_operation_sound:
  "read_operation src = Inr (x, src') \<Longrightarrow>
   case x of None \<Rightarrow> concat src = 0 # concat src'
   | Some c \<Rightarrow> op_Copy c = c \<and> concat src = op_code c @ concat src'"
  by (auto simp: read_operation_def split: option.splits if_splits dest!: next_byteD)

lemma read_operation_shorter: "read_operation src = Inr (Some c, src') \<Longrightarrow> length (concat src') < length (concat src)"
  using read_operation_sound [of src "Some c" src'] by (cases c) auto

function read_operations ::
  "CipherOperation list \<Rightarrow> byte list list \<Rightarrow> spec_error + CipherOperation list \<times> byte list list" where
  "read_operations ops src =
     (case read_operation src of
        Inl e \<Rightarrow> Inl e
      | Inr (None, src') \<Rightarrow> Inr (ops, src')
      | Inr (Some c, src') \<Rightarrow> read_operations (ops @ [c]) src')"
  by pat_completeness auto
termination
  by (relation "measure (\<lambda>(_, src). length (concat src))") (simp, simp only: in_measure split_conv, metis read_operation_shorter)

declare read_operations.simps [simp del]

text \<open>The bytes of \<open>"4x dog,5x car\n"\<close>.\<close>

definition dataValidation :: "byte list" where
  "dataValidation = [52, 120, 32, 100, 111, 103, 44, 53, 120, 32, 99, 97, 114, 10]"

definition ReadCipherSpec :: "byte list list \<Rightarrow> spec_error + CipherOperation list \<times> byte list list" where
  "ReadCipherSpec src =
     (case read_operations [] src of
        Inl e \<Rightarrow> Inl e
      | Inr (ops, src') \<Rightarrow>
          let n = length dataValidation;
              bufValidation = snd (chain_Read n (NewReader ops) dataValidation)
          in if dataValidation = take n bufValidation then Inl SpecNoOp else Inr (ops, src'))"

section \<open>Single operations\<close>

lemma bit_Reverse8: "k < 8 \<Longrightarrow> bit (Reverse8 b) k = bit b (7 - k)"
  unfolding Reverse8_def bit_horner_sum_bit_word_iff
  by (auto simp: less_Suc_eq numeral_eq_Suc)

lemma Reverse8_Reverse8 [simp]: "Reverse8 (Reverse8 b) = b"
  by (rule bit_word_eqI) (simp add: bit_Reverse8)

lemma read_write_byte [simp]: "read_byte_at c i (write_byte_at c i b) = b"
  by (cases c) (simp_all add: xor.assoc)

lemma write_read_byte [simp]: "write_byte_at c i (read_byte_at c i b) = b"
  by (cases c) (simp_all add: xor.assoc)

lemma length_range_map [simp]: "length (range_map f i p) = length p"
  by (induction p arbitrary: i) auto

lemma range_map_append: "range_map f i (p @ q) = range_map f i p @ range_map f (i + length p) q"
  by (induction p arbitrary: i) auto

lemma range_map_shift: "range_map f (k + i) q = range_map (\<lambda>i. f (k + i)) i q"
  by (induction q arbitrary: i) (auto simp flip: add_Suc_right)

lemma range_map_inverse: "(\<And>i b. f i (g i b) = b) \<Longrightarrow> range_map f i (range_map g i p) = p"
  by (induction p arbitrary: i) auto

lemma byte_at_advance:
  "read_byte_at c (n + i) = read_byte_at (op_advance n c) i"
  "write_byte_at c (n + i) = write_byte_at (op_advance n c) i"
  by (cases c; simp add: fun_eq_iff algebra_simps)+

lemma op_advance_advance: "op_advance m (op_advance n c) = op_advance (n + m) c" "op_advance 0 c = c"
  by (cases c; simp)+

lemma range_map_advance:
  "range_map (read_byte_at c) 0 (p @ q) =
   range_map (read_byte_at c) 0 p @ range_map (read_byte_at (op_advance (length p) c)) 0 q"
  "range_map (write_byte_at c) 0 (p @ q) =
   range_map (write_byte_at c) 0 p @ range_map (write_byte_at (op_advance (length p) c)) 0 q"
  using range_map_shift [of "read_byte_at c" "length p" 0 q] range_map_shift [of "write_byte_at c" "length p" 0 q]
  by (simp_all add: range_map_append byte_at_advance)

section \<open>The interface of a stream cipher\<close>

text \<open>The pieces that a sequence of calls turns a sequence of pieces into.\<close>

fun pieces :: "('s \<Rightarrow> 'a list \<Rightarrow> 's \<times> 'a list) \<Rightarrow> 's \<Rightarrow> 'a list list \<Rightarrow> 's \<times> 'a list list" where
  "pieces rd s [] = (s, [])"
| "pieces rd s (p # ps) = (let (s1, q) = rd s p; (s2, qs) = pieces rd s1 ps in (s2, q # qs))"

context stream_map
begin

lemma pieces_concat:
  "fst (rd s (concat ps)) = fst (pieces rd s ps) \<and> snd (rd s (concat ps)) = concat (snd (pieces rd s ps))"
  by (induction ps arbitrary: s) (auto simp: rd_Nil rd_append case_prod_beta Let_def)

end

locale stream_cipher = enc: stream_map enc + dec: stream_map dec
  for enc :: "'s \<Rightarrow> 'a list \<Rightarrow> 's \<times> 'a list" and dec :: "'s \<Rightarrow> 'a list \<Rightarrow> 's \<times> 'a list" +
  assumes dec_enc: "dec s (snd (enc s p)) = (fst (enc s p), p)"
    and enc_dec: "enc s (snd (dec s p)) = (fst (dec s p), p)"
begin

text \<open>Reading in pieces of any size gives what was written in pieces of any size.\<close>

lemma pieces_round_trip:
  assumes "concat rs = concat (snd (pieces enc s ws))"
  shows "concat (snd (pieces dec s rs)) = concat ws"
    and "fst (pieces dec s rs) = fst (pieces enc s ws)"
  using dec.pieces_concat [of s rs] enc.pieces_concat [of s ws] dec_enc [of s "concat ws"] assms by auto

end

definition op_read :: "CipherOperation \<Rightarrow> byte list \<Rightarrow> CipherOperation \<times> byte list" where
  "op_read c p = op_Read c (length p) p"

definition op_write :: "CipherOperation \<Rightarrow> byte list \<Rightarrow> CipherOperation \<times> byte list" where
  "op_write c p = op_Write c (length p) p"

interpretation op: stream_cipher op_write op_read
proof unfold_locales
  show "op_read c (snd (op_write c p)) = (fst (op_write c p), p)" for c p
    by (simp add: op_read_def op_write_def op_Read_def op_Write_def range_map_inverse)
  show "op_write c (snd (op_read c p)) = (fst (op_read c p), p)" for c p
    by (simp add: op_read_def op_write_def op_Read_def op_Write_def range_map_inverse)
qed (simp_all add: op_read_def op_write_def op_Read_def op_Write_def range_map_advance op_advance_advance)

lemma cipher_read_Nil: "cipher_read [] p = ([], p)"
  by (simp add: cipher_read_def)

lemma cipher_write_Nil: "cipher_write [] p = ([], p)"
  by (simp add: cipher_write_def)

lemma length_chain: "length (snd (chain_Read n cs p)) = length p" "length (snd (chain_Write n cs p)) = length p"
  by (induction cs arbitrary: p) (auto simp: op_Read_def op_Write_def Let_def case_prod_beta)

lemma cipher_read_Cons:
  "cipher_read (c # cs) p = (let (cs', q) = cipher_read cs p; (c', r) = op_read c q in (c' # cs', r))"
  by (simp add: cipher_read_def op_read_def length_chain case_prod_beta Let_def)

lemma cipher_write_Cons:
  "cipher_write (c # cs) p = (let (c', q) = op_write c p; (cs', r) = cipher_write cs q in (c' # cs', r))"
  by (simp add: cipher_write_def op_write_def op_Write_def case_prod_beta Let_def)

lemmas cipher_Cons = cipher_read_Cons cipher_write_Cons cipher_read_Nil cipher_write_Nil Let_def case_prod_beta

lemma cipher_append:
  "cipher_write cs (p @ q) =
     (let (s1, u) = cipher_write cs p; (s2, v) = cipher_write s1 q in (s2, u @ v))"
  "cipher_read cs (p @ q) =
     (let (s1, u) = cipher_read cs p; (s2, v) = cipher_read s1 q in (s2, u @ v))"
  by (induction cs arbitrary: p q) (simp_all add: cipher_Cons op.enc.rd_append op.dec.rd_append)

lemma cipher_inverse:
  "cipher_read cs (snd (cipher_write cs p)) = (fst (cipher_write cs p), p)"
  "cipher_write cs (snd (cipher_read cs p)) = (fst (cipher_read cs p), p)"
  by (induction cs arbitrary: p) (simp_all add: cipher_Cons op.dec_enc op.enc_dec)

lemma cipher_empty: "cipher_read cs [] = (cs, [])" "cipher_write cs [] = (cs, [])"
  by (induction cs) (simp_all add: cipher_Cons op.enc.rd_Nil op.dec.rd_Nil)

lemma length_cipher [simp]: "length (snd (cipher_read cs p)) = length p" "length (snd (cipher_write cs p)) = length p"
  by (simp_all add: cipher_read_def cipher_write_def length_chain)

interpretation chain: stream_cipher cipher_write cipher_read
  by unfold_locales (simp_all add: cipher_empty cipher_inverse cipher_append)

text \<open>
  What lies in the caller's buffer behind the bytes that were read does not matter.
\<close>

lemma range_map_take: "take n (range_map f i p) = range_map f i (take n p)"
  by (induction p arbitrary: n i) (auto simp: take_Cons split: nat.split)

lemma chain_Read_take:
  "fst (chain_Read n cs (take n p)) = fst (chain_Read n cs p) \<and>
   snd (chain_Read n cs (take n p)) = take n (snd (chain_Read n cs p))"
  by (induction cs) (auto simp: op_Read_def range_map_take Let_def case_prod_beta)

lemma chain_Read_tail:
  "fst (chain_Read (length p) cs (p @ garbage)) = fst (cipher_read cs p)"
  "take (length p) (snd (chain_Read (length p) cs (p @ garbage))) = snd (cipher_read cs p)"
  using chain_Read_take [of "length p" cs "p @ garbage"] by (simp_all add: cipher_read_def)

section \<open>Parsing specs\<close>

abbreviation spec_code :: "CipherOperation list \<Rightarrow> byte list" where
  "spec_code ops \<equiv> concat (map op_code ops)"

lemma next_byte_Some: "concat src = b # rest \<Longrightarrow> \<exists>src'. next_byte src = Some (b, src') \<and> concat src' = rest"
  by (induction src rule: next_byte.induct) auto

lemma read_operation_end: "concat src = 0 # rest \<Longrightarrow> \<exists>src'. read_operation src = Inr (None, src') \<and> concat src' = rest"
  using next_byte_Some [of src 0 rest] by (auto simp: read_operation_def)

lemma read_operation_complete:
  assumes "concat src = op_code c @ rest"
  shows "\<exists>src'. read_operation src = Inr (Some (op_Copy c), src') \<and> concat src' = rest"
proof -
  obtain src1 where 1: "next_byte src = Some (hd (op_code c), src1)" "concat src1 = tl (op_code c) @ rest"
    using next_byte_Some [of src "hd (op_code c)" "tl (op_code c) @ rest"] assms by (cases c) auto
  then show ?thesis using next_byte_Some [of src1 _ rest] by (cases c) (force simp: read_operation_def)+
qed

lemma read_operations_complete:
  "concat src = spec_code ops @ 0 # rest \<Longrightarrow>
   \<exists>src'. read_operations acc src = Inr (acc @ map op_Copy ops, src') \<and> concat src' = rest"
proof (induction ops arbitrary: acc src)
  case Nil
  then obtain src' where "read_operation src = Inr (None, src')" "concat src' = rest"
    using read_operation_end [of src rest] by auto
  then show ?case by (subst read_operations.simps) auto
next
  case (Cons c ops)
  then obtain src1 where 1: "read_operation src = Inr (Some (op_Copy c), src1)" "concat src1 = spec_code ops @ 0 # rest"
    using read_operation_complete [of src c] by auto
  then show ?case using Cons.IH [OF 1(2), of "acc @ [op_Copy c]"]
    by (subst read_operations.simps) auto
qed

lemma read_operations_sound:
  "read_operations acc src = Inr (ops', src') \<Longrightarrow>
   \<exists>ops. ops' = acc @ ops \<and> map op_Copy ops = ops \<and> concat src = spec_code ops @ 0 # concat src'"
proof (induction acc src rule: read_operations.induct)
  case (1 acc src)
  obtain x src1 where x: "read_operation src = Inr (x, src1)"
    using "1.prems" by (subst (asm) read_operations.simps) (auto split: sum.splits)
  show ?case
  proof (cases x)
    case None
    then show ?thesis using "1.prems" x read_operation_sound [OF x] by (subst (asm) read_operations.simps) auto
  next
    case (Some c)
    then have "read_operations (acc @ [c]) src1 = Inr (ops', src')"
      using "1.prems" x by (subst (asm) read_operations.simps) auto
    from "1.IH" [OF x refl Some this] obtain ops where
      "ops' = acc @ c # ops" "map op_Copy ops = ops" "concat src1 = spec_code ops @ 0 # concat src'" by auto
    then show ?thesis using read_operation_sound [OF x] Some by (intro exI [of _ "c # ops"]) auto
  qed
qed

text \<open>Acceptance, as one equivalence.\<close>

definition noop_on_sample :: "CipherOperation list \<Rightarrow> bool" where
  "noop_on_sample ops \<longleftrightarrow> snd (cipher_read (NewReader ops) dataValidation) = dataValidation"

lemma ReadCipherSpec_alt:
  "ReadCipherSpec src =
     (case read_operations [] src of
        Inl e \<Rightarrow> Inl e
      | Inr (ops, src') \<Rightarrow> if noop_on_sample ops then Inl SpecNoOp else Inr (ops, src'))"
  using chain_Read_take [of "length dataValidation" _ dataValidation]
  by (auto simp: ReadCipherSpec_def noop_on_sample_def cipher_read_def Let_def split: sum.split)

lemma NewReader_idem [simp]: "NewReader (map op_Copy ops) = NewReader ops"
proof -
  have "op_Copy (op_Copy c) = op_Copy c" for c by (cases c) simp_all
  then show ?thesis by (simp add: NewReader_def)
qed

lemma ReadCipherSpec_of_code:
  assumes "concat src = spec_code ops @ 0 # rest"
  shows "\<exists>src'. concat src' = rest \<and>
    ReadCipherSpec src = (if noop_on_sample ops then Inl SpecNoOp else Inr (map op_Copy ops, src'))"
  using read_operations_complete [OF assms, of "[]"]
  by (auto simp: ReadCipherSpec_alt noop_on_sample_def)

section \<open>Properties of the ciphers\<close>

text \<open>
  C13: Round trip. For every cipher spec, what one side writes through \<open>NewWriter\<close> in calls of
  any sizes is what the other side reads through \<open>NewReader\<close> in calls of any other sizes, and
  what a read returns does not depend on what the caller's buffer held before.
\<close>

theorem cipher_round_trip:
  assumes "concat rs = concat (snd (pieces cipher_write (NewWriter ops) ws))"
  shows "concat (snd (pieces cipher_read (NewReader ops) rs)) = concat ws \<and>
    take (length p) (snd (chain_Read (length p) cs (p @ garbage))) = snd (cipher_read cs p)"
  using chain.pieces_round_trip(1) [OF assms] chain_Read_tail by (simp add: NewReader_def NewWriter_def)

theorem cipher_round_trip_witness:
  "concat (snd (pieces cipher_read (NewReader [AddPos 0, Xor 123, ReverseBits])
     [[94], [26, 26], [146, 78]])) = concat [[1, 34], [33, 47], [5]]"
proof -
  have "concat [[94], [26, 26], [146, 78]] =
    concat (snd (pieces cipher_write (NewWriter [AddPos 0, Xor 123, ReverseBits]) [[1, 34], [33, 47], [5]]))"
    by code_simp
  from cipher_round_trip [OF this] show ?thesis by blast
qed

text \<open>
  A spec that leaves every stream unchanged is refused, however its bytes arrive; every
  other spec whose effect shows on the sample line is accepted, with its operations in order
  and the connection positioned behind it; and nothing else is accepted.
\<close>

theorem spec_acceptance:
  assumes "concat src = spec_code ops @ 0 # rest"
  shows "((\<forall>p. snd (cipher_write (NewWriter ops) p) = p) \<longrightarrow> ReadCipherSpec src = Inl SpecNoOp) \<and>
    (snd (cipher_read (NewReader ops) dataValidation) \<noteq> dataValidation \<longrightarrow>
       (\<exists>src'. ReadCipherSpec src = Inr (map op_Copy ops, src') \<and> concat src' = rest)) \<and>
    (\<forall>ops' src'. ReadCipherSpec src = Inr (ops', src') \<longrightarrow>
       concat src = spec_code ops' @ 0 # concat src' \<and> (\<exists>p. snd (cipher_write (NewWriter ops') p) \<noteq> p))"
proof (intro conjI impI allI)
  assume "\<forall>p. snd (cipher_write (NewWriter ops) p) = p"
  then have "noop_on_sample ops"
    using cipher_inverse(1) [of "NewReader ops" dataValidation]
    by (simp add: noop_on_sample_def NewReader_def NewWriter_def)
  then show "ReadCipherSpec src = Inl SpecNoOp" using ReadCipherSpec_of_code [OF assms] by auto
next
  assume "snd (cipher_read (NewReader ops) dataValidation) \<noteq> dataValidation"
  then show "\<exists>src'. ReadCipherSpec src = Inr (map op_Copy ops, src') \<and> concat src' = rest"
    using ReadCipherSpec_of_code [OF assms] by (auto simp: noop_on_sample_def)
next
  fix ops' src'
  assume "ReadCipherSpec src = Inr (ops', src')"
  then have ops': "read_operations [] src = Inr (ops', src')" and no: "\<not> noop_on_sample ops'"
    by (auto simp: ReadCipherSpec_alt split: sum.splits if_splits)
  show "concat src = spec_code ops' @ 0 # concat src'" using read_operations_sound [OF ops'] by auto
  have "snd (cipher_write (NewWriter ops') dataValidation) \<noteq> dataValidation"
    using no cipher_inverse(1) [of "NewReader ops'" dataValidation]
    by (auto simp: noop_on_sample_def NewReader_def NewWriter_def)
  then show "\<exists>p. snd (cipher_write (NewWriter ops') p) \<noteq> p" ..
qed

theorem spec_acceptance_witness:
  "\<exists>src'. ReadCipherSpec [[2], [123, 5, 1, 0, 242], [32]] = Inr ([Xor 123, AddPos 0, ReverseBits], src') \<and>
     concat src' = [242, 32]"
proof -
  have "concat [[2], [123, 5, 1, 0, 242], [32]] = spec_code [Xor 123, AddPos 0, ReverseBits] @ 0 # [242, 32]" by simp
  note * = spec_acceptance [OF this]
  have "snd (cipher_read (NewReader [Xor 123, AddPos 0, ReverseBits]) dataValidation) \<noteq> dataValidation" by code_simp
  with * show ?thesis by simp
qed

text \<open>
  The no-op check looks at one line only: the spec \<open>xor 64, add 255, xor 64, add 1\<close> changes
  the byte \<open>@\<close> and is refused as a no-op all the same.
\<close>

theorem effective_spec_refused:
  "snd (cipher_write (NewWriter [Xor 64, Add 255, Xor 64, Add 1]) [64]) = [192] \<and>
   ReadCipherSpec [spec_code [Xor 64, Add 255, Xor 64, Add 1] @ [0]] = Inl SpecNoOp"
proof
  show "snd (cipher_write (NewWriter [Xor 64, Add 255, Xor 64, Add 1]) [64]) = [192]" by code_simp
  have "noop_on_sample [Xor 64, Add 255, Xor 64, Add 1]" by code_simp
  then show "ReadCipherSpec [spec_code [Xor 64, Add 255, Xor 64, Add 1] @ [0]] = Inl SpecNoOp"
    using ReadCipherSpec_of_code [of "[spec_code [Xor 64, Add 255, Xor 64, Add 1] @ [0]]" "[Xor 64, Add 255, Xor 64, Add 1]" "[]"]
    by auto
qed

end
