(* ===== verification/IslServer.thy ===== *)
theory IslServer
  imports IslCipher Go_Strconv
begin

text \<open>
  The insecure sockets layer server, \<open>8-insecure-sockets-layer\<close>: the connection loop of
  \<open>isl/server.go\<close> (\<open>handleConn\<close>) and the toy handler of \<open>main.go\<close> (\<open>decodeToys\<close>, \<open>encodeToy\<close> and
  the handler that picks the toy with the highest count). The bytes of a line are its string.

  A connection is the list of what its reads give, and the result of \<open>handleConn\<close> is the list of
  what it writes. Writes are modelled on a connection that takes them; when one fails the loop
  ends. \<open>sort.Slice\<close> may reorder toys of equal count in any way, so the sort is a parameter, of
  which the properties use that it is a permutation in the order of the comparison.

  Shown: for a client and a server with the same cipher spec, whatever the sizes of reads and
  writes on both sides, the client reads one reply per complete line it wrote, in order; and the
  reply to a list of toys names a toy of the list with the highest count.
\<close>

definition ISL_MaxLineLength :: nat where
  "ISL_MaxLineLength = 5000"

record Toy =
  Toy_Count :: int
  Toy_Name :: string

datatype toy_error = ToyRead bufio_error | ToyCount

text \<open>One iteration of the loop of \<open>decodeToys\<close>: a toy and, unless the line is at its end, the reader.\<close>

definition decode_toy :: "(char, unit) breader \<Rightarrow> toy_error + Toy \<times> (char, unit) breader option" where
  "decode_toy r =
     (case ReadSlice plain_read ISL_MaxLineLength (CHR ''x'') r of
        ((Some e, frag), r1) \<Rightarrow> Inl (ToyRead e)
      | ((None, frag), r1) \<Rightarrow>
          (case ParseInt32 (butlast frag) of
             None \<Rightarrow> Inl ToyCount
           | Some n \<Rightarrow>
               (case ReadSlice plain_read ISL_MaxLineLength (CHR '','') r1 of
                  ((Some ErrBufferFull, name), r2) \<Rightarrow> Inl (ToyRead ErrBufferFull)
                | ((Some ErrEOF, name), r2) \<Rightarrow> Inr (\<lparr>Toy_Count = n, Toy_Name = name\<rparr>, None)
                | ((None, name), r2) \<Rightarrow> Inr (\<lparr>Toy_Count = n, Toy_Name = butlast name\<rparr>, Some r2))))"

lemma ISL_MaxLineLength_pos: "0 < ISL_MaxLineLength"
  by (simp add: ISL_MaxLineLength_def)

lemma decode_toy_weight:
  assumes "decode_toy r = Inr (t, Some r')"
  shows "plain.weight r' < plain.weight r"
proof -
  obtain x r1 name where
    1: "ReadSlice plain_read ISL_MaxLineLength (CHR ''x'') r = ((None, x), r1)" and
    2: "ReadSlice plain_read ISL_MaxLineLength (CHR '','') r1 = ((None, name), r')"
    using assms by (auto simp: decode_toy_def split: prod.splits option.splits bufio_error.splits)
  show ?thesis
    using plain.ReadSlice_delim [OF 1 ISL_MaxLineLength_pos] plain.ReadSlice_delim [OF 2 ISL_MaxLineLength_pos]
    by (metis less_trans)
qed

function decode_loop :: "Toy list \<Rightarrow> (char, unit) breader \<Rightarrow> toy_error + Toy list" where
  "decode_loop toys r =
     (case decode_toy r of
        Inl e \<Rightarrow> Inl e
      | Inr (toy, None) \<Rightarrow> Inr (toys @ [toy])
      | Inr (toy, Some r') \<Rightarrow> decode_loop (toys @ [toy]) r')"
  by pat_completeness auto
termination
  by (relation "measure (\<lambda>(_, r). plain.weight r)") (simp, simp only: in_measure split_conv, metis decode_toy_weight)

declare decode_loop.simps [simp del]

definition decodeToys :: "string \<Rightarrow> toy_error + Toy list" where
  "decodeToys line = decode_loop [] ([], (), [line])"

text \<open>The three writes of \<open>encodeToy\<close>.\<close>

definition encodeToy :: "Toy \<Rightarrow> string list" where
  "encodeToy toy = [show_int (Toy_Count toy), ''x'', Toy_Name toy]"

text \<open>The comparison given to \<open>sort.Slice\<close>, and what \<open>sort.Slice\<close> promises.\<close>

definition toy_less :: "Toy \<Rightarrow> Toy \<Rightarrow> bool" where
  "toy_less a b \<longleftrightarrow> Toy_Count b < Toy_Count a"

definition sorts :: "('a \<Rightarrow> 'a \<Rightarrow> bool) \<Rightarrow> ('a list \<Rightarrow> 'a list) \<Rightarrow> bool" where
  "sorts lt sort_Slice \<longleftrightarrow>
     (\<forall>xs. mset (sort_Slice xs) = mset xs \<and> sorted_wrt (\<lambda>a b. \<not> lt b a) (sort_Slice xs))"

definition toy_handler :: "(Toy list \<Rightarrow> Toy list) \<Rightarrow> string \<Rightarrow> string list" where
  "toy_handler sort_Slice line =
     (case decodeToys line of
        Inl e \<Rightarrow> []
      | Inr toys \<Rightarrow> if toys = [] then [] else encodeToy (sort_Slice toys ! 0))"

section \<open>The connection\<close>

definition string_of :: "byte list \<Rightarrow> string" where
  "string_of = map (\<lambda>b. char_of (unat b))"

definition bytes_of :: "string \<Rightarrow> byte list" where
  "bytes_of = map (\<lambda>c. word_of_nat (of_char c))"

text \<open>
  The loop of \<open>handleConn\<close>: \<open>r\<close> is the buffered reader over the cipher reader, \<open>w\<close> the cipher
  writer. The result is the sequence of writes to the connection.
\<close>

function conn_loop ::
  "(string \<Rightarrow> string list) \<Rightarrow> (byte, CipherOperation list) breader \<Rightarrow> CipherOperation list \<Rightarrow> byte list \<Rightarrow> byte list list" where
  "conn_loop handler r w bufLine =
     (case ReadSlice cipher_read ISL_MaxLineLength 10 r of
        ((err, sliceLine), r') \<Rightarrow>
          if err = Some ErrBufferFull then conn_loop handler r' w (bufLine @ sliceLine)
          else if err \<noteq> None then []
          else let line = bufLine @ butlast sliceLine;
                   (w', out) = pieces cipher_write w (map bytes_of (handler (string_of line)) @ [[10]])
               in out @ conn_loop handler r' w' [])"
  by pat_completeness auto
termination
  by (relation "measure (\<lambda>(_, r, _, _). chain.dec.weight r)")
    (auto elim: chain.dec.ReadSlice_delim [OF sym ISL_MaxLineLength_pos]
      dest!: chain.dec.ReadSlice_full [OF sym ISL_MaxLineLength_pos])

declare conn_loop.simps [simp del]

definition handleConn :: "(string \<Rightarrow> string list) \<Rightarrow> byte list list \<Rightarrow> byte list list" where
  "handleConn handler src =
     (case ReadCipherSpec src of
        Inl e \<Rightarrow> []
      | Inr (ops, src') \<Rightarrow> conn_loop handler ([], NewReader ops, src') (NewWriter ops) [])"

section \<open>Replies to lines\<close>

lemma string_bytes [simp]: "string_of (bytes_of s) = s"
  by (induction s) (simp_all add: string_of_def bytes_of_def unat_of_nat)

definition reply_writes :: "(string \<Rightarrow> string list) \<Rightarrow> byte list \<Rightarrow> byte list list" where
  "reply_writes handler line = map bytes_of (handler (string_of line)) @ [[10]]"

lemma pieces_append:
  "pieces rd s (ps @ qs) = (let (s1, us) = pieces rd s ps; (s2, vs) = pieces rd s1 qs in (s2, us @ vs))"
  by (induction ps arbitrary: s) (auto simp: Let_def case_prod_beta)

lemma conn_loop_lines:
  "conn_loop handler r w bufLine =
   snd (pieces cipher_write w (concat (map (reply_writes handler) (fst (lines_from 10 bufLine (chain.dec.content r))))))"
proof (induction handler r w bufLine rule: conn_loop.induct)
  case (1 handler r w bufLine)
  obtain err frag r' where res: "ReadSlice cipher_read ISL_MaxLineLength 10 r = ((err, frag), r')"
    by (metis surj_pair)
  note pos = ISL_MaxLineLength_pos
  consider "err = None" | "err = Some ErrBufferFull" | "err = Some ErrEOF"
    by (cases err) (use bufio_error.exhaust in auto)
  then show ?case
  proof cases
    assume e: "err = None"
    from chain.dec.ReadSlice_delim [OF res [unfolded e] pos] obtain l where
      l: "frag = l @ [10]" "10 \<notin> set l" "chain.dec.content r = l @ 10 # chain.dec.content r'" by metis
    obtain w' out where w: "pieces cipher_write w (reply_writes handler (bufLine @ l)) = (w', out)" by fastforce
    then have "conn_loop handler r w bufLine = out @ conn_loop handler r' w' []"
      using res e l by (subst conn_loop.simps) (simp add: reply_writes_def)
    moreover have "conn_loop handler r' w' [] =
        snd (pieces cipher_write w' (concat (map (reply_writes handler) (fst (lines_from 10 [] (chain.dec.content r'))))))"
      using "1.IH"(2) [OF res [symmetric] refl _ _ refl] e l w by (simp add: reply_writes_def [abs_def])
    ultimately show ?thesis using l w by (simp add: lines_from_line pieces_append case_prod_beta Let_def)
  next
    assume e: "err = Some ErrBufferFull"
    then have "conn_loop handler r w bufLine = conn_loop handler r' w (bufLine @ frag)"
      using res by (subst conn_loop.simps) simp
    then show ?thesis
      using "1.IH"(1) [OF res [symmetric] refl e] chain.dec.ReadSlice_full [OF res [unfolded e] pos]
      by (simp add: lines_from_plain)
  next
    assume e: "err = Some ErrEOF"
    then have "conn_loop handler r w bufLine = []" using res by (subst conn_loop.simps) simp
    moreover have "fst (lines_from 10 bufLine (chain.dec.content r)) = []"
      using chain.dec.ReadSlice_EOF [OF res [unfolded e] pos] lines_from_plain [of 10 frag bufLine "[]"] by simp
    ultimately show ?thesis by simp
  qed
qed

lemma handleConn_lines:
  assumes "concat src = spec_code ops @ 0 # wire" "\<not> noop_on_sample ops"
  shows "handleConn handler src = snd (pieces cipher_write (NewWriter ops)
    (concat (map (reply_writes handler) (fst (split_lines 10 (snd (cipher_read (NewReader ops) wire)))))))"
proof -
  obtain src' where "ReadCipherSpec src = Inr (map op_Copy ops, src')" "concat src' = wire"
    using ReadCipherSpec_of_code [OF assms(1)] assms(2) by auto
  moreover have "NewWriter (map op_Copy ops) = NewWriter ops" using NewReader_idem by (simp add: NewReader_def NewWriter_def)
  ultimately show ?thesis by (simp add: handleConn_def conn_loop_lines chain.dec.content_def)
qed

section \<open>Toys\<close>

text \<open>The request line of a list of toys: counts and names as the protocol writes them.\<close>

definition toy_text :: "Toy \<Rightarrow> string" where
  "toy_text t = show_int (Toy_Count t) @ CHR ''x'' # Toy_Name t"

fun toys_line :: "Toy list \<Rightarrow> string" where
  "toys_line [] = []"
| "toys_line [t] = toy_text t"
| "toys_line (t # ts) = toy_text t @ CHR '','' # toys_line ts"

definition toy_ok :: "Toy \<Rightarrow> bool" where
  "toy_ok t \<longleftrightarrow> int32_range (Toy_Count t) \<and> CHR '','' \<notin> set (Toy_Name t) \<and> length (Toy_Name t) < ISL_MaxLineLength"

lemma decode_count:
  assumes "plain.content r = toy_text t @ rest" "toy_ok t"
  obtains r1 where "ReadSlice plain_read ISL_MaxLineLength (CHR ''x'') r = ((None, show_int (Toy_Count t) @ ''x''), r1)"
    "plain.content r1 = Toy_Name t @ rest" "ParseInt32 (show_int (Toy_Count t)) = Some (Toy_Count t)"
proof -
  have "CHR ''x'' \<notin> set (show_int (Toy_Count t))" using show_int_chars by (fastforce simp: is_digit_def)
  moreover have "length (show_int (Toy_Count t)) < ISL_MaxLineLength"
    using length_show_int [of "Toy_Count t"] assms(2) by (simp add: toy_ok_def ISL_MaxLineLength_def)
  moreover have "plain.content r = show_int (Toy_Count t) @ CHR ''x'' # Toy_Name t @ rest"
    using assms(1) by (simp add: toy_text_def)
  ultimately show ?thesis using plain.ReadSlice_found that ParseInt32_show assms(2) by (metis toy_ok_def)
qed

lemma decode_toy_more:
  assumes "plain.content r = toy_text t @ CHR '','' # rest" "toy_ok t"
  obtains r' where "decode_toy r = Inr (t, Some r')" "plain.content r' = rest"
proof -
  obtain r1 where 1: "ReadSlice plain_read ISL_MaxLineLength (CHR ''x'') r = ((None, show_int (Toy_Count t) @ ''x''), r1)"
    "plain.content r1 = Toy_Name t @ CHR '','' # rest" "ParseInt32 (show_int (Toy_Count t)) = Some (Toy_Count t)"
    by (rule decode_count [OF assms])
  obtain r' where 2: "ReadSlice plain_read ISL_MaxLineLength (CHR '','') r1 = ((None, Toy_Name t @ '',''), r')"
    "plain.content r' = rest"
    using plain.ReadSlice_found [OF 1(2)] assms(2) by (auto simp: toy_ok_def)
  show ?thesis by (rule that [OF _ 2(2)]) (simp add: decode_toy_def 1 2)
qed

lemma decode_toy_last:
  assumes "plain.content r = toy_text t" "toy_ok t"
  shows "decode_toy r = Inr (t, None)"
proof -
  obtain r1 where 1: "ReadSlice plain_read ISL_MaxLineLength (CHR ''x'') r = ((None, show_int (Toy_Count t) @ ''x''), r1)"
    "plain.content r1 = Toy_Name t" "ParseInt32 (show_int (Toy_Count t)) = Some (Toy_Count t)"
    using decode_count [of r t "[]"] assms by auto
  obtain r' where "ReadSlice plain_read ISL_MaxLineLength (CHR '','') r1 = ((Some ErrEOF, Toy_Name t), r')"
    using plain.ReadSlice_last [of "CHR '',''" r1] 1(2) assms(2) by (auto simp: toy_ok_def)
  then show ?thesis by (simp add: decode_toy_def 1)
qed

lemma decode_loop_line:
  "ts \<noteq> [] \<Longrightarrow> \<forall>t\<in>set ts. toy_ok t \<Longrightarrow> plain.content r = toys_line ts \<Longrightarrow> decode_loop acc r = Inr (acc @ ts)"
proof (induction ts arbitrary: acc r rule: toys_line.induct)
  case (2 t)
  then show ?case using decode_toy_last [of r t] by (subst decode_loop.simps) simp
next
  case (3 t u ts)
  obtain r' where "decode_toy r = Inr (t, Some r')" "plain.content r' = toys_line (u # ts)"
    using decode_toy_more [of r t "toys_line (u # ts)"] "3.prems" by auto
  then show ?case using "3.IH" [of r' "acc @ [t]"] "3.prems" by (subst decode_loop.simps) simp
qed simp

lemma decodeToys_line: "ts \<noteq> [] \<Longrightarrow> \<forall>t\<in>set ts. toy_ok t \<Longrightarrow> decodeToys (toys_line ts) = Inr ts"
  unfolding decodeToys_def by (subst decode_loop_line) (simp_all add: plain.content_def plain_read_def)

lemma sorts_first:
  assumes "sorts toy_less sort_Slice" "ts \<noteq> []"
  shows "sort_Slice ts ! 0 \<in> set ts \<and> (\<forall>u\<in>set ts. Toy_Count u \<le> Toy_Count (sort_Slice ts ! 0))"
proof -
  have m: "mset (sort_Slice ts) = mset ts" and s: "sorted_wrt (\<lambda>a b. \<not> toy_less b a) (sort_Slice ts)"
    using assms(1) by (auto simp: sorts_def)
  then obtain t us where ts: "sort_Slice ts = t # us" using assms(2) by (cases "sort_Slice ts") auto
  then have "set ts = insert t (set us)" using m by (metis list.simps(15) set_mset_mset)
  then show ?thesis using s ts by (auto simp: toy_less_def not_less)
qed

lemma concat_concat_map: "concat (concat (map f xs)) = concat (map (\<lambda>x. concat (f x)) xs)"
  by (induction xs) auto

lemma sort_key_sorts: "sorts toy_less (sort_key (\<lambda>t. - Toy_Count t))"
proof -
  have "sorted_wrt (\<lambda>a b. \<not> toy_less b a) (sort_key (\<lambda>t. - Toy_Count t) xs)" for xs
    using sorted_sort_key [of "\<lambda>t. - Toy_Count t" xs]
    by (simp add: sorted_wrt_map toy_less_def not_less)
  then show ?thesis by (simp add: sorts_def)
qed

lemma toy_handler_sample: "toy_handler (sort_key (\<lambda>t. - Toy_Count t)) ''4x dog,15x car'' = [''15'', ''x'', '' car'']"
proof -
  let ?ts = "[\<lparr>Toy_Count = 4, Toy_Name = '' dog''\<rparr>, \<lparr>Toy_Count = 15, Toy_Name = '' car''\<rparr>]"
  have "toys_line ?ts = ''4x dog,15x car''" by code_simp
  moreover have "\<forall>t\<in>set ?ts. toy_ok t" by (simp add: toy_ok_def int32_range_def ISL_MaxLineLength_def)
  ultimately have "decodeToys ''4x dog,15x car'' = Inr ?ts" using decodeToys_line [of ?ts] by simp
  moreover have "show_int 15 = ''15''" by code_simp
  ultimately show ?thesis by (simp add: toy_handler_def encodeToy_def)
qed

section \<open>Properties of the server\<close>

text \<open>
  C12: End to end. A client that sends a cipher spec whose effect shows on the sample line and
  then writes text through the cipher, and that reads the connection through the same cipher,
  reads one reply with its line feed for every complete line of its text, in order, and nothing
  else: whatever the sizes in which the client writes (\<open>ws\<close>), in which the server receives
  (\<open>src\<close>) and in which the client reads (\<open>rs\<close>), and whatever the handler answers.
\<close>

theorem isl_session:
  assumes "\<not> noop_on_sample ops"
    and "concat src = spec_code ops @ 0 # concat (snd (pieces cipher_write (NewWriter ops) ws))"
    and "concat rs = concat (handleConn handler src)"
  shows "concat (snd (pieces cipher_read (NewReader ops) rs)) =
    concat (map (\<lambda>l. bytes_of (concat (handler (string_of l))) @ [10]) (fst (split_lines 10 (concat ws))))"
proof -
  have "snd (cipher_read (NewReader ops) (concat (snd (pieces cipher_write (NewWriter ops) ws)))) = concat ws"
    using chain.pieces_round_trip(1) [of "[concat (snd (pieces cipher_write (NewWriter ops) ws))]" "NewReader ops" ws]
    by (simp add: NewReader_def NewWriter_def case_prod_beta Let_def)
  then have "concat rs = concat (snd (pieces cipher_write (NewWriter ops)
      (concat (map (reply_writes handler) (fst (split_lines 10 (concat ws)))))))"
    using handleConn_lines [OF assms(2,1), of handler] assms(3) by simp
  then have "concat (snd (pieces cipher_read (NewReader ops) rs)) =
      concat (concat (map (reply_writes handler) (fst (split_lines 10 (concat ws)))))"
    using chain.pieces_round_trip(1) [of rs "NewReader ops"] by (simp add: NewReader_def NewWriter_def)
  moreover have "concat (reply_writes handler l) = bytes_of (concat (handler (string_of l))) @ [10]" for l
    by (simp add: reply_writes_def bytes_of_def map_concat)
  ultimately show ?thesis by (simp add: concat_concat_map)
qed

theorem isl_session_witness:
  "concat (snd (pieces cipher_read (NewReader [Xor 123, AddPos 0])
     (handleConn (toy_handler (sort_key (\<lambda>t. - Toy_Count t)))
        [[2, 123], 5 # 0 # concat (snd (pieces cipher_write (NewWriter [Xor 123, AddPos 0])
           [bytes_of ''4x dog,15x'', bytes_of '' car'' @ [10, 50]]))]))) = bytes_of ''15x car'' @ [10]"
proof -
  let ?ws = "[bytes_of ''4x dog,15x'', bytes_of '' car'' @ [10, 50]]"
  let ?h = "toy_handler (sort_key (\<lambda>t. - Toy_Count t))"
  have "\<not> noop_on_sample [Xor 123, AddPos 0]" by code_simp
  moreover have "concat [[2, 123], 5 # 0 # concat (snd (pieces cipher_write (NewWriter [Xor 123, AddPos 0]) ?ws))] =
    spec_code [Xor 123, AddPos 0] @ 0 # concat (snd (pieces cipher_write (NewWriter [Xor 123, AddPos 0]) ?ws))"
    by simp
  moreover have "fst (split_lines 10 (concat ?ws)) = [bytes_of ''4x dog,15x car'']" by code_simp
  moreover have "concat (?h ''4x dog,15x car'') = ''15x car''" by (simp add: toy_handler_sample)
  ultimately show ?thesis using isl_session [OF _ _ refl, of "[Xor 123, AddPos 0]" _ ?ws ?h] by simp
qed

text \<open>
  The reply to a line of toys, each with a 32 bit count and a name shorter than the line
  limit without comma, is a toy of the line with the highest count, printed as it was sent.
\<close>

theorem toy_reply:
  assumes "sorts toy_less sort_Slice" "ts \<noteq> []" "\<forall>t\<in>set ts. toy_ok t"
  shows "\<exists>t\<in>set ts. concat (toy_handler sort_Slice (toys_line ts)) = toy_text t \<and>
    (\<forall>u\<in>set ts. Toy_Count u \<le> Toy_Count t)"
  using sorts_first [OF assms(1,2)] assms(2) decodeToys_line [OF assms(2,3)]
  by (intro bexI [of _ "sort_Slice ts ! 0"]) (simp_all add: toy_handler_def encodeToy_def toy_text_def)

theorem toy_reply_witness:
  "\<exists>t\<in>{\<lparr>Toy_Count = 4, Toy_Name = '' dog''\<rparr>, \<lparr>Toy_Count = 15, Toy_Name = '' car''\<rparr>}.
     concat (toy_handler (sort_key (\<lambda>t. - Toy_Count t)) ''4x dog,15x car'') = toy_text t \<and> 15 \<le> Toy_Count t"
proof -
  have "toys_line [\<lparr>Toy_Count = 4, Toy_Name = '' dog''\<rparr>, \<lparr>Toy_Count = 15, Toy_Name = '' car''\<rparr>] = ''4x dog,15x car''"
    by code_simp
  then show ?thesis
    using toy_reply [OF sort_key_sorts, of "[\<lparr>Toy_Count = 4, Toy_Name = '' dog''\<rparr>, \<lparr>Toy_Count = 15, Toy_Name = '' car''\<rparr>]"]
    by (simp add: toy_ok_def int32_range_def ISL_MaxLineLength_def)
qed

end
