(* ===== verification/TcpServer.thy ===== *)
theory TcpServer
  imports Lifecycle
begin

text \<open>
  The life of the servers of \<open>9-job-centre/proto/server.go\<close> and \<open>8-insecure-sockets-layer/isl/server.go\<close>: \<open>Listen\<close>
  with its closing goroutine, its accept loop and its deferred calls, and \<open>Shutdown\<close>. The two servers
  are the same but for what \<open>Listen\<close> returns after a failed \<open>AcceptTCP\<close>, what refused calls return, and
  the goroutine of a connection; these are the arguments of \<open>server_step\<close>. The wait group is read off the
  state: it counts the closing goroutine and the connections that are not over.

  Proved once over the locale \<open>connection\<close>: when \<open>Shutdown\<close> returns nil everything has stopped; from
  \<open>Shutdown\<close> on the server drains, unless connections are blocked; a connection that is blocked for good
  blocks \<open>Shutdown\<close> for good; and so does a failed accept block \<open>Listen\<close> until \<open>Shutdown\<close> is called.
\<close>

datatype net_err = ErrClosed | ErrAccept | ErrListen | ErrCtx | ErrStatus

datatype listen_pc =
  Not_listening
| Binding
| Accepting
| Draining "net_err option"
| Listened "net_err option"

datatype shutdown_pc = Not_called | Awaiting | Shut "net_err option"

text \<open>\<open>status\<close> is the atomic integer: 0 initialised, 1 running, 2 stopped.\<close>

record 'c tcp_server =
  status :: nat
  base_done :: bool
  listen_at :: listen_pc
  listener_open :: bool
  closer :: bool
  conns :: "'c list"
  stopped_chan :: bool
  shutdown_at :: shutdown_pc

definition NewServer :: "'c tcp_server" where
  "NewServer =
     \<lparr>status = 0, base_done = False, listen_at = Not_listening, listener_open = False, closer = False,
      conns = [], stopped_chan = False, shutdown_at = Not_called\<rparr>"

text \<open>The start of a call: the error of a refused call, and the state.\<close>

definition Listen_begin :: "net_err \<Rightarrow> 'c tcp_server \<Rightarrow> net_err option \<times> 'c tcp_server" where
  "Listen_begin refused s =
     (if status s \<noteq> 0 then (Some refused, s)
      else (None, s\<lparr>status := 1, listen_at := Binding\<rparr>))"

definition Shutdown_begin :: "net_err option \<Rightarrow> 'c tcp_server \<Rightarrow> net_err option \<times> 'c tcp_server" where
  "Shutdown_begin refused s =
     (if status s \<noteq> 1 then (refused, s)
      else (None, s\<lparr>status := 2, base_done := True, shutdown_at := Awaiting\<rparr>))"

datatype 'e server_event =
  Call_Listen
| Bind bool
| Closer_wakes
| Accept
| Accept_fails net_err
| Conn nat 'e
| Drained
| Call_Shutdown
| Shutdown_gives_up
| Shutdown_returns

text \<open>
  \<open>Drained\<close> is the return of \<open>Listen\<close>: its deferred calls wait for the wait group, close the listener and
  close the channel, in this order. A failed \<open>ListenTCP\<close> returns with only the channel to close.
\<close>

fun server_step ::
  "(net_err \<Rightarrow> bool \<Rightarrow> net_err option) \<Rightarrow> (bool \<Rightarrow> 'e \<Rightarrow> 'c \<Rightarrow> 'c option) \<Rightarrow> 'c \<Rightarrow> ('c \<Rightarrow> bool) \<Rightarrow>
   'e server_event \<Rightarrow> 'c tcp_server \<Rightarrow> 'c tcp_server option" where
  "server_step accept_result cstep fresh over Call_Listen s = Some (snd (Listen_begin ErrStatus s))"
| "server_step accept_result cstep fresh over (Bind ok) s =
     (if listen_at s \<noteq> Binding then None
      else if ok then Some (s\<lparr>listen_at := Accepting, listener_open := True, closer := True\<rparr>)
      else Some (s\<lparr>listen_at := Listened (Some ErrListen), stopped_chan := True\<rparr>))"
| "server_step accept_result cstep fresh over Closer_wakes s =
     (if closer s \<and> base_done s then Some (s\<lparr>closer := False, listener_open := False\<rparr>) else None)"
| "server_step accept_result cstep fresh over Accept s =
     (if listen_at s = Accepting \<and> listener_open s then Some (s\<lparr>conns := conns s @ [fresh]\<rparr>) else None)"
| "server_step accept_result cstep fresh over (Accept_fails e) s =
     (if listen_at s = Accepting \<and> (if listener_open s then e = ErrAccept else e = ErrClosed)
      then Some (s\<lparr>listen_at := Draining (accept_result e (base_done s))\<rparr>) else None)"
| "server_step accept_result cstep fresh over (Conn i e) s =
     (if i < length (conns s)
      then map_option (\<lambda>c. s\<lparr>conns := (conns s)[i := c]\<rparr>) (cstep (base_done s) e (conns s ! i)) else None)"
| "server_step accept_result cstep fresh over Drained s =
     (case listen_at s of
        Draining r \<Rightarrow>
          if \<not> closer s \<and> list_all over (conns s)
          then Some (s\<lparr>listen_at := Listened r, listener_open := False, stopped_chan := True\<rparr>) else None
      | _ \<Rightarrow> None)"
| "server_step accept_result cstep fresh over Call_Shutdown s = Some (snd (Shutdown_begin None s))"
| "server_step accept_result cstep fresh over Shutdown_gives_up s =
     (if shutdown_at s = Awaiting then Some (s\<lparr>shutdown_at := Shut (Some ErrCtx)\<rparr>) else None)"
| "server_step accept_result cstep fresh over Shutdown_returns s =
     (if shutdown_at s = Awaiting \<and> stopped_chan s then Some (s\<lparr>shutdown_at := Shut None\<rparr>) else None)"

text \<open>The steps of the program once \<open>Shutdown\<close> has been called; clients and callers do the others.\<close>

fun server_own :: "('e \<Rightarrow> bool) \<Rightarrow> 'e server_event \<Rightarrow> bool" where
  "server_own cown (Bind ok) = True"
| "server_own cown Closer_wakes = True"
| "server_own cown (Accept_fails e) = (e = ErrClosed)"
| "server_own cown (Conn i e) = cown e"
| "server_own cown Drained = True"
| "server_own cown Shutdown_returns = True"
| "server_own cown _ = False"

fun is_back :: "listen_pc \<Rightarrow> bool" where
  "is_back (Listened r) = True"
| "is_back _ = False"

fun is_draining :: "listen_pc \<Rightarrow> bool" where
  "is_draining (Draining r) = True"
| "is_draining _ = False"

text \<open>What holds when the server has stopped.\<close>

definition all_stopped :: "('c \<Rightarrow> bool) \<Rightarrow> 'c tcp_server \<Rightarrow> bool" where
  "all_stopped over s \<longleftrightarrow>
     is_back (listen_at s) \<and> stopped_chan s \<and> \<not> listener_open s \<and> \<not> closer s \<and> list_all over (conns s)"

fun listen_weight :: "listen_pc \<Rightarrow> nat" where
  "listen_weight Not_listening = 0"
| "listen_weight Binding = 4"
| "listen_weight Accepting = 2"
| "listen_weight (Draining r) = 1"
| "listen_weight (Listened r) = 0"

definition server_weight :: "('c \<Rightarrow> nat) \<Rightarrow> 'c tcp_server \<Rightarrow> nat" where
  "server_weight cweight s =
     listen_weight (listen_at s) + (if closer s then 1 else 0) + (if shutdown_at s = Awaiting then 1 else 0) +
     sum_list (map cweight (conns s))"

definition server_inv :: "('c \<Rightarrow> bool) \<Rightarrow> ('c \<Rightarrow> bool) \<Rightarrow> 'c tcp_server \<Rightarrow> bool" where
  "server_inv cinv over s \<longleftrightarrow>
     list_all cinv (conns s) \<and>
     (status s = 0 \<longleftrightarrow> listen_at s = Not_listening) \<and>
     (base_done s \<longleftrightarrow> status s = 2) \<and>
     (shutdown_at s \<noteq> Not_called \<longleftrightarrow> status s = 2) \<and>
     (stopped_chan s \<longleftrightarrow> is_back (listen_at s)) \<and>
     (shutdown_at s = Shut None \<longrightarrow> stopped_chan s) \<and>
     (listener_open s \<longrightarrow> listen_at s = Accepting \<or> is_draining (listen_at s)) \<and>
     (closer s \<longrightarrow> listen_at s = Accepting \<or> is_draining (listen_at s)) \<and>
     (listen_at s = Accepting \<or> is_draining (listen_at s) \<longrightarrow> (closer s \<longleftrightarrow> listener_open s)) \<and>
     (is_back (listen_at s) \<longrightarrow> list_all over (conns s)) \<and>
     (listen_at s = Not_listening \<or> listen_at s = Binding \<longrightarrow> conns s = [])"

lemma server_inv_New: "server_inv cinv over NewServer"
  by (simp add: server_inv_def NewServer_def)

context connection
begin

abbreviation sstep where
  "sstep ar \<equiv> server_step ar cstep fresh over"

abbreviation sinv where
  "sinv \<equiv> server_inv cinv over"

lemma server_step_inv: "sinv s \<Longrightarrow> sstep ar a s = Some t \<Longrightarrow> sinv t"
proof (cases a)
  case (Conn i e)
  assume inv: "sinv s" and step: "sstep ar a s = Some t"
  then obtain c where c: "i < length (conns s)" "cstep (base_done s) e (conns s ! i) = Some c" "t = s\<lparr>conns := (conns s)[i := c]\<rparr>"
    using Conn by (auto split: if_splits)
  have all: "list_all cinv (conns s)" using inv by (simp add: server_inv_def)
  then have "cinv (conns s ! i)" using c(1) by (simp add: list_all_length)
  then have 1: "list_all cinv ((conns s)[i := c])" using cstep_inv c(2) all by (blast intro: list_all_update)
  have 2: "list_all over ((conns s)[i := c])" if o: "list_all over (conns s)"
    using over_stays [OF _ c(2)] o c(1) by (intro list_all_update) (auto simp: list_all_length)
  have 3: "conns s \<noteq> []" using c(1) by auto
  show ?thesis using inv 1 2 3 unfolding server_inv_def c(3) by (elim conjE, intro conjI) simp_all
next
  case (Bind ok)
  assume "sinv s" "sstep ar a s = Some t"
  then show ?thesis using Bind by (auto simp: server_inv_def split: if_splits)
next
  case Drained
  assume "sinv s" "sstep ar a s = Some t"
  then show ?thesis using Drained by (cases "listen_at s") (auto simp: server_inv_def split: if_splits)
next
  case Accept
  assume "sinv s" "sstep ar a s = Some t"
  then show ?thesis using Accept fresh_inv by (auto simp: server_inv_def split: if_splits)
next
  case (Accept_fails e)
  assume "sinv s" "sstep ar a s = Some t"
  then show ?thesis using Accept_fails by (auto simp: server_inv_def split: if_splits)
next
  case Call_Listen
  assume "sinv s" "sstep ar a s = Some t"
  then show ?thesis using Call_Listen by (cases "status s = 0"; cases "listen_at s") (auto simp: server_inv_def Listen_begin_def)
next
  case Call_Shutdown
  assume "sinv s" "sstep ar a s = Some t"
  then show ?thesis using Call_Shutdown
    by (cases "status s = 1"; cases "listen_at s") (auto simp: server_inv_def Shutdown_begin_def)
next
  case Closer_wakes
  assume "sinv s" "sstep ar a s = Some t"
  then show ?thesis using Closer_wakes by (cases "listen_at s") (auto simp: server_inv_def split: if_splits)
next
  case Shutdown_gives_up
  assume "sinv s" "sstep ar a s = Some t"
  then show ?thesis using Shutdown_gives_up by (cases "listen_at s") (auto simp: server_inv_def split: if_splits)
next
  case Shutdown_returns
  assume "sinv s" "sstep ar a s = Some t"
  then show ?thesis using Shutdown_returns by (cases "listen_at s") (auto simp: server_inv_def split: if_splits)
qed

lemma server_run_inv: "run_steps (sstep ar) as s = Some t \<Longrightarrow> sinv s \<Longrightarrow> sinv t"
  by (induction as arbitrary: s) (auto intro: server_step_inv split: option.splits)

lemma reachable_inv: "run_steps (sstep ar) as NewServer = Some s \<Longrightarrow> sinv s"
  using server_run_inv server_inv_New by blast

lemma stopped_all: "sinv s \<Longrightarrow> stopped_chan s \<Longrightarrow> all_stopped over s"
  by (cases "listen_at s") (auto simp: server_inv_def all_stopped_def)

lemma sinv_status: "sinv s \<Longrightarrow> base_done s \<longleftrightarrow> status s = 2" "sinv s \<Longrightarrow> listen_at s = Not_listening \<Longrightarrow> status s = 0"
  unfolding server_inv_def by blast+

lemma shut_stopped: "sinv s \<Longrightarrow> shutdown_at s = Shut None \<Longrightarrow> stopped_chan s"
  unfolding server_inv_def by blast

text \<open>When \<open>Shutdown\<close> has returned nil everything has stopped.\<close>

lemma shutdown_stopped:
  "run_steps (sstep ar) as NewServer = Some s \<Longrightarrow> shutdown_at s = Shut None \<Longrightarrow> all_stopped over s"
  using reachable_inv stopped_all shut_stopped by blast

text \<open>From \<open>Shutdown\<close> on the server drains.\<close>

definition server_done :: "'c tcp_server \<Rightarrow> bool" where
  "server_done s \<longleftrightarrow> (all_stopped over s \<and> shutdown_at s \<noteq> Awaiting) \<or> (\<exists>c\<in>set (conns s). \<not> over c \<and> blocked c)"

lemma base_done_stays: "base_done s \<Longrightarrow> sstep ar a s = Some t \<Longrightarrow> base_done t"
  by (cases a) (auto simp: Listen_begin_def Shutdown_begin_def split: if_splits listen_pc.splits)

lemma own_step_lighter:
  assumes "sinv s" "base_done s" "server_own cown a" "sstep ar a s = Some t"
  shows "server_weight cweight t < server_weight cweight s"
proof (cases a)
  case (Conn i e)
  then obtain c where c: "i < length (conns s)" "cstep True e (conns s ! i) = Some c" "t = s\<lparr>conns := (conns s)[i := c]\<rparr>"
    using assms(2,4) by (auto split: if_splits)
  have "cinv (conns s ! i)" using assms(1) c(1) by (simp add: server_inv_def list_all_length)
  then have "cweight c < cweight (conns s ! i)" using cstep_lighter [OF _ _ c(2)] assms(3) Conn by simp
  then show ?thesis using sum_list_update_less [OF c(1)] by (simp add: server_weight_def c(3))
next
  case (Bind ok)
  have "\<not> closer s" if "listen_at s = Binding" using that assms(1) by (auto simp: server_inv_def)
  then show ?thesis using assms(3,4) Bind by (auto simp: server_weight_def split: if_splits)
qed (use assms(3,4) in \<open>auto simp: server_weight_def split: if_splits listen_pc.splits\<close>)

lemma own_step_possible:
  assumes "sinv s" "base_done s" "\<not> server_done s"
  shows "\<exists>a. server_own cown a \<and> sstep ar a s \<noteq> None"
proof (cases "listen_at s")
  case Not_listening
  then have False using sinv_status [OF assms(1)] assms(2) by simp
  then show ?thesis ..
next
  case Binding
  then have "sstep ar (Bind True) s \<noteq> None" "server_own cown (Bind True)" by simp_all
  then show ?thesis by blast
next
  case Accepting
  show ?thesis
  proof (cases "listener_open s")
    case True
    then have "sstep ar Closer_wakes s \<noteq> None" using assms(1,2) Accepting by (simp add: server_inv_def)
    then show ?thesis using server_own.simps(2) by blast
  next
    case False
    then have "sstep ar (Accept_fails ErrClosed) s \<noteq> None" "server_own cown (Accept_fails ErrClosed)" using Accepting by simp_all
    then show ?thesis by blast
  qed
next
  case (Draining r)
  show ?thesis
  proof (cases "closer s")
    case True
    then have "sstep ar Closer_wakes s \<noteq> None" using assms(2) by simp
    then show ?thesis using server_own.simps(2) by blast
  next
    case False
    show ?thesis
    proof (cases "list_all over (conns s)")
      case True
      then have "sstep ar Drained s \<noteq> None" using Draining False by simp
      then show ?thesis using server_own.simps(5) by blast
    next
      case notover: False
      then obtain i where i: "i < length (conns s)" "\<not> over (conns s ! i)" by (auto simp: list_all_length)
      then have "\<not> blocked (conns s ! i)" using assms(3) nth_mem unfolding server_done_def by blast
      moreover have "cinv (conns s ! i)" using assms(1) i(1) by (simp add: server_inv_def list_all_length)
      ultimately obtain e where "cown e" "cstep True e (conns s ! i) \<noteq> None" using cstep_possible i(2) by blast
      then have "server_own cown (Conn i e)" "sstep ar (Conn i e) s \<noteq> None" using i(1) assms(2) by auto
      then show ?thesis by blast
    qed
  qed
next
  case (Listened r)
  then have st: "stopped_chan s" using assms(1) by (simp add: server_inv_def)
  then have "shutdown_at s = Awaiting" using assms(3) stopped_all [OF assms(1)] by (auto simp: server_done_def)
  then have "sstep ar Shutdown_returns s \<noteq> None" using st by simp
  then show ?thesis using server_own.simps(6) by blast
qed

lemma server_draining:
  "draining (sstep ar) (server_own cown) (\<lambda>s. sinv s \<and> base_done s) (server_weight cweight) server_done"
  by unfold_locales (blast intro: server_step_inv base_done_stays own_step_lighter own_step_possible)+

lemma shutdown_drains:
  "run_steps (sstep ar) as NewServer = Some s \<Longrightarrow> status s = 2 \<Longrightarrow> drains (sstep ar) (server_own cown) s server_done"
  using draining.drains [OF server_draining] reachable_inv sinv_status(1) by blast

text \<open>After a failed accept \<open>Listen\<close> waits for the closing goroutine, which waits for \<open>Shutdown\<close>.\<close>

lemma draining_step:
  "sinv s \<Longrightarrow> listen_at s = Draining r \<Longrightarrow> status s = 1 \<Longrightarrow> closer s \<Longrightarrow> a \<noteq> Call_Shutdown \<Longrightarrow> sstep ar a s = Some t \<Longrightarrow>
   listen_at t = Draining r \<and> status t = 1 \<and> closer t"
  by (cases a) (auto simp: Listen_begin_def server_inv_def split: if_splits)

lemma draining_waits:
  "sinv s \<Longrightarrow> listen_at s = Draining r \<Longrightarrow> status s = 1 \<Longrightarrow> closer s \<Longrightarrow> Call_Shutdown \<notin> set as \<Longrightarrow>
   run_steps (sstep ar) as s = Some t \<Longrightarrow> listen_at t = Draining r \<and> status t = 1"
proof (induction as arbitrary: s)
  case (Cons a as)
  from Cons.prems(6) obtain u where u: "sstep ar a s = Some u" "run_steps (sstep ar) as u = Some t" by (rule run_steps_ConsE)
  have "a \<noteq> Call_Shutdown" using Cons.prems(5) by auto
  then have "listen_at u = Draining r \<and> status u = 1 \<and> closer u" using draining_step Cons.prems u(1) by blast
  then show ?case using Cons.IH [OF server_step_inv [OF Cons.prems(1) u(1)]] u(2) Cons.prems(5) by simp
qed simp

lemma accept_error_waits:
  assumes "run_steps (sstep ar) as NewServer = Some s" "sstep ar (Accept_fails ErrAccept) s = Some u"
    and "status s = 1" "Call_Shutdown \<notin> set bs" "run_steps (sstep ar) bs u = Some t"
  shows "listen_at t = Draining (ar ErrAccept False)"
proof -
  have inv: "sinv s" using reachable_inv assms(1) .
  then have "\<not> base_done s" using assms(3) by (simp add: server_inv_def)
  then have u: "listen_at u = Draining (ar ErrAccept False)" "status u = 1" "closer u"
    using assms(2,3) inv by (auto simp: server_inv_def split: if_splits)
  then show ?thesis using draining_waits [OF server_step_inv [OF inv assms(2)] _ _ _ assms(4,5)] by simp
qed

end

text \<open>Which events leave a connection to itself: those of the others, and the quiet ones of its own.\<close>

fun quiet_for :: "('e \<Rightarrow> bool) \<Rightarrow> nat \<Rightarrow> 'e server_event \<Rightarrow> bool" where
  "quiet_for quiet i (Conn j e) = (i = j \<longrightarrow> quiet e)"
| "quiet_for quiet i _ = True"

context blocking_connection
begin

lemma blocked_step:
  assumes "i < length (conns s)" "blocked (conns s ! i)" "quiet_for quiet i a" "server_step ar cstep fresh over a s = Some t"
  shows "i < length (conns t) \<and> blocked (conns t ! i)"
proof (cases a)
  case (Conn j e)
  then obtain c where c: "j < length (conns s)" "cstep (base_done s) e (conns s ! j) = Some c" "t = s\<lparr>conns := (conns s)[j := c]\<rparr>"
    using assms(4) by (auto split: if_splits)
  then show ?thesis using assms(1-3) Conn blocked_stays [OF _ _ c(2)] by (cases "i = j") auto
qed (use assms in \<open>auto simp: nth_append Listen_begin_def Shutdown_begin_def split: if_splits listen_pc.splits\<close>)

lemma blocked_run:
  assumes "sinv s" "i < length (conns s)" "blocked (conns s ! i)" "list_all (quiet_for quiet i) as"
    and "run_steps (server_step ar cstep fresh over) as s = Some t"
  shows "shutdown_at t \<noteq> Shut None"
  using assms
proof (induction as arbitrary: s)
  case Nil
  then have "\<not> list_all over (conns s)" using blocked_not_over by (auto simp: list_all_length)
  then show ?case using Nil.prems(1,5) shut_stopped stopped_all by (auto simp: all_stopped_def)
next
  case (Cons a as)
  from Cons.prems(5) obtain u where u: "server_step ar cstep fresh over a s = Some u"
      "run_steps (server_step ar cstep fresh over) as u = Some t" by (rule run_steps_ConsE)
  show ?case
    using Cons.IH [OF server_step_inv [OF Cons.prems(1) u(1)] _ _ _ u(2)] blocked_step [OF Cons.prems(2,3) _ u(1)] Cons.prems(4)
    by simp
qed

lemma blocked_shutdown:
  assumes "run_steps (server_step ar cstep fresh over) as NewServer = Some s" "i < length (conns s)" "blocked (conns s ! i)"
    and "list_all (quiet_for quiet i) bs" "run_steps (server_step ar cstep fresh over) bs s = Some t"
  shows "shutdown_at t \<noteq> Shut None"
  using blocked_run [OF reachable_inv [OF assms(1)] assms(2-5)] .

end

end
