(* ===== verification/JobServer.thy ===== *)
theory JobServer
  imports TcpServer
begin

text \<open>
  The goroutines of \<open>9-job-centre/proto/server.go\<close>: \<open>looper\<close> with the goroutine that reads requests, the one
  that serves them and the one that closes the connection, and the server around it. What the two
  workers do with the bytes is modelled in \<open>RequestBuffer\<close> and \<open>JobDispatch\<close>; here a read is the list of
  requests that it completes, and the question is who waits for whom.

  The sending goroutine hands a request over on the unbuffered \<open>reqChan\<close>. Its counterpart also watches the
  context; the sender does not. Shown: a connection that is not caught in this way ends, runs
  \<open>OnClientDisconnected\<close> after all its goroutines, and lets \<open>Shutdown\<close> return; one that is caught never
  ends, its client is never disconnected, and \<open>Shutdown\<close> never returns nil.
\<close>

datatype 'r reader_pc = Checking | Reading | Sending 'r | Reader_done

datatype 'r worker_pc = Selecting | Serving 'r | Worker_done

text \<open>
  \<open>cancelled\<close> is the context of the connection itself, \<open>conn_open\<close> the connection; \<open>incoming\<close> is what the reads
  will give, \<open>fetched\<close> the requests that are complete in \<open>prevBuf\<close>, \<open>closing\<close> whether the closing goroutine
  still waits, \<open>disconnected\<close> whether \<open>OnClientDisconnected\<close> has run and \<open>looper\<close> returned.
\<close>

record 'r looper =
  cancelled :: bool
  conn_open :: bool
  incoming :: "'r list list"
  peer_ended :: bool
  peer_reset :: bool
  fetched :: "'r list"
  reader :: "'r reader_pc"
  worker :: "'r worker_pc"
  closing :: bool
  disconnected :: bool

definition new_looper :: "'r looper" where
  "new_looper =
     \<lparr>cancelled = False, conn_open = True, incoming = [], peer_ended = False, peer_reset = False, fetched = [],
      reader = Checking, worker = Selecting, closing = True, disconnected = False\<rparr>"

datatype 'r looper_event =
  Peer_sends "'r list"
| Peer_ends
| Peer_resets
| Closes
| Check
| Read
| Hand_over
| Done_selected
| Served_ok
| Served_failed
| Return

text \<open>
  \<open>base\<close> is the server's context. The reader checks the context before each read and takes the next request
  from \<open>prevBuf\<close> if there is one; a worker that ends cancels the context of the connection; \<open>looper\<close> returns
  when the three goroutines are done.
\<close>

fun looper_step :: "bool \<Rightarrow> 'r looper_event \<Rightarrow> 'r looper \<Rightarrow> 'r looper option" where
  "looper_step base (Peer_sends rs) c =
     (if peer_ended c then None else Some (c\<lparr>incoming := incoming c @ [rs]\<rparr>))"
| "looper_step base Peer_ends c = Some (c\<lparr>peer_ended := True\<rparr>)"
| "looper_step base Peer_resets c = Some (c\<lparr>peer_ended := True, peer_reset := True\<rparr>)"
| "looper_step base Closes c =
     (if closing c \<and> (base \<or> cancelled c) then Some (c\<lparr>conn_open := False, closing := False\<rparr>) else None)"
| "looper_step base Check c =
     (if reader c \<noteq> Checking then None
      else if base \<or> cancelled c then Some (c\<lparr>reader := Reader_done, cancelled := True\<rparr>)
      else (case fetched c of
              [] \<Rightarrow> Some (c\<lparr>reader := Reading\<rparr>)
            | r # rs \<Rightarrow> Some (c\<lparr>reader := Sending r, fetched := rs\<rparr>)))"
| "looper_step base Read c =
     (if reader c \<noteq> Reading then None
      else if \<not> conn_open c \<or> peer_reset c then Some (c\<lparr>reader := Reader_done, cancelled := True\<rparr>)
      else (case incoming c of
              rs # later \<Rightarrow>
                (case rs of
                   [] \<Rightarrow> Some (c\<lparr>reader := Checking, incoming := later\<rparr>)
                 | r # rs' \<Rightarrow> Some (c\<lparr>reader := Sending r, fetched := rs', incoming := later\<rparr>))
            | [] \<Rightarrow> if peer_ended c then Some (c\<lparr>reader := Reader_done, cancelled := True\<rparr>) else None))"
| "looper_step base Hand_over c =
     (case (reader c, worker c) of
        (Sending r, Selecting) \<Rightarrow> Some (c\<lparr>reader := Checking, worker := Serving r\<rparr>)
      | _ \<Rightarrow> None)"
| "looper_step base Done_selected c =
     (if worker c = Selecting \<and> (base \<or> cancelled c) then Some (c\<lparr>worker := Worker_done, cancelled := True\<rparr>) else None)"
| "looper_step base Served_ok c =
     (case worker c of
        Serving r \<Rightarrow> if conn_open c then Some (c\<lparr>worker := Selecting\<rparr>) else None
      | _ \<Rightarrow> None)"
| "looper_step base Served_failed c =
     (case worker c of
        Serving r \<Rightarrow> if \<not> conn_open c \<or> peer_reset c then Some (c\<lparr>worker := Worker_done, cancelled := True\<rparr>) else None
      | _ \<Rightarrow> None)"
| "looper_step base Return c =
     (if reader c = Reader_done \<and> worker c = Worker_done \<and> \<not> closing c \<and> \<not> disconnected c
      then Some (c\<lparr>disconnected := True\<rparr>) else None)"

text \<open>The steps of the goroutines; the others are the client's.\<close>

fun looper_own :: "'r looper_event \<Rightarrow> bool" where
  "looper_own (Peer_sends rs) = False"
| "looper_own Peer_ends = False"
| "looper_own Peer_resets = False"
| "looper_own _ = True"

text \<open>The reader sends and nobody will receive.\<close>

definition caught :: "'r looper \<Rightarrow> bool" where
  "caught c \<longleftrightarrow> (\<exists>r. reader c = Sending r) \<and> worker c = Worker_done \<and> \<not> disconnected c"

definition looper_inv :: "'r looper \<Rightarrow> bool" where
  "looper_inv c \<longleftrightarrow>
     (conn_open c \<longrightarrow> closing c) \<and> (closing c \<longrightarrow> conn_open c) \<and>
     (reader c = Reader_done \<longrightarrow> cancelled c) \<and> (worker c = Worker_done \<longrightarrow> cancelled c) \<and>
     (disconnected c \<longrightarrow> reader c = Reader_done \<and> worker c = Worker_done \<and> \<not> closing c)"

definition looper_weight :: "'r looper \<Rightarrow> nat" where
  "looper_weight c =
     (case reader c of Reading \<Rightarrow> 4 | Sending r \<Rightarrow> 3 | Checking \<Rightarrow> 1 | Reader_done \<Rightarrow> 0) +
     (case worker c of Serving r \<Rightarrow> 2 | Selecting \<Rightarrow> 1 | Worker_done \<Rightarrow> 0) +
     (if closing c then 1 else 0) + (if disconnected c then 0 else 1)"

lemma looper_inv_step: "looper_inv c \<Longrightarrow> looper_step b e c = Some d \<Longrightarrow> looper_inv d"
proof (cases "reader c"; cases "worker c")
qed (cases e; auto simp: looper_inv_def split: if_splits list.splits)+

lemma looper_over_stays: "disconnected c \<Longrightarrow> looper_step b e c = Some d \<Longrightarrow> disconnected d"
proof (cases "reader c"; cases "worker c")
qed (cases e; auto split: if_splits list.splits)+

lemma looper_lighter: "looper_own e \<Longrightarrow> looper_step True e c = Some d \<Longrightarrow> looper_weight d < looper_weight c"
proof (cases "reader c"; cases "worker c")
qed (cases e; auto simp: looper_weight_def split: if_splits list.splits)+

lemma caught_stays: "caught c \<Longrightarrow> looper_step b e c = Some d \<Longrightarrow> caught d"
proof (cases "reader c"; cases "worker c")
qed (cases e; auto simp: caught_def split: if_splits list.splits)+

lemma looper_possible:
  assumes "looper_inv c" "\<not> disconnected c" "\<not> caught c"
  shows "\<exists>e. looper_own e \<and> looper_step True e c \<noteq> None"
proof (cases "closing c")
  case True
  then have "looper_step True Closes c \<noteq> None" "looper_own Closes" by simp_all
  then show ?thesis by blast
next
  case False
  then have shut: "\<not> conn_open c" using assms(1) by (simp add: looper_inv_def)
  consider "worker c = Selecting" | r where "worker c = Serving r" | (over) "worker c = Worker_done" by (cases "worker c") auto
  then show ?thesis
  proof cases
    case 1
    then have "looper_step True Done_selected c \<noteq> None" "looper_own Done_selected" by simp_all
    then show ?thesis by blast
  next
    case 2
    then have "looper_step True Served_failed c \<noteq> None" "looper_own Served_failed" using shut by simp_all
    then show ?thesis by blast
  next
    case over
    have "looper_step True Check c \<noteq> None" if "reader c = Checking" using that by simp
    moreover have "looper_step True Read c \<noteq> None" if "reader c = Reading" using that shut by simp
    moreover have "looper_step True Return c \<noteq> None" if "reader c = Reader_done" using that over False assms(2) by simp
    moreover have "reader c = Checking \<or> reader c = Reading \<or> reader c = Reader_done"
      using assms(2,3) over by (cases "reader c") (auto simp: caught_def)
    ultimately show ?thesis using looper_own.simps(5,6,11) by blast
  qed
qed

interpretation looper: blocking_connection looper_step looper_own new_looper looper_inv looper_weight disconnected caught "\<lambda>e. True"
proof unfold_locales
  fix b and e :: "'r looper_event" and c d :: "'r looper"
  show "looper_inv (new_looper :: 'r looper)" by (simp add: looper_inv_def new_looper_def)
  show "looper_inv c \<Longrightarrow> looper_step b e c = Some d \<Longrightarrow> looper_inv d"
    by (rule looper_inv_step)
  show "disconnected c \<Longrightarrow> looper_step b e c = Some d \<Longrightarrow> disconnected d"
    by (rule looper_over_stays)
  show "looper_inv c \<Longrightarrow> looper_own e \<Longrightarrow> looper_step True e c = Some d \<Longrightarrow> looper_weight d < looper_weight c"
    by (rule looper_lighter)
  show "looper_inv c \<Longrightarrow> \<not> disconnected c \<Longrightarrow> \<not> caught c \<Longrightarrow> \<exists>e. looper_own e \<and> looper_step True e c \<noteq> None"
    by (rule looper_possible)
  show "caught c \<Longrightarrow> \<not> disconnected c" by (simp add: caught_def)
  show "caught c \<Longrightarrow> True \<Longrightarrow> looper_step b e c = Some d \<Longrightarrow> caught d"
    by (rule caught_stays)
qed

section \<open>The server\<close>

text \<open>What \<open>Listen\<close> returns after \<open>AcceptTCP\<close> failed, and the refused calls.\<close>

definition job_accept_result :: "net_err \<Rightarrow> bool \<Rightarrow> net_err option" where
  "job_accept_result err cancelled_base = (if err = ErrClosed \<and> \<not> cancelled_base then Some err else None)"

definition job_server_step :: "'r looper_event server_event \<Rightarrow> 'r looper tcp_server \<Rightarrow> 'r looper tcp_server option" where
  "job_server_step = server_step job_accept_result looper_step new_looper disconnected"

definition job_Listen :: "'c tcp_server \<Rightarrow> net_err option \<times> 'c tcp_server" where
  "job_Listen = Listen_begin ErrStatus"

definition job_Shutdown :: "'c tcp_server \<Rightarrow> net_err option \<times> 'c tcp_server" where
  "job_Shutdown = Shutdown_begin (Some ErrStatus)"

text \<open>The goroutines of a connection have ended, its socket is closed and its client is disconnected.\<close>

definition looper_ended :: "'r looper \<Rightarrow> bool" where
  "looper_ended c \<longleftrightarrow>
     disconnected c \<and> reader c = Reader_done \<and> worker c = Worker_done \<and> \<not> closing c \<and> \<not> conn_open c"

lemma looper_ended: "looper_inv c \<Longrightarrow> disconnected c \<Longrightarrow> looper_ended c"
  by (auto simp: looper_inv_def looper_ended_def)

lemma stopped_ended:
  assumes "server_inv looper_inv disconnected s" "all_stopped disconnected s"
  shows "list_all looper_ended (conns s)"
  using assms looper_ended by (auto simp: server_inv_def all_stopped_def list_all_iff)

text \<open>A run in which a client resets its connection while its first request is served.\<close>

definition caught_run :: "nat looper_event server_event list" where
  "caught_run =
     [Call_Listen, Bind True, Accept, Conn 0 (Peer_sends [1, 2]), Conn 0 Check, Conn 0 Read, Conn 0 Hand_over, Conn 0 Check,
      Conn 0 Peer_resets, Conn 0 Served_failed]"

definition clean_run :: "nat looper_event server_event list" where
  "clean_run =
     [Call_Listen, Bind True, Accept, Conn 0 (Peer_sends [1]), Conn 0 Check, Conn 0 Read, Conn 0 Hand_over, Conn 0 Served_ok,
      Call_Shutdown]"

definition clean_end :: "nat looper_event server_event list" where
  "clean_end =
     [Closer_wakes, Accept_fails ErrClosed, Conn 0 Check, Conn 0 Closes, Conn 0 Done_selected, Conn 0 Return, Drained,
      Shutdown_returns]"

lemmas server_eval = job_server_step_def NewServer_def new_looper_def Listen_begin_def Shutdown_begin_def job_accept_result_def

section \<open>Properties of the server\<close>

text \<open>
  When \<open>Shutdown\<close> of the job centre has returned nil, \<open>Listen\<close> has run all its deferred calls: the
  listener is closed, the closing goroutine is gone, and every connection that was ever accepted has
  ended, with its socket closed, its goroutines done and its client disconnected (so that its jobs are
  back in their queues); and nothing happens after it, whatever is called or sent.
\<close>

theorem job_shutdown_complete:
  assumes "run_steps job_server_step as NewServer = Some s" "shutdown_at s = Shut None"
    and "run_steps job_server_step bs s = Some t"
  shows "all_stopped disconnected t \<and> list_all looper_ended (conns t) \<and> length (conns t) = length (conns s)"
proof -
  have inv: "server_inv looper_inv disconnected s" "all_stopped disconnected s"
    using looper.reachable_inv [of job_accept_result as] looper.shutdown_stopped [of job_accept_result as] assms(1,2)
    by (simp_all add: job_server_step_def)
  have "server_inv looper_inv disconnected t \<and> all_stopped disconnected t \<and> length (conns t) = length (conns s)"
    using inv assms(3)
  proof (induction bs arbitrary: s)
    case (Cons b bs)
    from Cons.prems(3) obtain u where u: "job_server_step b s = Some u" "run_steps job_server_step bs u = Some t"
      by (rule run_steps_ConsE)
    have "server_inv looper_inv disconnected u"
      using looper.server_step_inv [OF Cons.prems(1)] u(1) by (simp add: job_server_step_def)
    moreover have "stopped_chan u" "length (conns u) = length (conns s)"
      using Cons.prems(2) u(1)
      by (cases b; auto simp: job_server_step_def all_stopped_def Listen_begin_def Shutdown_begin_def
          split: if_splits listen_pc.splits)+
    ultimately show ?case using Cons.IH [OF _ looper.stopped_all u(2)] by simp
  qed simp
  then show ?thesis using stopped_ended by blast
qed

theorem job_shutdown_complete_witness:
  "\<exists>t. run_steps job_server_step (clean_run @ clean_end) NewServer = Some t \<and> all_stopped disconnected t \<and>
     list_all looper_ended (conns t) \<and> length (conns t) = 1"
proof -
  let ?t = "the (run_steps job_server_step (clean_run @ clean_end) NewServer)"
  have t: "run_steps job_server_step (clean_run @ clean_end) NewServer = Some ?t" "shutdown_at ?t = Shut None" "length (conns ?t) = 1"
    by (simp_all add: clean_run_def clean_end_def server_eval)
  have "run_steps job_server_step [] ?t = Some ?t" by simp
  from job_shutdown_complete [OF t(1,2) this] show ?thesis using t by blast
qed

text \<open>
  C22: Once \<open>Shutdown\<close> of the job centre is called, the goroutines of the server and of its connections
  need nothing from any client: however they are scheduled, they end after a bounded number of steps,
  and then \<open>Shutdown\<close> has returned and everything has stopped, unless the reader of some connection
  is caught sending a request that nobody takes.
\<close>

theorem job_shutdown_drains:
  assumes "run_steps job_server_step as NewServer = Some s" "status s = 2"
  shows "drains job_server_step (server_own looper_own) s
    (\<lambda>t. (all_stopped disconnected t \<and> shutdown_at t \<noteq> Awaiting) \<or> (\<exists>c\<in>set (conns t). caught c))"
proof -
  have "looper.server_done t \<Longrightarrow>
      (all_stopped disconnected t \<and> shutdown_at t \<noteq> Awaiting) \<or> (\<exists>c\<in>set (conns t). caught c)" for t :: "'a looper tcp_server"
    by (auto simp: looper.server_done_def)
  then show ?thesis using looper.shutdown_drains [of job_accept_result as s] assms
    unfolding job_server_step_def drains_def by blast
qed

theorem job_shutdown_drains_witness:
  "drains job_server_step (server_own looper_own) (the (run_steps job_server_step clean_run NewServer))
    (\<lambda>t. (all_stopped disconnected t \<and> shutdown_at t \<noteq> Awaiting) \<or> (\<exists>c\<in>set (conns t). caught c))"
proof -
  let ?t = "the (run_steps job_server_step clean_run NewServer)"
  have t: "run_steps job_server_step clean_run NewServer = Some ?t" "status ?t = 2"
    by (simp_all add: clean_run_def server_eval)
  from job_shutdown_drains [OF this] show ?thesis .
qed

text \<open>
  C23: A connection whose worker has stopped (a failed write, say) while its reader sends the next
  request on \<open>reqChan\<close> is lost for good: whatever happens, its client is never disconnected, so its
  jobs stay with it, and \<open>Shutdown\<close> never returns nil.
\<close>

theorem job_caught_reader_blocks:
  assumes "run_steps job_server_step as NewServer = Some s" "i < length (conns s)" "caught (conns s ! i)"
    and "run_steps job_server_step bs s = Some t"
  shows "\<not> disconnected (conns t ! i) \<and> shutdown_at t \<noteq> Shut None"
proof
  have "i < length (conns t) \<and> caught (conns t ! i)"
    using assms(2-4)
  proof (induction bs arbitrary: s)
    case (Cons b bs)
    from Cons.prems(3) obtain u where u: "job_server_step b s = Some u" "run_steps job_server_step bs u = Some t"
      by (rule run_steps_ConsE)
    have "i < length (conns u) \<and> caught (conns u ! i)"
      using looper.blocked_step [OF Cons.prems(1,2)] u(1) unfolding job_server_step_def
      by (metis quiet_for.elims(3))
    then show ?case using Cons.IH u(2) by blast
  qed simp
  then show "\<not> disconnected (conns t ! i)" by (simp add: caught_def)
  have "quiet_for (\<lambda>e. True) i b" for b :: "'a looper_event server_event" by (cases b) auto
  then have "list_all (quiet_for (\<lambda>e. True) i) bs" by (simp add: list_all_iff)
  then show "shutdown_at t \<noteq> Shut None"
    using looper.blocked_shutdown assms unfolding job_server_step_def by blast
qed

theorem job_caught_reader_blocks_witness:
  "\<exists>s. run_steps job_server_step caught_run NewServer = Some s \<and>
    (\<forall>bs t. run_steps job_server_step (Call_Shutdown # bs) s = Some t \<longrightarrow> shutdown_at t \<noteq> Shut None)"
proof -
  let ?s = "the (run_steps job_server_step caught_run NewServer)"
  have s: "run_steps job_server_step caught_run NewServer = Some ?s" "0 < length (conns ?s)" "caught (conns ?s ! 0)"
    by (simp_all add: caught_run_def server_eval caught_def)
  from job_caught_reader_blocks [OF s] show ?thesis using s(1) by blast
qed

end
