(* ===== verification/IslLifecycle.thy ===== *)
theory IslLifecycle
  imports JobServer
begin

text \<open>
  The life of the server of \<open>8-insecure-sockets-layer/isl/server.go\<close>, as an instance of \<open>TcpServer\<close>. What
  \<open>handleConn\<close> does with the bytes is modelled in \<open>IslServer\<close>; here an item of the input is a cipher spec, a
  line, a piece without a line feed, or an end of the stream. The goroutine of a connection does not watch
  the context and nobody else closes the connection.

  Shown: when \<open>Shutdown\<close> returns nil all has stopped; \<open>Shutdown\<close> drains the server except for connections
  that wait for their clients; as long as a client keeps its connection open and silent, \<open>Shutdown\<close> does
  not return. And for both servers: after a failed accept \<open>Listen\<close> does not return before \<open>Shutdown\<close>.
\<close>

datatype isl_item = Good_spec | Bad_spec | Line_item | Piece_item | End_item

datatype isl_pc = Reads_spec | Reads_line | Handles | Closed

record isl_conn =
  inbox :: "isl_item list"
  writable_peer :: bool
  isl_at :: isl_pc

definition new_isl_conn :: isl_conn where
  "new_isl_conn = \<lparr>inbox = [], writable_peer = True, isl_at = Reads_spec\<rparr>"

datatype isl_event = Client isl_item | Client_resets | Reads | Answers

text \<open>A reset connection fails its reads as well.\<close>

fun isl_conn_step :: "bool \<Rightarrow> isl_event \<Rightarrow> isl_conn \<Rightarrow> isl_conn option" where
  "isl_conn_step base (Client x) c = Some (c\<lparr>inbox := inbox c @ [x]\<rparr>)"
| "isl_conn_step base Client_resets c = Some (c\<lparr>inbox := [End_item], writable_peer := False\<rparr>)"
| "isl_conn_step base Reads c =
     (case inbox c of
        [] \<Rightarrow> None
      | x # rest \<Rightarrow>
          (case isl_at c of
             Reads_spec \<Rightarrow> Some (c\<lparr>inbox := rest, isl_at := (if x = Good_spec then Reads_line else Closed)\<rparr>)
           | Reads_line \<Rightarrow>
               Some (c\<lparr>inbox := rest,
                       isl_at := (if x = Line_item then Handles else if x = End_item then Closed else Reads_line)\<rparr>)
           | _ \<Rightarrow> None))"
| "isl_conn_step base Answers c =
     (if isl_at c = Handles then Some (c\<lparr>isl_at := (if writable_peer c then Reads_line else Closed)\<rparr>) else None)"

fun isl_own :: "isl_event \<Rightarrow> bool" where
  "isl_own Reads = True"
| "isl_own Answers = True"
| "isl_own _ = False"

definition isl_over :: "isl_conn \<Rightarrow> bool" where
  "isl_over c \<longleftrightarrow> isl_at c = Closed"

text \<open>The goroutine waits for its client.\<close>

definition idle :: "isl_conn \<Rightarrow> bool" where
  "idle c \<longleftrightarrow> (isl_at c = Reads_spec \<or> isl_at c = Reads_line) \<and> inbox c = []"

definition isl_weight :: "isl_conn \<Rightarrow> nat" where
  "isl_weight c = 2 * length (inbox c) + (case isl_at c of Handles \<Rightarrow> 2 | Reads_spec \<Rightarrow> 1 | Reads_line \<Rightarrow> 1 | Closed \<Rightarrow> 0)"

interpretation isl: blocking_connection isl_conn_step isl_own new_isl_conn "\<lambda>c. True" isl_weight isl_over idle isl_own
proof unfold_locales
  fix b e c d
  show "isl_over c \<Longrightarrow> isl_conn_step b e c = Some d \<Longrightarrow> isl_over d"
    by (cases e) (auto simp: isl_over_def split: list.splits if_splits)
  show "isl_own e \<Longrightarrow> isl_conn_step True e c = Some d \<Longrightarrow> isl_weight d < isl_weight c"
    by (cases e; cases "isl_at c") (auto simp: isl_weight_def split: list.splits if_splits)
  show "\<exists>e. isl_own e \<and> isl_conn_step True e c \<noteq> None" if "\<not> isl_over c" "\<not> idle c"
  proof (cases "isl_at c = Handles")
    case True
    then have "isl_conn_step True Answers c \<noteq> None" by simp
    then show ?thesis using isl_own.simps(2) by blast
  next
    case False
    then have "isl_conn_step True Reads c \<noteq> None"
      using that by (cases "isl_at c"; cases "inbox c") (auto simp: isl_over_def idle_def)
    then show ?thesis using isl_own.simps(1) by blast
  qed
  show "idle c \<Longrightarrow> \<not> isl_over c" by (auto simp: idle_def isl_over_def)
  show "idle c \<Longrightarrow> isl_own e \<Longrightarrow> isl_conn_step b e c = Some d \<Longrightarrow> idle d"
    by (cases e) (auto simp: idle_def split: list.splits if_splits)
qed simp

definition isl_accept_result :: "net_err \<Rightarrow> bool \<Rightarrow> net_err option" where
  "isl_accept_result err cancelled_base = (if err = ErrClosed \<and> cancelled_base then None else Some err)"

definition isl_server_step :: "isl_event server_event \<Rightarrow> isl_conn tcp_server \<Rightarrow> isl_conn tcp_server option" where
  "isl_server_step = server_step isl_accept_result isl_conn_step new_isl_conn isl_over"

definition isl_Listen :: "'c tcp_server \<Rightarrow> net_err option \<times> 'c tcp_server" where
  "isl_Listen = Listen_begin ErrStatus"

definition isl_Shutdown :: "'c tcp_server \<Rightarrow> net_err option \<times> 'c tcp_server" where
  "isl_Shutdown = Shutdown_begin None"

text \<open>A client that has been served a line and stays connected.\<close>

definition isl_idle_run :: "isl_event server_event list" where
  "isl_idle_run =
     [Call_Listen, Bind True, Accept, Conn 0 (Client Good_spec), Conn 0 Reads, Conn 0 (Client Line_item), Conn 0 Reads,
      Conn 0 Answers]"

section \<open>Properties of the server\<close>

text \<open>
  Once \<open>Shutdown\<close> of the insecure sockets server is called, its goroutines end after a bounded
  number of steps, however they are scheduled; then everything has stopped and \<open>Shutdown\<close> has returned,
  unless some connection waits for its client; and whenever \<open>Shutdown\<close> has returned nil, the listener
  and all connections that were ever accepted are closed.
\<close>

theorem isl_shutdown_drains:
  assumes "run_steps isl_server_step as NewServer = Some s" "status s = 2"
  shows "drains isl_server_step (server_own isl_own) s
      (\<lambda>t. (all_stopped isl_over t \<and> shutdown_at t \<noteq> Awaiting) \<or> (\<exists>c\<in>set (conns t). idle c)) \<and>
    (shutdown_at s = Shut None \<longrightarrow> all_stopped isl_over s)"
proof
  have "isl.server_done t \<Longrightarrow>
      (all_stopped isl_over t \<and> shutdown_at t \<noteq> Awaiting) \<or> (\<exists>c\<in>set (conns t). idle c)" for t
    by (auto simp: isl.server_done_def)
  then show "drains isl_server_step (server_own isl_own) s
      (\<lambda>t. (all_stopped isl_over t \<and> shutdown_at t \<noteq> Awaiting) \<or> (\<exists>c\<in>set (conns t). idle c))"
    using isl.shutdown_drains [of isl_accept_result as s] assms unfolding isl_server_step_def drains_def by blast
  show "shutdown_at s = Shut None \<longrightarrow> all_stopped isl_over s"
    using isl.shutdown_stopped assms(1) unfolding isl_server_step_def by blast
qed

theorem isl_shutdown_drains_witness:
  "drains isl_server_step (server_own isl_own) (the (run_steps isl_server_step (isl_idle_run @ [Call_Shutdown]) NewServer))
    (\<lambda>t. (all_stopped isl_over t \<and> shutdown_at t \<noteq> Awaiting) \<or> (\<exists>c\<in>set (conns t). idle c))"
proof -
  let ?t = "the (run_steps isl_server_step (isl_idle_run @ [Call_Shutdown]) NewServer)"
  have "run_steps isl_server_step (isl_idle_run @ [Call_Shutdown]) NewServer = Some ?t" "status ?t = 2"
    by (simp_all add: isl_idle_run_def isl_server_step_def NewServer_def new_isl_conn_def Listen_begin_def Shutdown_begin_def)
  from isl_shutdown_drains [OF this] show ?thesis by blast
qed

text \<open>
  \<open>Shutdown\<close> does not close connections: while one client keeps its connection open and sends
  nothing, \<open>Shutdown\<close> does not return nil, whatever all others do.
\<close>

theorem isl_idle_client_blocks:
  assumes "run_steps isl_server_step as NewServer = Some s" "i < length (conns s)" "idle (conns s ! i)"
    and "list_all (quiet_for isl_own i) bs" "run_steps isl_server_step bs s = Some t"
  shows "shutdown_at t \<noteq> Shut None"
  using isl.blocked_shutdown assms unfolding isl_server_step_def by blast

theorem isl_idle_client_blocks_witness:
  "\<exists>s. run_steps isl_server_step isl_idle_run NewServer = Some s \<and>
    (\<forall>t. run_steps isl_server_step [Call_Shutdown, Closer_wakes, Accept_fails ErrClosed] s = Some t \<longrightarrow> shutdown_at t \<noteq> Shut None)"
proof -
  let ?s = "the (run_steps isl_server_step isl_idle_run NewServer)"
  have s: "run_steps isl_server_step isl_idle_run NewServer = Some ?s" "0 < length (conns ?s)" "idle (conns ?s ! 0)"
    by (simp_all add: isl_idle_run_def isl_server_step_def NewServer_def new_isl_conn_def Listen_begin_def idle_def)
  from isl_idle_client_blocks [OF s, of "[Call_Shutdown, Closer_wakes, Accept_fails ErrClosed]"] show ?thesis using s(1) by auto
qed

text \<open>
  When \<open>AcceptTCP\<close> fails while the servers run (too many open files, say), \<open>Listen\<close> neither goes on
  nor returns: its deferred wait includes the goroutine that waits for \<open>Shutdown\<close>, so nothing is accepted
  and no error is reported until \<open>Shutdown\<close> is called; and then the job centre's \<open>Listen\<close> returns nil.
\<close>

theorem accept_failure_hidden:
  assumes "run_steps job_server_step as NewServer = Some s" "job_server_step (Accept_fails ErrAccept) s = Some u"
    and "status s = 1" "Call_Shutdown \<notin> set bs" "run_steps job_server_step bs u = Some t"
    and "run_steps isl_server_step as' NewServer = Some s'" "isl_server_step (Accept_fails ErrAccept) s' = Some u'"
    and "status s' = 1" "Call_Shutdown \<notin> set bs'" "run_steps isl_server_step bs' u' = Some t'"
  shows "listen_at t = Draining None \<and> listen_at t' = Draining (Some ErrAccept)"
  using looper.accept_error_waits [of job_accept_result as s u bs t] assms(1-5)
    isl.accept_error_waits [of isl_accept_result as' s' u' bs' t'] assms(6-10)
  by (simp add: job_server_step_def isl_server_step_def job_accept_result_def isl_accept_result_def)

theorem accept_failure_hidden_witness:
  "\<exists>u u'. run_steps job_server_step [Call_Listen, Bind True, Accept_fails ErrAccept] NewServer = Some (u :: nat looper tcp_server) \<and>
     run_steps isl_server_step [Call_Listen, Bind True, Accept_fails ErrAccept] NewServer = Some u' \<and>
     listen_at u = Draining None \<and> listen_at u' = Draining (Some ErrAccept)"
proof -
  let ?as = "[Call_Listen, Bind True]"
  obtain s u where s: "run_steps job_server_step ?as NewServer = Some (s :: nat looper tcp_server)" "status s = 1"
    and u: "job_server_step (Accept_fails ErrAccept) s = Some u"
    by (simp add: server_eval)
  obtain t u' where t: "run_steps isl_server_step ?as NewServer = Some t" "status t = 1"
    and u': "isl_server_step (Accept_fails ErrAccept) t = Some u'"
    by (simp add: server_eval isl_server_step_def)
  have "run_steps job_server_step [] u = Some u" "run_steps isl_server_step [] u' = Some u'" by simp_all
  from accept_failure_hidden [OF s(1) u s(2) _ this(1) t(1) u' t(2) _ this(2)]
  have "listen_at u = Draining None" "listen_at u' = Draining (Some ErrAccept)" by simp_all
  moreover have "run_steps job_server_step (?as @ [Accept_fails ErrAccept]) NewServer = Some u"
      "run_steps isl_server_step (?as @ [Accept_fails ErrAccept]) NewServer = Some u'"
    unfolding run_steps_append s(1) t(1) by (simp_all add: u u')
  ultimately show ?thesis by auto
qed

end
