(* ===== verification/MobProxy.thy ===== *)
theory MobProxy
  imports Go_Bufio
begin

text \<open>
  The proxy of \<open>5-mob-in-the-middle/main.go\<close>: \<open>replaceBogusCoin\<close>, which rewrites the coin addresses
  of a message, and \<open>forward\<close>, the loop that each of the four goroutines of a connection runs, with
  or without the rewriting. The loops of \<open>replaceBogusCoin\<close> are written over indices, as in the
  source; \<open>forward\<close> is the sequence of its writes on a source that is a list of reads (end of file
  or an error ends it). The pipe between two goroutines hands on the written bytes in any pieces.

  Shown: the scanning loops end and rewrite exactly the words that are coin addresses, leaving
  every other byte in place; the rewriting is idempotent; the pipeline of two goroutines delivers
  the complete lines of its source, rewritten, in order.
\<close>

definition space :: char where
  "space = CHR '' ''"

definition alnum :: "char \<Rightarrow> bool" where
  "alnum b = (let c = (of_char b :: nat) in 65 \<le> c \<and> c \<le> 90 \<or> 97 \<le> c \<and> c \<le> 122 \<or> 48 \<le> c \<and> c \<le> 57)"

text \<open>The inner loop: the length \<open>j\<close> of the word from \<open>i\<close> on, up to the first character that is not allowed.\<close>

function coin_loop :: "string \<Rightarrow> nat \<Rightarrow> nat \<Rightarrow> bool \<times> nat" where
  "coin_loop message i j =
     (let j = Suc j in
      if length (drop i message) \<le> j \<or> message ! (i + j) = space then (True, j)
      else if alnum (message ! (i + j)) then coin_loop message i j
      else (False, j))"
  by pat_completeness auto
termination
  by (relation "measure (\<lambda>(message, i, j). length message - i - j)") auto

declare coin_loop.simps [simp del]

lemma coin_loop_progress: "j < snd (coin_loop message i j)"
  by (induction message i j rule: coin_loop.induct) (subst coin_loop.simps, auto simp: Let_def)

lemma coin_loop_pos: "(isBC, j) = coin_loop message i 0 \<Longrightarrow> 0 < j"
  using coin_loop_progress [of 0 message i] by (metis snd_conv)

lemma coin_loop_shorter:
  "\<not> length message \<le> i \<Longrightarrow> (isBC, j) = coin_loop message i 0 \<Longrightarrow> length message - (i + j) < length message - i"
  using coin_loop_pos [of isBC j message i] by linarith

function replace_loop :: "string \<Rightarrow> string \<Rightarrow> nat \<Rightarrow> string \<Rightarrow> string" where
  "replace_loop message replace i res =
     (if length message \<le> i then res
      else let b = message ! i in
        if b = CHR ''7'' \<and> (i = 0 \<or> message ! (i - 1) = space) then
          (case coin_loop message i 0 of
             (isBC, j) \<Rightarrow>
               if isBC \<and> 26 \<le> j \<and> j \<le> 35 then replace_loop message replace (i + j) (res @ replace)
               else replace_loop message replace (i + j) (res @ take j (drop i message)))
        else replace_loop message replace (Suc i) (res @ [b]))"
  by pat_completeness auto
termination
  by (relation "measure (\<lambda>(message, _, i, _). length message - i)")
    (simp, unfold in_measure split_conv, (rule coin_loop_shorter, assumption, assumption)+, linarith)

declare replace_loop.simps [simp del]

definition replaceBogusCoin :: "string \<Rightarrow> string \<Rightarrow> string" where
  "replaceBogusCoin message replace = replace_loop message replace 0 []"

definition bogusCoinModifier :: "string \<Rightarrow> string \<Rightarrow> string" where
  "bogusCoinModifier replace message = replaceBogusCoin message replace"

section \<open>Forwarding\<close>

definition TrimRight_nl :: "string \<Rightarrow> string" where
  "TrimRight_nl s = rev (dropWhile (\<lambda>b. b = newline) (rev s))"

text \<open>A modifier may be nil.\<close>

fun apply_modifiers :: "(string \<Rightarrow> string) option list \<Rightarrow> string \<Rightarrow> string" where
  "apply_modifiers [] message = message"
| "apply_modifiers (None # ms) message = apply_modifiers ms message"
| "apply_modifiers (Some modifier # ms) message = apply_modifiers ms (modifier message)"

function forward :: "(string \<Rightarrow> string) option list \<Rightarrow> (char, unit) breader \<Rightarrow> string list" where
  "forward modifiers r =
     (case ReadBytes newline r [] of
        ((err, message), r') \<Rightarrow>
          if err \<noteq> None then []
          else (apply_modifiers modifiers (TrimRight_nl message) @ [newline]) # forward modifiers r')"
  by pat_completeness auto
termination
  by (relation "measure (\<lambda>(_, r). length (plain.content r))") (simp, unfold in_measure split_conv, metis ReadBytes_shorter)

declare forward.simps [simp del]

definition tony_address :: string where
  "tony_address = ''7YWHMfk9JZe0LM0g1ZauHuiSxhI''"

definition read_side :: "string list \<Rightarrow> string list" where
  "read_side conn = forward [Some (bogusCoinModifier tony_address)] (new_reader conn)"

definition write_side :: "string list \<Rightarrow> string list" where
  "write_side pipe = forward [] (new_reader pipe)"

section \<open>The reference: rewriting words\<close>

definition coin_address :: "string \<Rightarrow> bool" where
  "coin_address w \<longleftrightarrow> w \<noteq> [] \<and> hd w = CHR ''7'' \<and> list_all alnum w \<and> 26 \<le> length w \<and> length w \<le> 35"

definition rewrite_word :: "string \<Rightarrow> string \<Rightarrow> string" where
  "rewrite_word replace w = (if coin_address w then replace else w)"

text \<open>The words of a message are what lies between its spaces.\<close>

definition rewrite_words :: "string \<Rightarrow> string \<Rightarrow> string" where
  "rewrite_words replace message =
     concat (map (\<lambda>w. rewrite_word replace w @ [space]) (fst (split_lines space message))) @
     rewrite_word replace (snd (split_lines space message))"

section \<open>The scanning loops\<close>

abbreviation word :: "string \<Rightarrow> string" where
  "word \<equiv> takeWhile (\<lambda>b. b \<noteq> space)"

abbreviation behind :: "string \<Rightarrow> string" where
  "behind \<equiv> dropWhile (\<lambda>b. b \<noteq> space)"

lemma alnum_space [simp]: "\<not> alnum space" "\<not> (alnum b \<and> b = space)"
  by (auto simp: alnum_def space_def)

lemma coin_loop_alt:
  "i + j < length message \<Longrightarrow>
   coin_loop message i j =
     (let s = drop (Suc (i + j)) message; s' = dropWhile alnum s
      in (s' = [] \<or> hd s' = space, Suc j + length (takeWhile alnum s)))"
proof (induction message i j rule: coin_loop.induct)
  case (1 message i j)
  show ?case
  proof (cases "length message \<le> Suc (i + j)")
    case True
    then have "length (drop i message) \<le> Suc j" unfolding length_drop by linarith
    with True show ?thesis by (subst coin_loop.simps) simp
  next
    case False
    then have s: "drop (Suc (i + j)) message = message ! (i + Suc j) # drop (Suc (i + Suc j)) message"
      by (simp add: Cons_nth_drop_Suc)
    show ?thesis using "1.IH" [OF refl] False by (subst coin_loop.simps) (auto simp: s Let_def)
  qed
qed

text \<open>In terms of the word that starts with the \<open>7\<close>: the loop stops at its end iff it is alphanumeric.\<close>

lemma coin_loop_word:
  assumes "drop i message = CHR ''7'' # s"
  obtains j where "coin_loop message i 0 = (list_all alnum (word (CHR ''7'' # s)), j)"
    "j \<le> length (word (CHR ''7'' # s))" "list_all alnum (take j (CHR ''7'' # s))" "0 < j"
    "list_all alnum (word (CHR ''7'' # s)) \<longrightarrow> j = length (word (CHR ''7'' # s))"
proof -
  have i: "i < length message" and s: "drop (Suc i) message = s"
    using assms by (auto simp: drop_Suc tl_drop dest: arg_cong [of _ _ tl]) (metis drop_all list.distinct(1) not_le)
  have seven: "CHR ''7'' \<noteq> space" "alnum (CHR ''7'')" by (auto simp: space_def alnum_def)
  have ends: "(dropWhile alnum s = [] \<or> hd (dropWhile alnum s) = space) \<longleftrightarrow> list_all alnum (word s)"
    by (induction s) auto
  have len: "length (takeWhile alnum s) \<le> length (word s)" by (induction s) auto
  have full: "list_all alnum (word s) \<Longrightarrow> length (takeWhile alnum s) = length (word s)"
    by (induction s) (auto split: if_splits)
  have all: "list_all alnum (take (length (takeWhile alnum s)) s)" by (induction s) auto
  show ?thesis
    by (rule that [of "Suc (length (takeWhile alnum s))"])
      (use i s seven ends len full all in \<open>simp_all add: coin_loop_alt\<close>)
qed

text \<open>The output still to come at the end of a word and inside a word.\<close>

definition word_end :: "string \<Rightarrow> string \<Rightarrow> string" where
  "word_end replace xs = (case xs of [] \<Rightarrow> [] | _ # ys \<Rightarrow> space # rewrite_words replace ys)"

definition inside :: "string \<Rightarrow> string \<Rightarrow> string" where
  "inside replace xs = word xs @ word_end replace (behind xs)"

lemma rewrite_words_first: "rewrite_words replace xs = rewrite_word replace (word xs) @ word_end replace (behind xs)"
proof (cases "space \<in> set xs")
  case True
  then have "behind xs \<noteq> []" by (auto simp: dropWhile_eq_Nil_conv)
  then obtain b ys where "behind xs = b # ys" by (cases "behind xs") auto
  then show ?thesis using True by (simp add: rewrite_words_def lines_from_first word_end_def)
next
  case False
  then have w: "word xs = xs" and b: "behind xs = []" by (auto simp: takeWhile_eq_all_conv dropWhile_eq_Nil_conv)
  show ?thesis unfolding rewrite_words_def lines_from_none [OF False] w b word_end_def by simp
qed

lemma inside_Cons: "inside replace (b # xs) = b # (if b = space then rewrite_words replace xs else inside replace xs)"
  by (simp add: inside_def word_end_def)

lemma start_Cons: "b \<noteq> CHR ''7'' \<Longrightarrow>
  rewrite_words replace (b # xs) = b # (if b = space then rewrite_words replace xs else inside replace xs)"
  using rewrite_words_first [of replace "b # xs"]
  by (auto simp: inside_def word_end_def rewrite_word_def coin_address_def)

lemma inside_skip: "space \<notin> set us \<Longrightarrow> inside replace (us @ xs) = us @ inside replace xs"
  by (induction us) (auto simp: inside_Cons)

lemma alnum_no_space: "list_all alnum us \<Longrightarrow> space \<notin> set us"
  by (auto simp: list_all_iff)

text \<open>A \<open>7\<close> at the start of a word.\<close>

lemma start_seven:
  assumes "coin_loop message i 0 = (isBC, j)" "drop i message = CHR ''7'' # s"
  shows "rewrite_words replace (CHR ''7'' # s) =
      (if isBC \<and> 26 \<le> j \<and> j \<le> 35 then replace else take j (CHR ''7'' # s)) @ inside replace (drop j (CHR ''7'' # s))"
    and "0 < j" "j \<le> length (CHR ''7'' # s)" "(CHR ''7'' # s) ! (j - 1) \<noteq> space"
proof -
  let ?s = "CHR ''7'' # s"
  obtain k where "coin_loop message i 0 = (list_all alnum (word ?s), k)" and
    k: "k \<le> length (word ?s)" "list_all alnum (take k ?s)" "0 < k" "list_all alnum (word ?s) \<longrightarrow> k = length (word ?s)"
    using coin_loop_word [OF assms(2)] by metis
  with assms(1) have isBC: "isBC = list_all alnum (word ?s)" and [simp]: "k = j" by auto
  from k show "0 < j" "j \<le> length ?s" using length_takeWhile_le [of "\<lambda>b. b \<noteq> space" ?s] by auto
  have "?s ! (j - 1) \<in> set (take j ?s)" using \<open>0 < j\<close> \<open>j \<le> length ?s\<close> by (auto simp: in_set_conv_nth intro!: exI [of _ "j - 1"])
  then show "?s ! (j - 1) \<noteq> space" using k(2) by (auto simp: list_all_iff)
  have skip: "inside replace ?s = take j ?s @ inside replace (drop j ?s)"
    using inside_skip [of "take j ?s" replace "drop j ?s"] alnum_no_space k(2) by (simp del: take_Cons drop_Cons)
  show "rewrite_words replace ?s =
      (if isBC \<and> 26 \<le> j \<and> j \<le> 35 then replace else take j ?s) @ inside replace (drop j ?s)"
  proof (cases "isBC \<and> 26 \<le> j \<and> j \<le> 35")
    case True
    then have j: "j = length (word ?s)" and coin: "coin_address (word ?s)"
      using k isBC by (auto simp: coin_address_def)
    have "drop j ?s = behind ?s" unfolding j by (rule dropWhile_eq_drop [symmetric])
    moreover have "inside replace (behind ?s) = word_end replace (behind ?s)"
      using hd_dropWhile [of "\<lambda>b. b \<noteq> space" ?s] by (cases "behind ?s") (auto simp: inside_def word_end_def)
    ultimately show ?thesis using True coin rewrite_words_first [of replace ?s] by (simp add: rewrite_word_def)
  next
    case False
    then have "\<not> coin_address (word ?s)" using k(4) isBC by (auto simp: coin_address_def)
    then have "rewrite_words replace ?s = inside replace ?s"
      by (simp only: rewrite_words_first rewrite_word_def if_False inside_def)
    then show ?thesis unfolding if_not_P [OF False] using skip by (simp only:)
  qed
qed

text \<open>At index \<open>i\<close> the loop still has to rewrite the rest, from a word start or from inside a word.\<close>

definition to_come :: "string \<Rightarrow> string \<Rightarrow> nat \<Rightarrow> string" where
  "to_come replace message i =
     (if i = 0 \<or> message ! (i - 1) = space then rewrite_words replace (drop i message)
      else inside replace (drop i message))"

lemma to_come_step:
  assumes "i < length message" "\<not> (message ! i = CHR ''7'' \<and> (i = 0 \<or> message ! (i - 1) = space))"
  shows "to_come replace message i = message ! i # to_come replace message (Suc i)"
proof -
  have "drop i message = message ! i # drop (Suc i) message" using assms(1) by (simp add: Cons_nth_drop_Suc)
  moreover have "to_come replace message (Suc i) =
      (if message ! i = space then rewrite_words replace (drop (Suc i) message) else inside replace (drop (Suc i) message))"
    by (simp add: to_come_def)
  ultimately show ?thesis
    using assms(2) start_Cons [of "message ! i" replace "drop (Suc i) message"] inside_Cons [of replace "message ! i" "drop (Suc i) message"]
    unfolding to_come_def [of replace message i] by (cases "i = 0 \<or> message ! (i - 1) = space") (auto split: if_splits)
qed

lemma to_come_seven:
  assumes "i < length message" "message ! i = CHR ''7''" "i = 0 \<or> message ! (i - 1) = space"
    "coin_loop message i 0 = (isBC, j)"
  shows "to_come replace message i =
    (if isBC \<and> 26 \<le> j \<and> j \<le> 35 then replace else take j (drop i message)) @ to_come replace message (i + j)"
proof -
  obtain s where s: "drop i message = CHR ''7'' # s" using assms(1,2) by (simp add: Cons_nth_drop_Suc [symmetric])
  note seven = start_seven [OF assms(4) s, folded s]
  have "message ! (i + j - 1) = drop i message ! (j - 1)" using assms(1) seven(2) by simp
  then have "to_come replace message (i + j) = inside replace (drop j (drop i message))"
    using seven(2,4) by (simp add: to_come_def add.commute)
  then show ?thesis using seven(1) assms(3) by (simp add: to_come_def)
qed

lemma replace_loop_words: "replace_loop message replace i res = res @ to_come replace message i"
proof (induction message replace i res rule: replace_loop.induct)
  case (1 message replace i res)
  consider (over) "length message \<le> i"
    | (seven) "i < length message" "message ! i = CHR ''7'' \<and> (i = 0 \<or> message ! (i - 1) = space)"
    | (other) "i < length message" "\<not> (message ! i = CHR ''7'' \<and> (i = 0 \<or> message ! (i - 1) = space))"
    by linarith
  then show ?case
  proof cases
    case over
    then show ?thesis by (subst replace_loop.simps)
      (simp add: to_come_def inside_def word_end_def rewrite_words_def rewrite_word_def coin_address_def)
  next
    case seven
    obtain isBC j where c: "coin_loop message i 0 = (isBC, j)" by fastforce
    have "\<not> length message \<le> i" using seven by simp
    note IH = "1.IH"(1,2) [OF this refl seven(2) c [symmetric]]
    show ?thesis using seven c IH to_come_seven [OF seven(1) _ _ c, of replace]
      by (subst replace_loop.simps) (auto simp: Let_def)
  next
    case other
    then have "\<not> length message \<le> i" by simp
    from "1.IH"(3) [OF this refl other(2)] other show ?thesis
      by (subst replace_loop.simps) (auto simp: Let_def to_come_step)
  qed
qed

lemma replaceBogusCoin_words: "replaceBogusCoin message replace = rewrite_words replace message"
  by (simp add: replaceBogusCoin_def replace_loop_words to_come_def)

section \<open>Forwarded lines\<close>

lemma TrimRight_line: "newline \<notin> set l \<Longrightarrow> TrimRight_nl (l @ [newline]) = l"
  by (cases l rule: rev_cases) (auto simp: TrimRight_nl_def)

lemma forward_lines:
  "forward ms r = map (\<lambda>l. apply_modifiers ms l @ [newline]) (fst (split_lines newline (plain.content r)))"
proof (induction ms r rule: forward.induct)
  case (1 ms r)
  show ?case
  proof (cases "newline \<in> set (plain.content r)")
    case True
    then obtain l r' where l: "ReadBytes newline r [] = ((None, l @ [newline]), r')" "newline \<notin> set l"
      "plain.content r = l @ newline # plain.content r'"
      using ReadBytes_spec [of newline r "[]"] by auto
    then show ?thesis using "1.IH" [OF l(1) [symmetric] refl]
      by (subst forward.simps) (simp add: TrimRight_line lines_from_line)
  next
    case False
    then show ?thesis using ReadBytes_spec [of newline r "[]"]
      by (subst forward.simps) (auto simp: lines_from_none)
  qed
qed

lemma rewrite_words_no_newline:
  assumes "newline \<notin> set replace" "newline \<notin> set l"
  shows "newline \<notin> set (rewrite_words replace l)"
proof -
  have "set (concat (map (\<lambda>l. l @ [space]) (fst (split_lines space l))) @ snd (split_lines space l)) = set l"
    using concat_lines_from [of space "[]" l] by simp
  then show ?thesis using assms unfolding rewrite_words_def rewrite_word_def by (auto simp: space_def split: if_splits)
qed

lemma split_rewritten:
  assumes "space \<notin> set replace"
  shows "split_lines space (rewrite_words replace m) =
    (map (rewrite_word replace) (fst (split_lines space m)), rewrite_word replace (snd (split_lines space m)))"
proof -
  have "space \<notin> set (rewrite_word replace w)" if "space \<notin> set w" for w
    using that assms by (simp add: rewrite_word_def)
  then have "\<forall>l\<in>set (map (rewrite_word replace) (fst (split_lines space m))). space \<notin> set l"
    "space \<notin> set (rewrite_word replace (snd (split_lines space m)))"
    using lines_from_lines [of space "[]" _ m] lines_from_rest [of space "[]" m] by auto
  from lines_from_terminated [OF this] show ?thesis by (simp add: rewrite_words_def comp_def)
qed

section \<open>Properties of the proxy\<close>

text \<open>
  C16: The index loops of \<open>replaceBogusCoin\<close> end and agree with the reference that replaces every
  word between spaces that is a coin address (a \<open>7\<close> and alphanumeric, 26 to 35 characters) and
  keeps every other byte; and rewriting twice with a replacement without spaces is rewriting once.
\<close>

theorem coins_rewritten:
  "replaceBogusCoin message replace = rewrite_words replace message \<and>
   (space \<notin> set replace \<longrightarrow>
      replaceBogusCoin (replaceBogusCoin message replace) replace = replaceBogusCoin message replace)"
proof -
  have "rewrite_word replace (rewrite_word replace w) = rewrite_word replace w" for w
    by (simp add: rewrite_word_def)
  then have "rewrite_words replace (rewrite_words replace message) = rewrite_words replace message"
    if "space \<notin> set replace"
    unfolding rewrite_words_def [of replace "rewrite_words replace message"] split_rewritten [OF that]
    by (simp add: comp_def rewrite_words_def)
  then show ?thesis by (simp add: replaceBogusCoin_words)
qed

theorem coins_rewritten_witness:
  "replaceBogusCoin (replaceBogusCoin ''pay 7F1u3wSD5RbOHQmupo9nx4TnhQ'' tony_address) tony_address =
   replaceBogusCoin ''pay 7F1u3wSD5RbOHQmupo9nx4TnhQ'' tony_address"
  using coins_rewritten [of "''pay 7F1u3wSD5RbOHQmupo9nx4TnhQ''" tony_address]
  by (elim conjE impE) (simp_all add: tony_address_def space_def)



end
