(* ===== verification/MeansSession.thy ===== *)
theory MeansSession
  imports Codec "HOL-Library.Signed_Division"
begin

text \<open>
  The price server of \<open>2-means-to-an-end\<close>: the nine byte messages (\<open>types.go\<close>, \<open>utils.go\<close>) and the
  session loop (\<open>main.go\<close>, \<open>handleSession\<close>). An \<open>int32\<close> is a 32 bit word read with \<open>sint\<close>, the running
  \<open>total\<close> a 64 bit word. The database is the list of its entries in the order of insertion; Go ranges
  over a map in any order, so a query takes the order it visits the entries in as an argument and the
  properties hold for every order.

  Shown: the 64 bit total never overflows and the mean fits 32 bits, whatever was inserted; and a
  session answers every query with the mean, rounded toward zero, of the prices inserted before.
\<close>

datatype means_msg = MessageInsert int32 int32 | MessageQuery int32 int32

datatype means_error = UnexpectedEOF | UnknownMessageType | DuplicateTimestamp

definition bytesToInt32 :: "byte list \<Rightarrow> int32 option" where
  "bytesToInt32 b = map_option fst (get_u32 b)"

definition int32ToBytes :: "int32 \<Rightarrow> byte list" where
  "int32ToBytes w = put_u32 w"

text \<open>\<open>UnmarshalMessage\<close>: \<open>I\<close> is 73 and \<open>Q\<close> is 81.\<close>

definition UnmarshalMeans :: "byte list \<Rightarrow> means_msg option" where
  "UnmarshalMeans raw =
     (if length raw \<noteq> 9 then None
      else if raw ! 0 = 73 then
        (case (bytesToInt32 (take 4 (drop 1 raw)), bytesToInt32 (drop 5 raw)) of
           (Some timestamp, Some price) \<Rightarrow> Some (MessageInsert timestamp price)
         | _ \<Rightarrow> None)
      else if raw ! 0 = 81 then
        (case (bytesToInt32 (take 4 (drop 1 raw)), bytesToInt32 (drop 5 raw)) of
           (Some minTime, Some maxTime) \<Rightarrow> Some (MessageQuery minTime maxTime)
         | _ \<Rightarrow> None)
      else None)"

definition in_window :: "int32 \<Rightarrow> int32 \<Rightarrow> int32 \<Rightarrow> bool" where
  "in_window minTime maxTime timestamp \<longleftrightarrow> sint minTime \<le> sint timestamp \<and> sint timestamp \<le> sint maxTime"

text \<open>The loop of a query over the entries of the database.\<close>

fun query_loop :: "int32 \<Rightarrow> int32 \<Rightarrow> (int32 \<times> int32) list \<Rightarrow> int64 \<times> int64 \<Rightarrow> int64 \<times> int64" where
  "query_loop minTime maxTime [] acc = acc"
| "query_loop minTime maxTime ((timestamp, price) # db) (total', n) =
     (if in_window minTime maxTime timestamp
      then query_loop minTime maxTime db (total' + word_of_int (sint price), n + 1)
      else query_loop minTime maxTime db (total', n))"

definition query_mean :: "int32 \<Rightarrow> int32 \<Rightarrow> (int32 \<times> int32) list \<Rightarrow> int32" where
  "query_mean minTime maxTime db =
     (let (total', n) = (if sint minTime \<le> sint maxTime then query_loop minTime maxTime db (0, 0) else (0, 0))
      in if 0 < sint n then word_of_int (sint total' sdiv sint n) else 0)"

text \<open>
  The session on the bytes that arrive until the connection ends: what it writes, and the error
  it returns (\<open>None\<close> at a clean end of file). \<open>visit\<close> is the order in which a range visits the map.
\<close>

function handleSession ::
  "((int32 \<times> int32) list \<Rightarrow> (int32 \<times> int32) list) \<Rightarrow> (int32 \<times> int32) list \<Rightarrow> byte list \<Rightarrow>
   byte list list \<times> means_error option" where
  "handleSession visit db stream =
     (if stream = [] then ([], None)
      else if length stream < 9 then ([], Some UnexpectedEOF)
      else case UnmarshalMeans (take 9 stream) of
             None \<Rightarrow> ([], Some UnknownMessageType)
           | Some (MessageInsert timestamp price) \<Rightarrow>
               if map_of db timestamp \<noteq> None then ([], Some DuplicateTimestamp)
               else handleSession visit (db @ [(timestamp, price)]) (drop 9 stream)
           | Some (MessageQuery minTime maxTime) \<Rightarrow>
               (case handleSession visit db (drop 9 stream) of
                  (out, err) \<Rightarrow> (int32ToBytes (query_mean minTime maxTime (visit db)) # out, err)))"
  by pat_completeness auto
termination
  by (relation "measure (\<lambda>(_, _, stream). length stream)") auto

declare handleSession.simps [simp del]

section \<open>The mean\<close>

definition window_prices :: "int32 \<Rightarrow> int32 \<Rightarrow> (int32 \<times> int32) list \<Rightarrow> int list" where
  "window_prices minTime maxTime db =
     map (sint \<circ> snd) (filter (\<lambda>e. sint minTime \<le> sint (fst e) \<and> sint (fst e) \<le> sint maxTime) db)"

lemma window_prices_alt:
  "window_prices minTime maxTime db = map (sint \<circ> snd) (filter (\<lambda>e. in_window minTime maxTime (fst e)) db)"
  by (simp add: window_prices_def in_window_def)

lemma query_loop_sum:
  "query_loop minTime maxTime db (total', n) =
   (total' + word_of_int (sum_list (window_prices minTime maxTime db)),
    n + word_of_nat (length (window_prices minTime maxTime db)))"
proof (induction db arbitrary: total' n)
  case (Cons e db)
  then show ?case by (cases e) (auto simp: window_prices_alt algebra_simps)
qed (simp add: window_prices_def)

lemma int32_bounds: "- (2 ^ 31) \<le> sint w" "sint w < 2 ^ 31" for w :: int32
  using sint_greater_eq [of w] sint_less [of w] by simp_all

lemma sum_bounds:
  "\<forall>x\<in>set xs. a \<le> x \<and> x \<le> b \<Longrightarrow> int (length xs) * a \<le> sum_list xs \<and> sum_list xs \<le> int (length xs) * b" for a b :: int
  by (induction xs) (auto simp: algebra_simps)

lemma distinct_keys_bound: "distinct (map fst db) \<Longrightarrow> length db \<le> 2 ^ 32" for db :: "(int32 \<times> int32) list"
proof -
  assume "distinct (map fst db)"
  then have "length db = card (fst ` set db)" by (metis distinct_card length_map set_map)
  also have "\<dots> \<le> card (UNIV :: int32 set)" by (rule card_mono) auto
  finally show ?thesis by (simp add: card_word)
qed

lemma signed64: "- (2 ^ 63) \<le> i \<Longrightarrow> i < 2 ^ 63 \<Longrightarrow> sint (word_of_int i :: int64) = i"
  by (simp add: signed_of_int signed_take_bit_int_eq_self_iff)

lemma signed32: "- (2 ^ 31) \<le> i \<Longrightarrow> i < 2 ^ 31 \<Longrightarrow> sint (word_of_int i :: int32) = i"
  by (simp add: signed_of_int signed_take_bit_int_eq_self_iff)

lemma sdiv_bounds:
  fixes s n a b :: int
  assumes "0 < n" "n * a \<le> s" "s \<le> n * b"
  shows "a \<le> s sdiv n \<and> s sdiv n \<le> b"
proof -
  have mono: "u \<le> v div n" if "n * u \<le> v" for u v
    using zdiv_mono1 [OF that assms(1)] assms(1) by simp
  have anti: "v div n \<le> u" if "v \<le> n * u" for u v
    using zdiv_mono1 [OF that assms(1)] assms(1) by simp
  consider "0 \<le> s" | "s < 0" by linarith
  then show ?thesis
  proof cases
    assume "0 \<le> s"
    then have "s sdiv n = s div n" using assms(1) by (cases "s = 0") (simp_all add: signed_divide_int_def sgn_if)
    then show ?thesis using mono [OF assms(2)] anti [OF assms(3)] by simp
  next
    assume "s < 0"
    then have "s sdiv n = - (- s div n)" using assms(1) by (simp add: signed_divide_int_def sgn_if)
    then show ?thesis using mono [of "- b" "- s"] anti [of "- s" "- a"] assms by simp
  qed
qed

lemma window_prices_bounds: "x \<in> set (window_prices minTime maxTime db) \<Longrightarrow> - (2 ^ 31) \<le> x \<and> x \<le> 2 ^ 31 - 1"
  unfolding window_prices_alt zle_diff1_eq using int32_bounds by auto

lemma query_exact:
  assumes "distinct (map fst db)"
  shows "sint (fst (query_loop minTime maxTime db (0, 0))) = sum_list (window_prices minTime maxTime db)"
    and "sint (snd (query_loop minTime maxTime db (0, 0))) = int (length (window_prices minTime maxTime db))"
proof -
  let ?w = "window_prices minTime maxTime db"
  have n: "length ?w \<le> 2 ^ 32"
    using distinct_keys_bound [OF assms] length_filter_le [of _ db]
    unfolding window_prices_alt length_map by (rule order_trans [rotated])
  have "\<forall>x\<in>set ?w. - (2 ^ 31) \<le> x \<and> x \<le> 2 ^ 31 - 1"
    using window_prices_bounds by blast
  from sum_bounds [OF this]
  have s: "int (length ?w) * - (2 ^ 31) \<le> sum_list ?w" "sum_list ?w \<le> int (length ?w) * (2 ^ 31 - 1)" by auto
  have "int (length ?w) \<le> 2 ^ 32" using of_nat_mono [OF n, where ?'a = int] by simp
  then have "- (2 ^ 63) \<le> sum_list ?w" "sum_list ?w < 2 ^ 63" using s by auto
  then show "sint (fst (query_loop minTime maxTime db (0, 0))) = sum_list ?w"
    by (simp only: query_loop_sum fst_conv add_0 signed64)
  show "sint (snd (query_loop minTime maxTime db (0, 0))) = int (length ?w)"
    using \<open>int (length ?w) \<le> 2 ^ 32\<close> signed64 [of "int (length ?w)"]
    by (simp add: query_loop_sum)
qed

section \<open>Sessions\<close>

text \<open>The mean the protocol asks for, over the integers, rounded toward zero as Go divides.\<close>

definition exact_mean :: "int32 \<Rightarrow> int32 \<Rightarrow> (int32 \<times> int32) list \<Rightarrow> int" where
  "exact_mean minTime maxTime db =
     (let w = window_prices minTime maxTime db in if w = [] then 0 else sum_list w sdiv int (length w))"

lemma empty_window: "\<not> sint minTime \<le> sint maxTime \<Longrightarrow> window_prices minTime maxTime db = []"
  by (auto simp: window_prices_alt in_window_def filter_empty_conv)

lemma window_prices_mset: "mset es = mset db \<Longrightarrow> mset (window_prices a b es) = mset (window_prices a b db)"
  by (simp add: window_prices_alt)

lemma exact_mean_mset: "mset es = mset db \<Longrightarrow> exact_mean a b es = exact_mean a b db"
proof -
  assume "mset es = mset db"
  note m = window_prices_mset [OF this, of a b]
  have "sum_list (window_prices a b es) = sum_list (window_prices a b db)"
    using arg_cong [OF m, of sum_mset] by (simp add: sum_mset_sum_list)
  moreover have "window_prices a b es = [] \<longleftrightarrow> window_prices a b db = []" using m by (metis mset_zero_iff)
  ultimately show ?thesis using mset_eq_length [OF m] by (simp add: exact_mean_def Let_def)
qed

lemma query_mean_exact:
  assumes "distinct (map fst db)"
  shows "sint (query_mean minTime maxTime db) = exact_mean minTime maxTime db"
proof (cases "sint minTime \<le> sint maxTime")
  case True
  let ?w = "window_prices minTime maxTime db"
  have q: "query_mean minTime maxTime db =
      (if 0 < length ?w then word_of_int (sum_list ?w sdiv int (length ?w)) else 0)"
    using True query_exact [OF assms, of minTime maxTime]
    by (simp add: query_mean_def case_prod_beta Let_def)
  have "- (2 ^ 31) \<le> sum_list ?w sdiv int (length ?w) \<and> sum_list ?w sdiv int (length ?w) \<le> 2 ^ 31 - 1" if "?w \<noteq> []"
    using sdiv_bounds [of "int (length ?w)" "- (2 ^ 31)" "sum_list ?w" "2 ^ 31 - 1"] that
      sum_bounds [of ?w "- (2 ^ 31)" "2 ^ 31 - 1"] window_prices_bounds by auto
  then show ?thesis unfolding q exact_mean_def Let_def
    using signed32 [of "sum_list ?w sdiv int (length ?w)"] by auto
next
  case False
  then show ?thesis by (simp add: query_mean_def exact_mean_def empty_window)
qed

fun means_code :: "means_msg \<Rightarrow> byte list" where
  "means_code (MessageInsert timestamp price) = 73 # put_u32 timestamp @ put_u32 price"
| "means_code (MessageQuery minTime maxTime) = 81 # put_u32 minTime @ put_u32 maxTime"

lemma length_means_code [simp]: "length (means_code m) = 9"
  by (cases m) (simp_all add: put_u32_def)

lemma length_put_u32 [simp]: "length (put_u32 w) = 4"
  by (simp add: put_u32_def)

lemma bytesToInt32_put [simp]: "bytesToInt32 (put_u32 w) = Some w"
  using get_put_u32 [of w "[]"] by (simp add: bytesToInt32_def)

lemma UnmarshalMeans_code: "UnmarshalMeans (means_code m) = Some m"
  by (cases m) (simp_all add: UnmarshalMeans_def means_code.simps)

declare means_code.simps [simp del]

fun replies :: "(int32 \<times> int32) list \<Rightarrow> means_msg list \<Rightarrow> int list" where
  "replies db [] = []"
| "replies db (MessageInsert timestamp price # ms) = replies (db @ [(timestamp, price)]) ms"
| "replies db (MessageQuery minTime maxTime # ms) = exact_mean minTime maxTime db # replies db ms"

fun inserted :: "means_msg list \<Rightarrow> int32 list" where
  "inserted [] = []"
| "inserted (MessageInsert timestamp price # ms) = timestamp # inserted ms"
| "inserted (MessageQuery minTime maxTime # ms) = inserted ms"

lemma handleSession_code:
  "handleSession visit db (means_code m @ s) =
     (case m of
        MessageInsert timestamp price \<Rightarrow>
          if map_of db timestamp \<noteq> None then ([], Some DuplicateTimestamp)
          else handleSession visit (db @ [(timestamp, price)]) s
      | MessageQuery minTime maxTime \<Rightarrow>
          (case handleSession visit db s of
             (out, err) \<Rightarrow> (int32ToBytes (query_mean minTime maxTime (visit db)) # out, err)))"
proof -
  have "take 9 (means_code m @ s) = means_code m" "drop 9 (means_code m @ s) = s" by simp_all
  moreover have "means_code m \<noteq> []" for m using length_means_code [of m] by (cases "means_code m") auto
  ultimately show ?thesis
    by (subst handleSession.simps) (simp add: UnmarshalMeans_code split: means_msg.split)
qed

lemma session_replies:
  assumes "\<And>db. mset (visit db) = mset db" "distinct (map fst db @ inserted ms)" "length rest < 9"
  shows "\<exists>ws. handleSession visit db (concat (map means_code ms) @ rest) =
      (map int32ToBytes ws, if rest = [] then None else Some UnexpectedEOF) \<and> map sint ws = replies db ms"
  using assms(2)
proof (induction db ms rule: replies.induct)
  case (1 db)
  show ?case using assms(3) by (subst handleSession.simps) simp
next
  case (2 db t p ms)
  then have "map_of db t = None" by (auto simp: map_of_eq_None_iff)
  then show ?case using 2 by (simp add: handleSession_code)
next
  case (3 db a b ms)
  then obtain ws where ws: "handleSession visit db (concat (map means_code ms) @ rest) =
      (map int32ToBytes ws, if rest = [] then None else Some UnexpectedEOF)" "map sint ws = replies db ms" by auto
  have "distinct (map fst (visit db))"
    using 3 assms(1) [of db] by (metis distinct_append mset_eq_imp_distinct_iff mset_map)
  then have "sint (query_mean a b (visit db)) = exact_mean a b db"
    using query_mean_exact exact_mean_mset [OF assms(1)] by metis
  then show ?case using ws by (intro exI [of _ "query_mean a b (visit db) # ws"]) (simp add: handleSession_code)
qed

section \<open>Properties of the price server\<close>

text \<open>
  C20: Whatever is inserted, as long as no timestamp is inserted twice, a session answers every
  query, in order, with the exact mean, rounded toward zero, of the prices inserted before it in
  the closed time range, 0 when there is none: neither the 64 bit total nor the 32 bit result
  wraps, for any order in which the database is visited. A message cut short ends the session
  with an error.
\<close>

theorem session_means:
  assumes "\<forall>db. mset (visit db) = mset db" "distinct (inserted ms)" "length rest < 9"
  shows "\<exists>ws. handleSession visit [] (concat (map means_code ms) @ rest) =
      (map int32ToBytes ws, if rest = [] then None else Some UnexpectedEOF) \<and> map sint ws = replies [] ms"
  using session_replies [of visit "[]" ms rest] assms by auto

theorem session_means_witness:
  "\<exists>ws. handleSession rev [] (concat (map means_code [MessageInsert 12345 101, MessageInsert 12346 102,
      MessageInsert 12347 100, MessageInsert 40960 5, MessageQuery 12288 16384]) @ [73]) =
      (map int32ToBytes ws, Some UnexpectedEOF) \<and> map sint ws = [101]"
proof -
  have "replies [] [MessageInsert 12345 101, MessageInsert 12346 102, MessageInsert 12347 100,
    MessageInsert 40960 5, MessageQuery 12288 16384] = [101]" by code_simp
  moreover have "\<forall>db. mset (rev db) = mset (db :: (int32 \<times> int32) list)" by simp
  ultimately show ?thesis
    using session_means [of rev "[MessageInsert 12345 101, MessageInsert 12346 102, MessageInsert 12347 100,
      MessageInsert 40960 5, MessageQuery 12288 16384]" "[73]"] by (simp del: replies.simps concat.simps list.map)
qed

end
