(* ===== verification/UnusualDb.thy ===== *)
theory UnusualDb
  imports Prelude
begin

text \<open>
  The key-value store of \<open>4-unusual-database-program/main.go\<close>: \<open>handlePacket\<close> and the receiving loop of the
  workers, which share one database. The map accesses of \<open>handlePacket\<close> are under the database lock, one
  per packet, so the workers' interleavings are the sequences of packets. A received packet is what fits
  the receive buffer of 1024 bytes. A failed send is only logged.

  Shown: after any sequence of packets a query is answered with the value of the last insertion of its key,
  the empty string if there was none, and always with the same version.
\<close>

type_synonym Database = "string \<rightharpoonup> string"

definition recv_size :: nat where
  "recv_size = 1024"

text \<open>\<open>strings.SplitN(s, "=", 2)\<close>\<close>

definition SplitN_eq :: "string \<Rightarrow> string list" where
  "SplitN_eq s =
     (if CHR ''='' \<in> set s
      then [takeWhile (\<lambda>b. b \<noteq> CHR ''='') s, tl (dropWhile (\<lambda>b. b \<noteq> CHR ''='') s)] else [s])"

definition version_text :: string where
  "version_text = ''Ken'' @ CHR 0x27 # ''s Key-Value Store 1.0''"

text \<open>The new database and the reply, if one is sent.\<close>

definition handlePacket :: "Database \<Rightarrow> string \<Rightarrow> Database \<times> string option" where
  "handlePacket db packet =
     (case SplitN_eq packet of
        [key, val] \<Rightarrow> if key = ''version'' then (db, None) else (db(key \<mapsto> val), None)
      | [key] \<Rightarrow>
          let val = (if key = ''version'' then version_text else case db key of None \<Rightarrow> '''' | Some v \<Rightarrow> v)
          in (db, Some (key @ ''='' @ val))
      | _ \<Rightarrow> (db, None))"

definition worker_step :: "string \<Rightarrow> Database \<Rightarrow> Database" where
  "worker_step datagram db = fst (handlePacket db (take recv_size datagram))"

section \<open>The last insertion\<close>

text \<open>What a packet inserts under a key, and the last insertion of a history.\<close>

fun insertion :: "string \<Rightarrow> string \<Rightarrow> string option" where
  "insertion key [] = None"
| "insertion key (b # packet) =
     (if b = CHR ''='' then if key = [] then Some packet else None
      else case key of [] \<Rightarrow> None | k # key' \<Rightarrow> if k = b then insertion key' packet else None)"

fun last_insertion :: "string \<Rightarrow> string list \<Rightarrow> string option" where
  "last_insertion key [] = None"
| "last_insertion key (packet # packets) =
     (case last_insertion key packets of Some v \<Rightarrow> Some v | None \<Rightarrow> insertion key (take recv_size packet))"

lemma insertion_split:
  "insertion key packet =
     (if CHR ''='' \<in> set packet \<and> takeWhile (\<lambda>b. b \<noteq> CHR ''='') packet = key
      then Some (tl (dropWhile (\<lambda>b. b \<noteq> CHR ''='') packet)) else None)"
  by (induction key packet rule: insertion.induct) (auto split: list.split)

lemma worker_step_lookup:
  "key \<noteq> ''version'' \<Longrightarrow>
   worker_step packet db key = (case insertion key (take recv_size packet) of Some v \<Rightarrow> Some v | None \<Rightarrow> db key)"
  unfolding insertion_split by (auto simp: worker_step_def handlePacket_def SplitN_eq_def Let_def)

lemma run_lookup:
  "key \<noteq> ''version'' \<Longrightarrow>
   run_events worker_step packets db key = (case last_insertion key packets of Some v \<Rightarrow> Some v | None \<Rightarrow> db key)"
  by (induction packets arbitrary: db) (auto simp: worker_step_lookup split: option.split)

section \<open>Properties of the store\<close>

text \<open>
  After any sequence of packets, a packet without \<open>=\<close> is answered with its key, \<open>=\<close> and the value of
  the last insertion of this key among the packets, as received; with the empty string when there was none;
  and with the version text for \<open>version\<close>, whatever was sent. A packet with \<open>=\<close> is never answered.
\<close>

theorem udb_last_insertion:
  "snd (handlePacket (run_events worker_step packets Map.empty) packet) =
     (if CHR ''='' \<in> set packet then None
      else Some (packet @ ''='' @
        (if packet = ''version'' then version_text
         else case last_insertion packet packets of None \<Rightarrow> '''' | Some v \<Rightarrow> v)))"
  using run_lookup [of packet packets Map.empty]
  by (auto simp: handlePacket_def SplitN_eq_def Let_def split: option.split)

end
