(* ===== verification/UdbMain.thy ===== *)
theory UdbMain
  imports UnusualDb Lifecycle "HOL-Library.Multiset"
begin

text \<open>
  The program around the database of \<open>4-unusual-database-program/main.go\<close>: the workers that read datagrams from
  one socket, each with a buffer of its own, and \<open>main\<close>, which closes the socket after a signal and waits for
  the workers. A worker that has read a packet handles it later, so that packets overtake each other; a failed
  read ends the worker. \<open>received\<close> records the packets as they are read, \<open>handled\<close> and \<open>replies\<close> record the order at the lock of the database.

  Shown: whatever the workers do, the replies are those of one sequence of packets, each answered from the
  last insertion before it; and after a signal \<open>main\<close> returns under every schedule.
\<close>

datatype udb_worker = Receives | Handles string | Finished

datatype udb_main_pc = Udb_serving | Udb_signalled | Udb_closed | Udb_exited

record udb =
  udb_open :: bool
  udb_at :: udb_main_pc
  datagrams :: "string list"
  workers :: "udb_worker list"
  received :: "string list"
  database :: Database
  handled :: "string list"
  replies :: "string option list"

definition udb_start :: "nat \<Rightarrow> udb" where
  "udb_start maxWorker =
     \<lparr>udb_open = True, udb_at = Udb_serving, datagrams = [], workers = replicate maxWorker Receives,
      received = [], database = Map.empty, handled = [], replies = []\<rparr>"

datatype udb_event =
  Datagram string
| Udb_signal
| Udb_close
| Udb_wait_over
| Receive nat
| Receive_error nat
| Receive_closed nat
| Handle nat

definition at_worker :: "udb \<Rightarrow> nat \<Rightarrow> udb_worker \<Rightarrow> bool" where
  "at_worker s i pc \<longleftrightarrow> i < length (workers s) \<and> workers s ! i = pc"

fun udb_step :: "udb_event \<Rightarrow> udb \<Rightarrow> udb option" where
  "udb_step (Datagram d) s = (if udb_open s then Some (s\<lparr>datagrams := datagrams s @ [d]\<rparr>) else None)"
| "udb_step Udb_signal s = Some (if udb_at s = Udb_serving then s\<lparr>udb_at := Udb_signalled\<rparr> else s)"
| "udb_step Udb_close s = (if udb_at s = Udb_signalled then Some (s\<lparr>udb_open := False, udb_at := Udb_closed\<rparr>) else None)"
| "udb_step Udb_wait_over s =
     (if udb_at s = Udb_closed \<and> list_all (\<lambda>w. w = Finished) (workers s) then Some (s\<lparr>udb_at := Udb_exited\<rparr>) else None)"
| "udb_step (Receive i) s =
     (if at_worker s i Receives \<and> udb_open s
      then case datagrams s of
             [] \<Rightarrow> None
           | d # ds \<Rightarrow> Some (s\<lparr>datagrams := ds, workers := (workers s)[i := Handles (take recv_size d)],
                             received := received s @ [take recv_size d]\<rparr>)
      else None)"
| "udb_step (Receive_error i) s =
     (if at_worker s i Receives \<and> udb_open s then Some (s\<lparr>workers := (workers s)[i := Finished]\<rparr>) else None)"
| "udb_step (Receive_closed i) s =
     (if at_worker s i Receives \<and> \<not> udb_open s then Some (s\<lparr>workers := (workers s)[i := Finished]\<rparr>) else None)"
| "udb_step (Handle i) s =
     (if i < length (workers s)
      then case workers s ! i of
             Handles packet \<Rightarrow>
               (case handlePacket (database s) packet of
                  (db, reply) \<Rightarrow>
                    Some (s\<lparr>workers := (workers s)[i := Receives], database := db, handled := handled s @ [packet],
                            replies := replies s @ [reply]\<rparr>))
           | _ \<Rightarrow> None
      else None)"

fun udb_own :: "udb_event \<Rightarrow> bool" where
  "udb_own (Datagram d) = False"
| "udb_own Udb_signal = False"
| "udb_own (Receive_error i) = False"
| "udb_own _ = True"

definition udb_returned :: "udb \<Rightarrow> bool" where
  "udb_returned s \<longleftrightarrow> udb_at s = Udb_exited \<and> \<not> udb_open s \<and> list_all (\<lambda>w. w = Finished) (workers s)"

section \<open>Answers\<close>

text \<open>The reply to a packet after a history of packets.\<close>

definition udb_answer :: "string list \<Rightarrow> string \<Rightarrow> string option" where
  "udb_answer history packet =
     (if CHR ''='' \<in> set packet then None
      else Some (packet @ ''='' @
        (if packet = ''version'' then version_text
         else case last_insertion packet history of None \<Rightarrow> '''' | Some v \<Rightarrow> v)))"

fun udb_answers :: "string list \<Rightarrow> string list \<Rightarrow> string option list" where
  "udb_answers history [] = []"
| "udb_answers history (packet # packets) = udb_answer history packet # udb_answers (history @ [packet]) packets"

lemma answers_snoc: "udb_answers history (packets @ [packet]) = udb_answers history packets @ [udb_answer (history @ packets) packet]"
  by (induction packets arbitrary: history) simp_all

definition short :: "string \<Rightarrow> bool" where
  "short p \<longleftrightarrow> length p \<le> recv_size"

fun holds_short :: "udb_worker \<Rightarrow> bool" where
  "holds_short (Handles p) = short p"
| "holds_short _ = True"

definition udb_inv :: "udb \<Rightarrow> bool" where
  "udb_inv s \<longleftrightarrow>
     list_all holds_short (workers s) \<and> list_all short (handled s) \<and>
     database s = run_events worker_step (handled s) Map.empty \<and> replies s = udb_answers [] (handled s) \<and>
     (udb_open s \<longleftrightarrow> udb_at s = Udb_serving \<or> udb_at s = Udb_signalled) \<and>
     (udb_at s = Udb_exited \<longrightarrow> list_all (\<lambda>w. w = Finished) (workers s))"

lemma short_step: "short p \<Longrightarrow> fst (handlePacket db p) = worker_step p db"
  by (simp add: short_def worker_step_def)

lemma udb_inv_worker:
  assumes "udb_inv s" "i < length (workers s)" "workers s ! i \<noteq> Finished" "holds_short pc"
  shows "udb_inv (s\<lparr>workers := (workers s)[i := pc]\<rparr>)"
proof -
  have "\<not> list_all (\<lambda>w. w = Finished) (workers s)" using assms(2,3) by (auto simp: list_all_length)
  then show ?thesis using assms(1,4) by (auto simp: udb_inv_def intro: list_all_update)
qed

lemma udb_inv_step:
  assumes inv: "udb_inv s" and step: "udb_step a s = Some t"
  shows "udb_inv t"
proof (cases a)
  case (Handle i)
  then obtain p where p: "i < length (workers s)" "workers s ! i = Handles p"
    using step by (auto split: if_splits udb_worker.splits)
  let ?r = "handlePacket (database s) p"
  have t: "t = (s\<lparr>workers := (workers s)[i := Receives]\<rparr>)\<lparr>database := fst ?r, handled := handled s @ [p], replies := replies s @ [snd ?r]\<rparr>"
    using step Handle p by (simp split: prod.splits)
  have sh: "short p" using inv p by (auto simp: udb_inv_def list_all_length)
  have "snd ?r = udb_answer (handled s) p"
    using udb_last_insertion [of "handled s" p] inv by (simp add: udb_inv_def udb_answer_def)
  then show ?thesis
    using udb_inv_worker [OF inv p(1), of Receives] p(2) short_step [OF sh] sh
    by (simp add: t udb_inv_def run_events_append answers_snoc)
next
  case (Receive i)
  then obtain d ds where d: "at_worker s i Receives" "datagrams s = d # ds"
      "t = (s\<lparr>workers := (workers s)[i := Handles (take recv_size d)]\<rparr>)\<lparr>datagrams := ds, received := received s @ [take recv_size d]\<rparr>"
    using step by (auto split: if_splits list.splits)
  then show ?thesis using udb_inv_worker [OF inv, of i "Handles (take recv_size d)"]
    by (simp add: at_worker_def udb_inv_def short_def)
next
  case (Receive_error i)
  then show ?thesis using step udb_inv_worker [OF inv, of i Finished] by (auto simp: at_worker_def split: if_splits)
next
  case (Receive_closed i)
  then show ?thesis using step udb_inv_worker [OF inv, of i Finished] by (auto simp: at_worker_def split: if_splits)
qed (use assms in \<open>auto simp: udb_inv_def split: if_splits\<close>)

interpretation udb_runs: guarded_system udb_step "\<lambda>a. True" udb_inv
  by unfold_locales (rule udb_inv_step)

lemma udb_reachable: "run_steps udb_step as (udb_start n) = Some s \<Longrightarrow> udb_inv s"
  by (rule udb_runs.run_keeps [of "udb_start n" as]) (simp_all add: udb_inv_def udb_start_def list_all_iff)

text \<open>A packet that was read is handled or still held by a worker.\<close>

fun packet_held :: "udb_worker \<Rightarrow> string list" where
  "packet_held (Handles p) = [p]"
| "packet_held _ = []"

definition none_lost :: "udb \<Rightarrow> bool" where
  "none_lost s \<longleftrightarrow> mset (received s) = mset (handled s) + mset (concat (map packet_held (workers s)))"

lemma mset_concat_update:
  "i < length xs \<Longrightarrow> mset (concat (map f (xs[i := x]))) + mset (f (xs ! i)) = mset (concat (map f xs)) + mset (f x)"
  by (induction xs arbitrary: i) (auto split: nat.split)

lemma none_lost_step:
  assumes "none_lost s" "udb_step a s = Some t"
  shows "none_lost t"
proof (cases a)
  case (Handle i)
  then obtain p where "i < length (workers s)" "workers s ! i = Handles p" "workers t = (workers s)[i := Receives]"
      "received t = received s" "handled t = handled s @ [p]"
    using assms(2) by (auto split: if_splits udb_worker.splits prod.splits)
  then show ?thesis using mset_concat_update [of i "workers s" packet_held Receives] assms(1) by (simp add: none_lost_def)
next
  case (Receive i)
  then obtain p where "i < length (workers s)" "workers s ! i = Receives" "workers t = (workers s)[i := Handles p]"
      "received t = received s @ [p]" "handled t = handled s"
    using assms(2) by (auto simp: at_worker_def split: if_splits list.splits)
  then show ?thesis using mset_concat_update [of i "workers s" packet_held "Handles p"] assms(1) by (simp add: none_lost_def)
next
  case (Receive_error i)
  then have "i < length (workers s)" "workers s ! i = Receives" "t = s\<lparr>workers := (workers s)[i := Finished]\<rparr>"
    using assms(2) by (auto simp: at_worker_def split: if_splits)
  then show ?thesis using mset_concat_update [of i "workers s" packet_held Finished] assms(1) by (simp add: none_lost_def)
next
  case (Receive_closed i)
  then have "i < length (workers s)" "workers s ! i = Receives" "t = s\<lparr>workers := (workers s)[i := Finished]\<rparr>"
    using assms(2) by (auto simp: at_worker_def split: if_splits)
  then show ?thesis using mset_concat_update [of i "workers s" packet_held Finished] assms(1) by (simp add: none_lost_def)
qed (use assms in \<open>auto simp: none_lost_def split: if_splits\<close>)

interpretation udb_taken: guarded_system udb_step "\<lambda>a. True" none_lost
  by unfold_locales (rule none_lost_step)

lemma none_lost_reachable: "run_steps udb_step as (udb_start n) = Some s \<Longrightarrow> none_lost s"
  by (rule udb_taken.run_keeps [of "udb_start n" as]) (simp_all add: none_lost_def udb_start_def list_all_iff)

lemma finished_none_lost: "none_lost s \<Longrightarrow> list_all (\<lambda>w. w = Finished) (workers s) \<Longrightarrow> mset (received s) = mset (handled s)"
proof -
  assume l: "none_lost s" and f: "list_all (\<lambda>w. w = Finished) (workers s)"
  have "concat (map packet_held (workers s)) = []" using f by (auto simp: list_all_iff)
  then show ?thesis using l by (simp add: none_lost_def)
qed

section \<open>The end of main\<close>

fun worker_pc_weight :: "udb_worker \<Rightarrow> nat" where
  "worker_pc_weight Receives = 1"
| "worker_pc_weight (Handles p) = 2"
| "worker_pc_weight Finished = 0"

definition udb_weight :: "udb \<Rightarrow> nat" where
  "udb_weight s =
     (case udb_at s of Udb_serving \<Rightarrow> 0 | Udb_signalled \<Rightarrow> 2 | Udb_closed \<Rightarrow> 1 | Udb_exited \<Rightarrow> 0) +
     2 * length (datagrams s) + sum_list (map worker_pc_weight (workers s))"

definition udb_leaving :: "udb \<Rightarrow> bool" where
  "udb_leaving s \<longleftrightarrow> udb_inv s \<and> udb_at s \<noteq> Udb_serving"

lemma udb_lighter:
  assumes "udb_leaving s" "udb_own a" "udb_step a s = Some t"
  shows "udb_weight t < udb_weight s"
proof (cases a)
  case (Handle i)
  then obtain p where "i < length (workers s)" "workers s ! i = Handles p" "workers t = (workers s)[i := Receives]"
      "datagrams t = datagrams s" "udb_at t = udb_at s"
    using assms(3) by (auto split: if_splits udb_worker.splits prod.splits)
  then show ?thesis using sum_list_update_less [of i "workers s" worker_pc_weight Receives] by (simp add: udb_weight_def)
next
  case (Receive i)
  then obtain d ds where "i < length (workers s)" "workers s ! i = Receives" "datagrams s = d # ds" "datagrams t = ds"
      "workers t = (workers s)[i := Handles (take recv_size d)]" "udb_at t = udb_at s"
    using assms(3) by (auto simp: at_worker_def split: if_splits list.splits)
  then show ?thesis using sum_list_map_update [of i "workers s" worker_pc_weight "Handles (take recv_size d)"]
    by (simp add: udb_weight_def)
next
  case (Receive_closed i)
  then have "i < length (workers s)" "workers s ! i = Receives" "t = s\<lparr>workers := (workers s)[i := Finished]\<rparr>"
    using assms(3) by (auto simp: at_worker_def split: if_splits)
  then show ?thesis using sum_list_update_less [of i "workers s" worker_pc_weight Finished] by (simp add: udb_weight_def)
qed (use assms in \<open>auto simp: udb_weight_def split: if_splits\<close>)

lemma some_udb_event: "udb_own a \<Longrightarrow> udb_step a s \<noteq> None \<Longrightarrow> \<exists>a. udb_own a \<and> udb_step a s \<noteq> None"
  by blast

lemma udb_possible:
  assumes "udb_leaving s" "\<not> udb_returned s"
  shows "\<exists>a. udb_own a \<and> udb_step a s \<noteq> None"
proof (cases "udb_at s")
  case Udb_signalled
  then show ?thesis by (intro some_udb_event [of Udb_close]) simp_all
next
  case Udb_closed
  then have shut: "\<not> udb_open s" using assms(1) by (simp add: udb_leaving_def udb_inv_def)
  show ?thesis
  proof (cases "list_all (\<lambda>w. w = Finished) (workers s)")
    case True
    then show ?thesis using Udb_closed by (intro some_udb_event [of Udb_wait_over]) simp_all
  next
    case False
    then obtain i where i: "i < length (workers s)" "workers s ! i \<noteq> Finished" by (auto simp: list_all_length)
    show ?thesis
    proof (cases "workers s ! i")
      case Receives
      then show ?thesis using i shut by (intro some_udb_event [of "Receive_closed i"]) (simp_all add: at_worker_def)
    next
      case (Handles p)
      then show ?thesis using i by (intro some_udb_event [of "Handle i"]) (simp_all split: prod.splits)
    qed (use i in simp)
  qed
qed (use assms in \<open>auto simp: udb_leaving_def udb_inv_def udb_returned_def\<close>)

lemma udb_leaving_step: "udb_leaving s \<Longrightarrow> udb_step a s = Some t \<Longrightarrow> udb_leaving t"
  using udb_inv_step [of s a t] by (cases a) (auto simp: udb_leaving_def split: if_splits list.splits udb_worker.splits prod.splits)

interpretation udb_end: draining udb_step udb_own udb_leaving udb_weight udb_returned
proof unfold_locales
  fix a s t
  show "udb_leaving s \<Longrightarrow> udb_own a \<Longrightarrow> udb_step a s = Some t \<Longrightarrow> udb_leaving t" by (rule udb_leaving_step)
  show "udb_leaving s \<Longrightarrow> udb_own a \<Longrightarrow> udb_step a s = Some t \<Longrightarrow> udb_weight t < udb_weight s" by (rule udb_lighter)
  show "udb_leaving s \<Longrightarrow> \<not> udb_returned s \<Longrightarrow> \<exists>a. udb_own a \<and> udb_step a s \<noteq> None" by (rule udb_possible)
qed

section \<open>Properties of the program\<close>

text \<open>
  C21: With any number of workers, however they interleave, the packets are handled in one order, and each is
  answered from those handled before it: a query with the value of the last insertion of its key, with the
  empty string when there was none, or with the version; an insertion not at all. After a signal \<open>main\<close>
  returns after a bounded number of steps, under every schedule, with the socket closed, every worker finished
  and every packet that was received also handled.
\<close>

theorem udb_program_answers:
  assumes "run_steps udb_step as (udb_start maxWorker) = Some s"
  shows "replies s = udb_answers [] (handled s) \<and>
    (udb_at s \<noteq> Udb_serving \<longrightarrow> drains udb_step udb_own s udb_returned) \<and>
    (udb_at s = Udb_exited \<longrightarrow> udb_returned s \<and> mset (received s) = mset (handled s))"
proof (intro conjI impI)
  note inv = udb_reachable [OF assms]
  show "replies s = udb_answers [] (handled s)" "udb_at s = Udb_exited \<Longrightarrow> udb_returned s"
    using inv by (auto simp: udb_inv_def udb_returned_def)
  show "mset (received s) = mset (handled s)" if "udb_at s = Udb_exited"
    using finished_none_lost [OF none_lost_reachable [OF assms]] that inv by (simp add: udb_inv_def)
  show "udb_at s \<noteq> Udb_serving \<Longrightarrow> drains udb_step udb_own s udb_returned"
    using udb_end.drains inv by (simp add: udb_leaving_def)
qed

text \<open>Two workers; the query arrives first and is handled last.\<close>

definition udb_run :: "udb_event list" where
  "udb_run = [Datagram ''k'', Receive 0, Datagram ''k=v=w'', Receive 1, Handle 1, Udb_signal, Handle 0]"

theorem udb_program_answers_witness:
  "\<exists>s. run_steps udb_step udb_run (udb_start 2) = Some s \<and> replies s = [None, Some ''k=v=w''] \<and>
     handled s = [''k=v=w'', ''k''] \<and> udb_answers [] (handled s) = [None, Some ''k=v=w''] \<and> drains udb_step udb_own s udb_returned"
proof -
  let ?s = "the (run_steps udb_step udb_run (udb_start 2))"
  have s: "run_steps udb_step udb_run (udb_start 2) = Some ?s" "replies ?s = [None, Some ''k=v=w'']"
      "handled ?s = [''k=v=w'', ''k'']" "udb_at ?s \<noteq> Udb_serving"
    by (simp_all add: udb_run_def udb_start_def at_worker_def recv_size_def handlePacket_def SplitN_eq_def Let_def numeral_2_eq_2)
  from udb_program_answers [OF s(1)] s show ?thesis by fastforce
qed

end
