(* ===== verification/BudgetChat.thy ===== *)
theory BudgetChat
  imports Prelude "HOL-Library.List_Lexorder" "HOL-Library.Char_ord"
begin

text \<open>
  The chat room of \<open>3-budget-chat/main.go\<close>: sessions (\<open>run\<close>, \<open>register\<close>), the room (\<open>register\<close>, \<open>leave\<close>) and
  the \<open>looper\<close> that distributes events, as they interleave at the lock \<open>usersLock\<close> and at the event
  channel, which holds 100 events and blocks its senders when it is full.

  A step is what one goroutine does between two points at which it can wait: taking the lock, sending on
  the channel, taking an event from it. \<open>register\<close> and \<open>leave\<close> send their event while they hold the lock.
  A client is a number; \<open>out\<close> is what was written to each client. Writes are modelled as taken by the
  connection, but for the presence list of \<open>register\<close>, which may fail because the client has gone.

  Shown: names are valid and unique and every written message is one line; members receive every event of
  the others exactly once and in the order of the channel; a room whose channel fills up while a client
  registers stops for good; a client that goes while it registers stays in the room for good.
\<close>

section \<open>Text\<close>

definition eol :: "char \<Rightarrow> bool" where
  "eol b \<longleftrightarrow> b = CHR 0x0D \<or> b = newline"

text \<open>\<open>strings.Trim(s, "\r\n")\<close>\<close>

definition Trim_eol :: "string \<Rightarrow> string" where
  "Trim_eol s = rev (dropWhile eol (rev (dropWhile eol s)))"

definition name_char :: "char \<Rightarrow> bool" where
  "name_char b = (let c = (of_char b :: nat) in 48 \<le> c \<and> c \<le> 57 \<or> 65 \<le> c \<and> c \<le> 90 \<or> 97 \<le> c \<and> c \<le> 122)"

text \<open>The regular expression \<open>^[0-9A-Za-z]{1,50}$\<close>\<close>

definition regexName :: "string \<Rightarrow> bool" where
  "regexName s \<longleftrightarrow> 1 \<le> length s \<and> length s \<le> 50 \<and> list_all name_char s"

datatype EventType = EventTypeMessage | EventTypeJoin | EventTypeLeave

record Event =
  Event_User :: string
  Event_Type :: EventType
  Event_Message :: string

definition event_text :: "Event \<Rightarrow> string" where
  "event_text e =
     (case Event_Type e of
        EventTypeJoin \<Rightarrow> ''* '' @ Event_User e @ '' has entered the room''
      | EventTypeLeave \<Rightarrow> ''* '' @ Event_User e @ '' has left the room''
      | EventTypeMessage \<Rightarrow> ''['' @ Event_User e @ ''] '' @ Event_Message e)"

text \<open>What \<open>ReadBytes\<close> returns: a line with its line feed.\<close>

definition is_line :: "string \<Rightarrow> bool" where
  "is_line raw \<longleftrightarrow> raw \<noteq> [] \<and> last raw = newline \<and> newline \<notin> set (butlast raw)"

section \<open>State\<close>

datatype (discs_sels) phase =
  Absent
| Naming
| Registering string
| RegSend string
| Member string
| Leaving string
| LeaveSend string
| Closed

record chat =
  users :: "(string \<times> nat) list"
  event :: "Event list"
  lock :: "nat option"
  looper :: "Event option"
  out :: "nat \<Rightarrow> string list"
  phase_of :: "nat \<Rightarrow> phase"

definition event_cap :: nat where
  "event_cap = 100"

definition init_chat :: chat where
  "init_chat = \<lparr>users = [], event = [], lock = None, looper = None, out = (\<lambda>_. []), phase_of = (\<lambda>_. Absent)\<rparr>"

definition sendMessage :: "nat \<Rightarrow> string \<Rightarrow> chat \<Rightarrow> chat" where
  "sendMessage i msg s = s\<lparr>out := (out s)(i := out s i @ [Trim_eol msg @ [newline]])\<rparr>"

definition set_phase :: "nat \<Rightarrow> phase \<Rightarrow> chat \<Rightarrow> chat" where
  "set_phase i p s = s\<lparr>phase_of := (phase_of s)(i := p)\<rparr>"

text \<open>\<open>sendError\<close> writes the message; the error it returns ends \<open>run\<close>, which closes the connection.\<close>

definition sendError :: "nat \<Rightarrow> string \<Rightarrow> chat \<Rightarrow> chat" where
  "sendError i errorMsg s = set_phase i Closed (sendMessage i errorMsg s)"

section \<open>Steps\<close>

text \<open>
  \<open>Connect\<close> to \<open>RegSend\<close>: \<open>register\<close> of a session, with the lock taken in \<open>RegLock\<close> and the event sent in
  \<open>RegSendEv\<close> (\<open>True\<close> when the presence list could be written). \<open>Line\<close>: the reader of a member sends a
  message. \<open>Gone\<close>: the reader ends; \<open>LeaveLock\<close> and \<open>LeaveSendEv\<close> are \<open>leave\<close>.
\<close>

datatype label =
  Connect nat
| Name nat string
| RegLock nat
| RegSendEv nat bool
| Line nat string
| Gone nat
| LeaveLock nat
| LeaveSendEv nat
| LooperTake
| LooperSend

definition session_connect :: "nat \<Rightarrow> chat \<Rightarrow> chat" where
  "session_connect i s = set_phase i Naming (sendMessage i ''Welcome to budgetchat! What shall I call you?'' s)"

definition session_name :: "nat \<Rightarrow> string \<Rightarrow> chat \<Rightarrow> chat" where
  "session_name i raw s =
     (let name = Trim_eol raw in
      if \<not> regexName name then sendError i ''invalid user name'' s
      else set_phase i (Registering name) s)"

text \<open>The loop that lists the names of the others, in order.\<close>

fun join_names :: "string list \<Rightarrow> string" where
  "join_names [] = []"
| "join_names [n] = n"
| "join_names (n # ns) = n @ '', '' @ join_names ns"

definition presentNotif :: "string list \<Rightarrow> string" where
  "presentNotif names = ''* The room contains: '' @ join_names (sort names)"

definition room_register_lock :: "nat \<Rightarrow> string \<Rightarrow> chat \<Rightarrow> chat" where
  "room_register_lock i name s =
     (if map_of (users s) name \<noteq> None then sendError i ''user already exist'' s
      else set_phase i (RegSend name) (s\<lparr>users := users s @ [(name, i)], lock := Some i\<rparr>))"

definition room_register_send :: "nat \<Rightarrow> string \<Rightarrow> bool \<Rightarrow> chat \<Rightarrow> chat" where
  "room_register_send i name ok s =
     (let s' = s\<lparr>event := event s @ [\<lparr>Event_User = name, Event_Type = EventTypeJoin, Event_Message = ''''\<rparr>], lock := None\<rparr>;
          userList = filter (\<lambda>n. n \<noteq> name) (map fst (users s))
      in if ok then set_phase i (Member name) (sendMessage i (presentNotif userList) s')
         else set_phase i Closed s')"

definition session_line :: "string \<Rightarrow> string \<Rightarrow> chat \<Rightarrow> chat" where
  "session_line name raw s =
     s\<lparr>event := event s @ [\<lparr>Event_User = name, Event_Type = EventTypeMessage, Event_Message = Trim_eol raw\<rparr>]\<rparr>"

definition room_leave_lock :: "nat \<Rightarrow> string \<Rightarrow> chat \<Rightarrow> chat" where
  "room_leave_lock i name s =
     set_phase i (LeaveSend name) (s\<lparr>users := filter (\<lambda>u. fst u \<noteq> name) (users s), lock := Some i\<rparr>)"

definition room_leave_send :: "nat \<Rightarrow> string \<Rightarrow> chat \<Rightarrow> chat" where
  "room_leave_send i name s =
     set_phase i Closed
       (s\<lparr>event := event s @ [\<lparr>Event_User = name, Event_Type = EventTypeLeave, Event_Message = ''''\<rparr>], lock := None\<rparr>)"

fun looper_broadcast :: "Event \<Rightarrow> (string \<times> nat) list \<Rightarrow> chat \<Rightarrow> chat" where
  "looper_broadcast e [] s = s"
| "looper_broadcast e ((name, i) # us) s =
     looper_broadcast e us (if name = Event_User e then s else sendMessage i (event_text e) s)"

fun enabled :: "label \<Rightarrow> chat \<Rightarrow> bool" where
  "enabled (Connect i) s = (phase_of s i = Absent)"
| "enabled (Name i raw) s = (phase_of s i = Naming \<and> is_line raw)"
| "enabled (RegLock i) s = (lock s = None \<and> is_Registering (phase_of s i))"
| "enabled (RegSendEv i ok) s = (length (event s) < event_cap \<and> is_RegSend (phase_of s i))"
| "enabled (Line i raw) s =
     (length (event s) < event_cap \<and> is_Member (phase_of s i) \<and> is_line raw)"
| "enabled (Gone i) s = is_Member (phase_of s i)"
| "enabled (LeaveLock i) s = (lock s = None \<and> is_Leaving (phase_of s i))"
| "enabled (LeaveSendEv i) s = (length (event s) < event_cap \<and> is_LeaveSend (phase_of s i))"
| "enabled LooperTake s = (looper s = None \<and> event s \<noteq> [])"
| "enabled LooperSend s = (lock s = None \<and> looper s \<noteq> None)"

fun chat_step :: "label \<Rightarrow> chat \<Rightarrow> chat" where
  "chat_step (Connect i) s = session_connect i s"
| "chat_step (Name i raw) s = session_name i raw s"
| "chat_step (RegLock i) s = (case phase_of s i of Registering n \<Rightarrow> room_register_lock i n s | _ \<Rightarrow> s)"
| "chat_step (RegSendEv i ok) s = (case phase_of s i of RegSend n \<Rightarrow> room_register_send i n ok s | _ \<Rightarrow> s)"
| "chat_step (Line i raw) s = (case phase_of s i of Member n \<Rightarrow> session_line n raw s | _ \<Rightarrow> s)"
| "chat_step (Gone i) s = (case phase_of s i of Member n \<Rightarrow> set_phase i (Leaving n) s | _ \<Rightarrow> s)"
| "chat_step (LeaveLock i) s = (case phase_of s i of Leaving n \<Rightarrow> room_leave_lock i n s | _ \<Rightarrow> s)"
| "chat_step (LeaveSendEv i) s = (case phase_of s i of LeaveSend n \<Rightarrow> room_leave_send i n s | _ \<Rightarrow> s)"
| "chat_step LooperTake s = (case event s of [] \<Rightarrow> s | e # es \<Rightarrow> s\<lparr>event := es, looper := Some e\<rparr>)"
| "chat_step LooperSend s =
     (case looper s of None \<Rightarrow> s | Some e \<Rightarrow> (looper_broadcast e (users s) s)\<lparr>looper := None\<rparr>)"

section \<open>The invariant of the room\<close>

lemma chat_fields [simp]:
  "users (sendMessage i m s) = users s" "event (sendMessage i m s) = event s" "lock (sendMessage i m s) = lock s"
  "looper (sendMessage i m s) = looper s" "phase_of (sendMessage i m s) = phase_of s"
  "out (sendMessage i m s) = (out s)(i := out s i @ [Trim_eol m @ [newline]])"
  "users (set_phase i p s) = users s" "event (set_phase i p s) = event s" "lock (set_phase i p s) = lock s"
  "looper (set_phase i p s) = looper s" "phase_of (set_phase i p s) = (phase_of s)(i := p)" "out (set_phase i p s) = out s"
  by (simp_all add: sendMessage_def set_phase_def)

lemma broadcast_fields [simp]:
  "users (looper_broadcast e us s) = users s" "event (looper_broadcast e us s) = event s"
  "lock (looper_broadcast e us s) = lock s" "looper (looper_broadcast e us s) = looper s"
  "phase_of (looper_broadcast e us s) = phase_of s"
  by (induction e us s rule: looper_broadcast.induct) auto

lemmas chat_ops = session_connect_def session_name_def room_register_lock_def room_register_send_def
  session_line_def room_leave_lock_def room_leave_send_def sendError_def Let_def

text \<open>
  The phases in which a session's name is in the room. A closed session may still be there: its
  registration failed after it had been entered.
\<close>

fun holds_name :: "phase \<Rightarrow> string \<Rightarrow> bool" where
  "holds_name (RegSend m) n = (m = n)"
| "holds_name (Member m) n = (m = n)"
| "holds_name (Leaving m) n = (m = n)"
| "holds_name p n = False"

fun names_of :: "phase \<Rightarrow> string set" where
  "names_of (Registering n) = {n}"
| "names_of (RegSend n) = {n}"
| "names_of (Member n) = {n}"
| "names_of (Leaving n) = {n}"
| "names_of (LeaveSend n) = {n}"
| "names_of p = {}"

definition names_inv :: "chat \<Rightarrow> bool" where
  "names_inv s \<longleftrightarrow> (\<forall>i. \<forall>n\<in>names_of (phase_of s i). regexName n) \<and> (\<forall>u\<in>set (users s). regexName (fst u))"

definition users_inv :: "chat \<Rightarrow> bool" where
  "users_inv s \<longleftrightarrow> distinct (map fst (users s)) \<and>
     (\<forall>n i. (n, i) \<in> set (users s) \<longrightarrow> holds_name (phase_of s i) n \<or> phase_of s i = Closed) \<and>
     (\<forall>n i. holds_name (phase_of s i) n \<longrightarrow> (n, i) \<in> set (users s))"

definition lock_inv :: "chat \<Rightarrow> bool" where
  "lock_inv s \<longleftrightarrow> (\<forall>i. lock s = Some i \<longleftrightarrow> is_RegSend (phase_of s i) \<or> is_LeaveSend (phase_of s i)) \<and>
     length (event s) \<le> event_cap"

lemma enabled_phase:
  "enabled (RegLock i) s \<Longrightarrow> \<exists>n. phase_of s i = Registering n"
  "enabled (RegSendEv i ok) s \<Longrightarrow> \<exists>n. phase_of s i = RegSend n"
  "enabled (Line i raw) s \<Longrightarrow> \<exists>n. phase_of s i = Member n"
  "enabled (Gone i) s \<Longrightarrow> \<exists>n. phase_of s i = Member n"
  "enabled (LeaveLock i) s \<Longrightarrow> \<exists>n. phase_of s i = Leaving n"
  "enabled (LeaveSendEv i) s \<Longrightarrow> \<exists>n. phase_of s i = LeaveSend n"
  by (auto simp: is_Registering_def is_RegSend_def is_Member_def is_Leaving_def is_LeaveSend_def)

lemma names_rules:
  assumes "\<forall>i. \<forall>n\<in>names_of (p i). P n"
  shows "p i = Registering n \<Longrightarrow> P n" "p i = RegSend n \<Longrightarrow> P n" "p i = Member n \<Longrightarrow> P n"
    "p i = Leaving n \<Longrightarrow> P n" "p i = LeaveSend n \<Longrightarrow> P n"
  using assms [rule_format, of n i] by simp_all

lemma lock_unique:
  assumes "\<forall>i. (k = Some i) = (is_RegSend (p i) \<or> is_LeaveSend (p i))" "i \<noteq> j"
  shows "p j = RegSend n \<Longrightarrow> is_RegSend (p i) \<Longrightarrow> False" "p j = RegSend n \<Longrightarrow> is_LeaveSend (p i) \<Longrightarrow> False"
    "p j = LeaveSend n \<Longrightarrow> is_RegSend (p i) \<Longrightarrow> False" "p j = LeaveSend n \<Longrightarrow> is_LeaveSend (p i) \<Longrightarrow> False"
  using assms(1) [rule_format, of i] assms(1) [rule_format, of j] assms(2) by auto

lemma names_inv_step: "names_inv s \<Longrightarrow> enabled l s \<Longrightarrow> names_inv (chat_step l s)"
  by (cases l)
    (auto simp: names_inv_def chat_ops intro: names_rules split: phase.splits list.splits option.splits)

lemma lock_inv_step: "lock_inv s \<Longrightarrow> enabled l s \<Longrightarrow> lock_inv (chat_step l s)"
  by (cases l)
    (auto simp: lock_inv_def chat_ops dest: lock_unique split: phase.splits list.splits option.splits)

lemma users_invI:
  assumes "distinct (map fst (users s))"
    "\<And>n i. (n, i) \<in> set (users s) \<Longrightarrow> holds_name (phase_of s i) n \<or> phase_of s i = Closed"
    "\<And>n i. holds_name (phase_of s i) n \<Longrightarrow> (n, i) \<in> set (users s)"
  shows "users_inv s"
  using assms by (simp add: users_inv_def)

lemma users_invD:
  assumes "users_inv s"
  shows "distinct (map fst (users s))"
    "(n, i) \<in> set (users s) \<Longrightarrow> holds_name (phase_of s i) n \<or> phase_of s i = Closed"
    "holds_name (phase_of s i) n \<Longrightarrow> (n, i) \<in> set (users s)"
  using assms by (simp_all add: users_inv_def)

text \<open>A step of session \<open>i\<close> that keeps the list of users keeps the invariant if its new phase holds the same name.\<close>

lemma users_inv_phase:
  assumes "users_inv s" "users s' = users s" "phase_of s' = (phase_of s)(i := p)"
    "\<And>n. holds_name p n \<Longrightarrow> holds_name (phase_of s i) n"
    "\<And>n. holds_name (phase_of s i) n \<Longrightarrow> holds_name p n \<or> p = Closed" "phase_of s i \<noteq> Closed"
  shows "users_inv s'"
proof (rule users_invI)
  fix n j
  show "holds_name (phase_of s' j) n \<or> phase_of s' j = Closed" if "(n, j) \<in> set (users s')"
    using users_invD(2) [OF assms(1), of n j] that assms by (cases "j = i") auto
  show "(n, j) \<in> set (users s')" if "holds_name (phase_of s' j) n"
    using users_invD(3) [OF assms(1), of j n] that assms by (cases "j = i") auto
qed (use users_invD(1) [OF assms(1)] assms(2) in simp)

lemma users_inv_register:
  assumes "users_inv s" "phase_of s i = Registering n" "map_of (users s) n = None"
  shows "users_inv (set_phase i (RegSend n) (s\<lparr>users := users s @ [(n, i)], lock := Some i\<rparr>))"
proof (rule users_invI)
  fix m j
  let ?s = "set_phase i (RegSend n) (s\<lparr>users := users s @ [(n, i)], lock := Some i\<rparr>)"
  show "holds_name (phase_of ?s j) m \<or> phase_of ?s j = Closed" if "(m, j) \<in> set (users ?s)"
    using users_invD(2) [OF assms(1), of m j] that assms(2) by (cases "j = i") auto
  show "(m, j) \<in> set (users ?s)" if "holds_name (phase_of ?s j) m"
    using users_invD(3) [OF assms(1), of j m] that by (cases "j = i") auto
qed (use users_invD(1) [OF assms(1)] assms(3) in \<open>auto simp: map_of_eq_None_iff\<close>)

lemma users_unique: "users_inv s \<Longrightarrow> (n, i) \<in> set (users s) \<Longrightarrow> (n, j) \<in> set (users s) \<Longrightarrow> i = j"
  using users_invD(1) [of s] by (metis eq_key_imp_eq_value)

lemma users_inv_leave:
  assumes "users_inv s" "phase_of s i = Leaving n"
  shows "users_inv (room_leave_lock i n s)"
proof (rule users_invI)
  fix m j
  let ?s = "room_leave_lock i n s"
  have i: "(n, i) \<in> set (users s)" using users_invD(3) [OF assms(1), of i n] assms(2) by simp
  show "holds_name (phase_of ?s j) m \<or> phase_of ?s j = Closed" if "(m, j) \<in> set (users ?s)"
    using users_invD(2) [OF assms(1), of m j] that assms(2) by (cases "j = i") (auto simp: room_leave_lock_def)
  show "(m, j) \<in> set (users ?s)" if h: "holds_name (phase_of ?s j) m"
  proof -
    have "j \<noteq> i" using h by (auto simp: room_leave_lock_def)
    then have "(m, j) \<in> set (users s)" using h users_invD(3) [OF assms(1), of j m] by (simp add: room_leave_lock_def)
    then show ?thesis using users_unique [OF assms(1) i, of j] \<open>j \<noteq> i\<close> by (auto simp: room_leave_lock_def)
  qed
qed (use users_invD(1) [OF assms(1)] in \<open>simp add: room_leave_lock_def distinct_map_filter\<close>)

lemma users_inv_step: "users_inv s \<Longrightarrow> enabled l s \<Longrightarrow> users_inv (chat_step l s)"
proof (cases l)
  case (RegLock i)
  assume u: "users_inv s" "enabled l s"
  then obtain n where n: "phase_of s i = Registering n" using enabled_phase(1) RegLock by blast
  show ?thesis
  proof (cases "map_of (users s) n")
    case None
    then show ?thesis using users_inv_register [OF u(1) n] RegLock n by (simp add: room_register_lock_def)
  next
    case (Some j)
    then show ?thesis using RegLock n by (auto simp: room_register_lock_def sendError_def intro: users_inv_phase [OF u(1), of _ i Closed])
  qed
next
  case (LeaveLock i)
  assume "users_inv s" "enabled l s"
  then show ?thesis using enabled_phase(5) [of i s] users_inv_leave LeaveLock by auto
next
  case (LooperSend)
  assume "users_inv s" "enabled l s"
  then show ?thesis using LooperSend by (auto simp: users_inv_def split: option.split)
next
  case (LooperTake)
  assume "users_inv s" "enabled l s"
  then show ?thesis using LooperTake by (auto simp: users_inv_def split: list.split)
next
  case (Line i raw)
  assume "users_inv s" "enabled l s"
  then show ?thesis using Line by (auto simp: users_inv_def session_line_def split: phase.split)
qed (auto simp: chat_ops split: phase.splits intro: users_inv_phase)

section \<open>Messages are lines\<close>

lemma Trim_eol_subset: "set (Trim_eol m) \<subseteq> set m"
  by (auto simp: Trim_eol_def dest!: set_dropWhileD)

lemma Trim_eol_line: "is_line raw \<Longrightarrow> newline \<notin> set (Trim_eol raw)"
proof -
  assume raw: "is_line raw"
  then obtain l where l: "raw = l @ [newline]" "newline \<notin> set l"
    unfolding is_line_def by (metis append_butlast_last_id)
  have "newline \<notin> set (dropWhile eol raw) \<or> (\<exists>k. dropWhile eol raw = k @ [newline] \<and> newline \<notin> set k)"
    unfolding l(1) using l(2) by (induction l) (auto simp: eol_def)
  then show ?thesis
  proof
    assume "newline \<notin> set (dropWhile eol raw)"
    then show ?thesis unfolding Trim_eol_def using set_dropWhileD [of newline eol] by (metis set_rev)
  next
    assume "\<exists>k. dropWhile eol raw = k @ [newline] \<and> newline \<notin> set k"
    then obtain k where k: "dropWhile eol raw = k @ [newline]" "newline \<notin> set k" by blast
    have "newline \<notin> set (dropWhile eol (rev k))" using set_dropWhileD [of newline eol "rev k"] k(2) by (metis set_rev)
    then show ?thesis by (simp add: Trim_eol_def k(1) eol_def)
  qed
qed

lemma is_line_send: "newline \<notin> set m \<Longrightarrow> is_line (Trim_eol m @ [newline])"
  using Trim_eol_subset [of m] by (auto simp: is_line_def)

lemma regexName_plain: "regexName n \<Longrightarrow> newline \<notin> set n"
  by (auto simp: regexName_def name_char_def list_all_iff)

definition event_ok :: "Event \<Rightarrow> bool" where
  "event_ok e \<longleftrightarrow> regexName (Event_User e) \<and> newline \<notin> set (Event_Message e)"

lemma event_text_plain: "event_ok e \<Longrightarrow> newline \<notin> set (event_text e)"
  using regexName_plain [of "Event_User e"] by (auto simp: event_text_def event_ok_def split: EventType.split)

lemma join_names_plain: "\<forall>n\<in>set ns. regexName n \<Longrightarrow> newline \<notin> set (join_names ns)"
  by (induction ns rule: join_names.induct) (auto dest: regexName_plain)

lemma presentNotif_plain: "\<forall>n\<in>set names. regexName n \<Longrightarrow> newline \<notin> set (presentNotif names)"
  using join_names_plain [of "sort names"] by (simp add: presentNotif_def)

definition events_inv :: "chat \<Rightarrow> bool" where
  "events_inv s \<longleftrightarrow> (\<forall>e\<in>set (event s). event_ok e) \<and> (\<forall>e. looper s = Some e \<longrightarrow> event_ok e)"

definition out_inv :: "chat \<Rightarrow> bool" where
  "out_inv s \<longleftrightarrow> (\<forall>i. \<forall>m\<in>set (out s i). is_line m)"

lemma events_inv_step: "names_inv s \<Longrightarrow> events_inv s \<Longrightarrow> enabled l s \<Longrightarrow> events_inv (chat_step l s)"
  by (cases l)
    (auto simp: events_inv_def event_ok_def names_inv_def chat_ops Trim_eol_line
      intro: names_rules split: phase.splits list.splits option.splits)

lemma out_inv_send: "out_inv s \<Longrightarrow> newline \<notin> set m \<Longrightarrow> out_inv (sendMessage i m s)"
  by (auto simp: out_inv_def is_line_send)

lemma out_inv_broadcast: "out_inv s \<Longrightarrow> event_ok e \<Longrightarrow> out_inv (looper_broadcast e us s)"
  by (induction us arbitrary: s) (auto simp: event_text_plain out_inv_send)

lemma out_inv_fields [simp]:
  "out_inv (set_phase i p s) = out_inv s" "out_inv (s\<lparr>users := u\<rparr>) = out_inv s" "out_inv (s\<lparr>event := e\<rparr>) = out_inv s"
  "out_inv (s\<lparr>lock := k\<rparr>) = out_inv s" "out_inv (s\<lparr>looper := q\<rparr>) = out_inv s"
  by (simp_all add: out_inv_def)

lemma out_inv_step:
  assumes "names_inv s" "events_inv s" "out_inv s" "enabled l s"
  shows "out_inv (chat_step l s)"
proof (cases l)
  case (RegSendEv i ok)
  then obtain n where n: "phase_of s i = RegSend n" using assms(4) enabled_phase(2) by blast
  have "newline \<notin> set (presentNotif (filter (\<lambda>m. m \<noteq> n) (map fst (users s))))"
    using assms(1) by (intro presentNotif_plain) (auto simp: names_inv_def)
  then show ?thesis using RegSendEv n assms(3)
    by (simp add: room_register_send_def Let_def out_inv_send)
next
  case LooperSend
  then show ?thesis using assms
    by (auto simp: events_inv_def out_inv_broadcast split: option.split)
qed (use assms(3) in \<open>simp_all add: chat_ops out_inv_send split: phase.splits list.splits\<close>)

definition chat_ok :: "chat \<Rightarrow> bool" where
  "chat_ok s \<longleftrightarrow> users_inv s \<and> names_inv s \<and> lock_inv s \<and> events_inv s \<and> out_inv s"

interpretation room: event_system chat_step enabled chat_ok
  by unfold_locales
    (simp add: chat_ok_def users_inv_step names_inv_step lock_inv_step events_inv_step out_inv_step)

lemma chat_ok_init: "chat_ok init_chat"
  by (simp add: chat_ok_def init_chat_def users_inv_def names_inv_def lock_inv_def events_inv_def out_inv_def)

section \<open>Delivery\<close>

text \<open>The events a step posts to the channel, distributes, and those that are still on their way.\<close>

fun posted :: "label \<Rightarrow> chat \<Rightarrow> Event list" where
  "posted (RegSendEv i ok) s = (case phase_of s i of RegSend n \<Rightarrow>
     [\<lparr>Event_User = n, Event_Type = EventTypeJoin, Event_Message = ''''\<rparr>] | _ \<Rightarrow> [])"
| "posted (Line i raw) s = (case phase_of s i of Member n \<Rightarrow>
     [\<lparr>Event_User = n, Event_Type = EventTypeMessage, Event_Message = Trim_eol raw\<rparr>] | _ \<Rightarrow> [])"
| "posted (LeaveSendEv i) s = (case phase_of s i of LeaveSend n \<Rightarrow>
     [\<lparr>Event_User = n, Event_Type = EventTypeLeave, Event_Message = ''''\<rparr>] | _ \<Rightarrow> [])"
| "posted _ s = []"

fun distributed :: "label \<Rightarrow> chat \<Rightarrow> Event list" where
  "distributed LooperSend s = (case looper s of None \<Rightarrow> [] | Some e \<Rightarrow> [e])"
| "distributed _ s = []"

definition pending :: "chat \<Rightarrow> Event list" where
  "pending s = (case looper s of None \<Rightarrow> [] | Some e \<Rightarrow> [e]) @ event s"

fun along :: "(label \<Rightarrow> chat \<Rightarrow> Event list) \<Rightarrow> label list \<Rightarrow> chat \<Rightarrow> Event list" where
  "along f [] s = []"
| "along f (l # ls) s = f l s @ along f ls (chat_step l s)"

lemma fifo_step: "enabled l s \<Longrightarrow> pending s @ posted l s = distributed l s @ pending (chat_step l s)"
  by (cases l) (auto simp: pending_def chat_ops split: phase.splits option.splits list.splits)

lemma fifo_run:
  "admissible_run chat_step enabled ls s \<Longrightarrow>
   pending s @ along posted ls s = along distributed ls s @ pending (run_events chat_step ls s)"
proof (induction ls arbitrary: s)
  case (Cons l ls)
  then have "pending s @ posted l s = distributed l s @ pending (chat_step l s)"
    "pending (chat_step l s) @ along posted ls (chat_step l s) =
     along distributed ls (chat_step l s) @ pending (run_events chat_step ls (chat_step l s))"
    using fifo_step [of l s] by auto
  then show ?case unfolding along.simps run_events.simps by (metis append.assoc)
qed simp

lemma out_broadcast:
  "out (looper_broadcast e us s) i =
   out s i @ concat (map (\<lambda>u. if snd u = i \<and> fst u \<noteq> Event_User e then [Trim_eol (event_text e) @ [newline]] else []) us)"
  by (induction us arbitrary: s) auto

lemma once:
  "distinct (map fst us) \<Longrightarrow> (n, i) \<in> set us \<Longrightarrow> \<forall>m. (m, i) \<in> set us \<longrightarrow> m = n \<Longrightarrow>
   concat (map (\<lambda>u. if snd u = i \<and> P (fst u) then [x] else []) us) = (if P n then [x] else [])"
proof (induction us)
  case (Cons u us)
  show ?case
  proof (cases "u = (n, i)")
    case True
    then have "n \<notin> fst ` set us" using Cons.prems(1) by simp
    moreover have "m = n" if "(m, i) \<in> set us" for m using Cons.prems(3) that by auto
    ultimately have "\<forall>v\<in>set us. snd v \<noteq> i" by force
    then show ?thesis using True by simp
  next
    case False
    then have "snd u \<noteq> i" using Cons.prems(3) by (cases u) auto
    moreover have "(n, i) \<in> set us" using Cons.prems(2) False by simp
    moreover have "distinct (map fst us)" using Cons.prems(1) by simp
    moreover have "\<forall>m. (m, i) \<in> set us \<longrightarrow> m = n" using Cons.prems(3) by simp
    ultimately have "concat (map (\<lambda>u. if snd u = i \<and> P (fst u) then [x] else []) us) = (if P n then [x] else [])"
      by (intro Cons.IH)
    with \<open>snd u \<noteq> i\<close> show ?thesis by simp
  qed
qed simp

definition heard_by :: "string \<Rightarrow> Event list \<Rightarrow> string list" where
  "heard_by n es = map (\<lambda>e. Trim_eol (event_text e) @ [newline]) (filter (\<lambda>e. Event_User e \<noteq> n) es)"

lemma member_step:
  assumes "users_inv s" "phase_of s i = Member n" "enabled l s" "l \<noteq> Gone i"
  shows "phase_of (chat_step l s) i = Member n \<and> out (chat_step l s) i = out s i @ heard_by n (distributed l s)"
proof (cases l)
  case LooperSend
  then obtain e where e: "looper s = Some e" using assms(3) by auto
  have i: "(n, i) \<in> set (users s)" using users_invD(3) [OF assms(1), of i n] assms(2) by simp
  have m: "\<forall>m. (m, i) \<in> set (users s) \<longrightarrow> m = n"
  proof (intro allI impI)
    fix m assume "(m, i) \<in> set (users s)"
    then show "m = n" using users_invD(2) [OF assms(1), of m i] assms(2) by simp
  qed
  note o = once [OF users_invD(1) [OF assms(1)] i m, of "\<lambda>m. m \<noteq> Event_User e" "Trim_eol (event_text e) @ [newline]"]
  have "out (chat_step l s) i = out s i @ (if n \<noteq> Event_User e then [Trim_eol (event_text e) @ [newline]] else [])"
    unfolding o [symmetric] by (simp add: LooperSend e out_broadcast)
  then show ?thesis using LooperSend e assms(2) by (simp add: heard_by_def)
qed (use assms in \<open>auto simp: chat_ops heard_by_def split: phase.splits list.splits\<close>)

lemma member_run:
  "chat_ok s \<Longrightarrow> admissible_run chat_step enabled ls s \<Longrightarrow> phase_of s i = Member n \<Longrightarrow> Gone i \<notin> set ls \<Longrightarrow>
   out (run_events chat_step ls s) i = out s i @ heard_by n (along distributed ls s)"
proof (induction ls arbitrary: s)
  case (Cons l ls)
  then have l: "enabled l s" "admissible_run chat_step enabled ls (chat_step l s)" by auto
  then have "chat_ok (chat_step l s)" using Cons.prems(1) room.step_invariant by blast
  moreover have m: "phase_of (chat_step l s) i = Member n \<and> out (chat_step l s) i = out s i @ heard_by n (distributed l s)"
    using member_step [of s i n l] Cons.prems l by (auto simp: chat_ok_def)
  ultimately show ?case using Cons.IH [of "chat_step l s"] l Cons.prems by (simp add: heard_by_def)
qed (simp add: heard_by_def)

section \<open>A room that stops\<close>

definition stuck :: "chat \<Rightarrow> bool" where
  "stuck s \<longleftrightarrow> lock s \<noteq> None \<and> looper s \<noteq> None \<and> event_cap \<le> length (event s)"

lemma stuck_step: "stuck s \<Longrightarrow> enabled l s \<Longrightarrow> stuck (chat_step l s) \<and> distributed l s = []"
  by (cases l) (auto simp: stuck_def chat_ops split: phase.splits)

lemma stuck_run:
  "stuck s \<Longrightarrow> admissible_run chat_step enabled ls s \<Longrightarrow>
   stuck (run_events chat_step ls s) \<and> along distributed ls s = []"
  by (induction ls arbitrary: s) (auto dest: stuck_step)

text \<open>Lines of a member fill the channel.\<close>

lemma fill_channel:
  "phase_of s i = Member n \<Longrightarrow> k + length (event s) \<le> event_cap \<Longrightarrow> is_line raw \<Longrightarrow>
   admissible_run chat_step enabled (replicate k (Line i raw)) s \<and>
   run_events chat_step (replicate k (Line i raw)) s =
     s\<lparr>event := event s @ replicate k \<lparr>Event_User = n, Event_Type = EventTypeMessage, Event_Message = Trim_eol raw\<rparr>\<rparr>"
proof (induction k arbitrary: s)
  case (Suc k)
  have "phase_of (chat_step (Line i raw) s) i = Member n" using Suc.prems(1) by (simp add: session_line_def)
  then show ?case using Suc.IH [of "chat_step (Line i raw) s"] Suc.prems by (simp add: session_line_def)
qed simp

text \<open>A client joins, the looper takes the event, the client fills the channel and another client registers.\<close>

definition first_client :: "label list" where
  "first_client = [Connect 0, Name 0 (''ann'' @ [newline]), RegLock 0, RegSendEv 0 True, LooperTake]"

definition jamming_run :: "label list" where
  "jamming_run = first_client @ replicate 100 (Line 0 (''hi'' @ [newline])) @
     [Connect 1, Name 1 (''bob'' @ [newline]), RegLock 1]"

lemma sample_names: "Trim_eol (''ann'' @ [newline]) = ''ann''" "Trim_eol (''bob'' @ [newline]) = ''bob''"
  "regexName ''ann''" "regexName ''bob''" "is_line (''ann'' @ [newline])" "is_line (''bob'' @ [newline])" "is_line (''hi'' @ [newline])"
  by (simp_all add: Trim_eol_def eol_def regexName_def name_char_def is_line_def)

lemma first_client_run:
  "admissible_run chat_step enabled first_client init_chat"
  "phase_of (run_events chat_step first_client init_chat) 0 = Member ''ann''"
  "phase_of (run_events chat_step first_client init_chat) (Suc 0) = Absent"
  "event (run_events chat_step first_client init_chat) = []"
  "lock (run_events chat_step first_client init_chat) = None"
  "looper (run_events chat_step first_client init_chat) \<noteq> None"
  "users (run_events chat_step first_client init_chat) = [(''ann'', 0)]"
  by (simp_all add: first_client_def init_chat_def chat_ops sample_names [simplified] event_cap_def)

lemma jammed:
  "admissible_run chat_step enabled jamming_run init_chat"
  "stuck (run_events chat_step jamming_run init_chat)"
proof -
  let ?s = "run_events chat_step first_client init_chat"
  let ?ev = "\<lparr>Event_User = ''ann'', Event_Type = EventTypeMessage, Event_Message = Trim_eol (''hi'' @ [newline])\<rparr>"
  note fill = fill_channel [of ?s 0 "''ann''" 100 "''hi'' @ [newline]", OF first_client_run(2)]
  have f: "admissible_run chat_step enabled (replicate 100 (Line 0 (''hi'' @ [newline]))) ?s"
    "run_events chat_step (replicate 100 (Line 0 (''hi'' @ [newline]))) ?s = ?s\<lparr>event := replicate 100 ?ev\<rparr>"
    using fill first_client_run(4) sample_names(7) by (simp_all add: event_cap_def)
  show "admissible_run chat_step enabled jamming_run init_chat"
    unfolding jamming_run_def admissible_run_append run_events_append f(2) using first_client_run f(1)
    by (simp add: session_connect_def session_name_def sendError_def sample_names [simplified])
  show "stuck (run_events chat_step jamming_run init_chat)"
    unfolding jamming_run_def run_events_append f(2) using first_client_run
    by (simp add: chat_ops sample_names [simplified] stuck_def event_cap_def)
qed

lemma jammed_absent: "phase_of (run_events chat_step jamming_run init_chat) 2 = Absent"
proof -
  let ?s = "run_events chat_step first_client init_chat"
  have a: "phase_of ?s 2 = Absent"
    by (simp add: first_client_def init_chat_def chat_ops sample_names [simplified])
  have "100 + length (event ?s) \<le> event_cap" using first_client_run(4) by (simp add: event_cap_def)
  note fill = fill_channel [of ?s 0 "''ann''" 100 "''hi'' @ [newline]", OF first_client_run(2) this sample_names(7), THEN conjunct2]
  show ?thesis unfolding jamming_run_def run_events_append fill using first_client_run a
    by (simp add: chat_ops sample_names [simplified])
qed

section \<open>A client that goes while it registers\<close>

definition ghost :: "nat \<Rightarrow> string \<Rightarrow> chat \<Rightarrow> bool" where
  "ghost i n s \<longleftrightarrow> phase_of s i = Closed \<and> (n, i) \<in> set (users s)"

lemma ghost_step:
  assumes "chat_ok s" "enabled l s" "ghost i n s"
  shows "ghost i n (chat_step l s)"
proof (cases l)
  case (LeaveLock j)
  then obtain m where m: "phase_of s j = Leaving m" using assms(2) enabled_phase(5) by blast
  have u: "users_inv s" using assms(1) by (simp add: chat_ok_def)
  have "(m, j) \<in> set (users s)" using users_invD(3) [OF u, of j m] m by simp
  then have "m \<noteq> n" using users_unique [OF u, of n i j] m assms(3) by (auto simp: ghost_def)
  moreover have "i \<noteq> j" using m assms(3) by (auto simp: ghost_def)
  ultimately show ?thesis using LeaveLock m assms(3) by (simp add: ghost_def room_leave_lock_def)
qed (use assms(2,3) in \<open>auto simp: ghost_def chat_ops split: phase.splits list.splits option.splits\<close>)

lemma ghost_run: "chat_ok s \<Longrightarrow> ghost i n s \<Longrightarrow> admissible_run chat_step enabled ls s \<Longrightarrow> ghost i n (run_events chat_step ls s)"
  by (induction ls arbitrary: s) (auto intro: ghost_step room.step_invariant)

section \<open>Properties of the chat room\<close>

text \<open>
  C15: In every state the room can get into, the names in it are distinct and of 1 to 50
  alphanumeric characters, every member is in it under its name, at most one session holds the lock,
  the channel holds at most 100 events, and everything written to any client is one line.
\<close>

theorem chat_well_formed:
  assumes "admissible_run chat_step enabled ls init_chat" "s = run_events chat_step ls init_chat"
  shows "distinct (map fst (users s)) \<and> (\<forall>u\<in>set (users s). regexName (fst u)) \<and>
    (\<forall>i n. phase_of s i = Member n \<longrightarrow> (n, i) \<in> set (users s)) \<and>
    (\<forall>i. lock s = Some i \<longleftrightarrow> is_RegSend (phase_of s i) \<or> is_LeaveSend (phase_of s i)) \<and>
    length (event s) \<le> event_cap \<and> (\<forall>i. \<forall>m\<in>set (out s i). is_line m)"
proof -
  have "chat_ok s" using room.run_invariant [OF chat_ok_init assms(1)] assms(2) by simp
  then show ?thesis
    by (auto simp: chat_ok_def names_inv_def lock_inv_def out_inv_def users_invD dest!: users_invD(3) [of s _ n for n])
qed

theorem chat_well_formed_witness:
  "length (event (run_events chat_step jamming_run init_chat)) \<le> event_cap \<and>
   distinct (map fst (users (run_events chat_step jamming_run init_chat)))"
  using chat_well_formed [OF jammed(1) refl] by blast

text \<open>
  C14: From any state the room can get into, as long as a member stays it receives exactly the
  events that the looper distributes, but for its own, each once and in their order; and the looper
  distributes the events in the order in which they were posted, losing and repeating none.
\<close>

theorem chat_delivery:
  assumes "admissible_run chat_step enabled ks init_chat" "s = run_events chat_step ks init_chat"
    "phase_of s i = Member n" "admissible_run chat_step enabled ls s" "Gone i \<notin> set ls"
  shows "out (run_events chat_step ls s) i = out s i @ heard_by n (along distributed ls s) \<and>
    pending s @ along posted ls s = along distributed ls s @ pending (run_events chat_step ls s)"
  using member_run [OF _ assms(4,3,5)] fifo_run [OF assms(4)] room.run_invariant [OF chat_ok_init assms(1)] assms(2)
  by simp

theorem chat_delivery_witness:
  "out (run_events chat_step [LooperSend, Line 0 (''hi'' @ [newline]), LooperTake, LooperSend]
     (run_events chat_step first_client init_chat)) 0 = out (run_events chat_step first_client init_chat) 0"
proof -
  let ?s = "run_events chat_step first_client init_chat"
  let ?ls = "[LooperSend, Line 0 (''hi'' @ [newline]), LooperTake, LooperSend]"
  have adm: "admissible_run chat_step enabled ?ls ?s"
    by (simp add: first_client_def init_chat_def chat_ops sample_names [simplified] event_cap_def)
  have "heard_by ''ann'' (along distributed ?ls ?s) = []"
    by (simp add: first_client_def init_chat_def chat_ops sample_names [simplified] heard_by_def)
  then show ?thesis
    using chat_delivery [OF first_client_run(1) refl first_client_run(2) adm] by simp
qed

text \<open>
  C33: The room can stop for good. After one client has joined and sent 100 lines while another
  registers, the looper waits for the lock, the registration holds the lock and waits for room in the
  channel, and whatever happens next no event is ever distributed again.
\<close>

theorem chat_room_jams:
  "admissible_run chat_step enabled jamming_run init_chat \<and>
   (\<forall>ls. admissible_run chat_step enabled ls (run_events chat_step jamming_run init_chat) \<longrightarrow>
      along distributed ls (run_events chat_step jamming_run init_chat) = [])"
  using jammed stuck_run by blast

theorem chat_room_jams_witness:
  "along distributed [Connect 2] (run_events chat_step jamming_run init_chat) = []"
proof -
  have "phase_of (run_events chat_step jamming_run init_chat) 2 = Absent"
    using jammed_absent .
  then show ?thesis using chat_room_jams by simp
qed

text \<open>
  When the presence list cannot be written because the client has gone, the client stays in
  the room without leaving: whatever happens next its name is listed as present, and no session can
  become a member under this name again.
\<close>

theorem chat_ghost_stays:
  assumes "admissible_run chat_step enabled ks init_chat" "s = run_events chat_step ks init_chat"
    "phase_of s i = RegSend n" "length (event s) < event_cap"
    "admissible_run chat_step enabled ls (chat_step (RegSendEv i False) s)"
  shows "(n, i) \<in> set (users (run_events chat_step ls (chat_step (RegSendEv i False) s))) \<and>
    phase_of (run_events chat_step ls (chat_step (RegSendEv i False) s)) j \<noteq> Member n"
proof -
  let ?s = "chat_step (RegSendEv i False) s"
  have ok: "chat_ok s" using room.run_invariant [OF chat_ok_init assms(1)] assms(2) by simp
  have ok': "chat_ok ?s" using room.step_invariant [OF ok, of "RegSendEv i False"] assms(3,4) by simp
  have "ghost i n ?s"
    using users_invD(3) [of s i n] ok assms(3) by (simp add: ghost_def chat_ok_def room_register_send_def Let_def)
  from ghost_run [OF ok' this assms(5)] have g: "ghost i n (run_events chat_step ls ?s)" .
  have u: "users_inv (run_events chat_step ls ?s)"
    using room.run_invariant [OF ok' assms(5)] by (simp add: chat_ok_def)
  have "phase_of (run_events chat_step ls ?s) j \<noteq> Member n"
  proof
    assume m: "phase_of (run_events chat_step ls ?s) j = Member n"
    then have "(n, j) \<in> set (users (run_events chat_step ls ?s))" using users_invD(3) [OF u, of j n] by simp
    then have "j = i" using users_unique [OF u] g by (auto simp: ghost_def)
    then show False using m g by (simp add: ghost_def)
  qed
  with g show ?thesis by (simp add: ghost_def)
qed

theorem chat_ghost_stays_witness:
  "(''ann'', 0) \<in> set (users (run_events chat_step [Connect 1, Name 1 (''ann'' @ [newline]), RegLock 1]
     (chat_step (RegSendEv 0 False)
       (run_events chat_step [Connect 0, Name 0 (''ann'' @ [newline]), RegLock 0] init_chat))))"
proof -
  let ?ks = "[Connect 0, Name 0 (''ann'' @ [newline]), RegLock 0]"
  let ?s = "run_events chat_step ?ks init_chat"
  let ?ls = "[Connect 1, Name 1 (''ann'' @ [newline]), RegLock 1]"
  have "admissible_run chat_step enabled ?ks init_chat" "phase_of ?s 0 = RegSend ''ann''" "length (event ?s) < event_cap"
    "admissible_run chat_step enabled ?ls (chat_step (RegSendEv 0 False) ?s)"
    by (simp_all add: init_chat_def chat_ops sample_names [simplified] event_cap_def)
  from chat_ghost_stays [OF this(1) refl this(2-4)] show ?thesis by blast
qed

end
