(* ===== verification/ChatMain.thy ===== *)
theory ChatMain
  imports Lifecycle
begin

text \<open>
  The program around the chat room of \<open>3-budget-chat/main.go\<close>: \<open>main\<close> with its accept loop, the goroutine of
  \<open>looper\<close>, and the goroutines of each session. What is written is modelled in \<open>BudgetChat\<close>; here only who waits
  for whom counts: the lock \<open>usersLock\<close> is held by the session that sends its join or leave event, and the
  channel holds \<open>pending\<close> of at most 100 events. Writes to a client end: they are taken, or they fail.

  Shown: after a signal, under every schedule, \<open>main\<close> returns with everything stopped or the channel is full
  for good, since the looper stops with the context while sessions still have events to send. It returns when
  the events on their way fit into the channel; and the other end can be reached.
\<close>

section \<open>Sessions\<close>

text \<open>
  Where the goroutine of a session is: reading its name, before the lock in \<open>register\<close>, sending the join event
  under the lock, its reader reading or sending a line, before the lock in \<open>leave\<close>, sending the leave event.
\<close>

datatype client_pc = Cl_name | Cl_lock | Cl_join | Cl_reads | Cl_posts | Cl_leaves | Cl_left | Cl_over

text \<open>\<open>cl_lines\<close>: the lines that have arrived and are not read yet; \<open>cl_ended\<close>: the client has closed its side.\<close>

record chat_client =
  cl_open :: bool
  cl_lines :: nat
  cl_ended :: bool
  cl_at :: client_pc

definition new_client :: chat_client where
  "new_client = \<lparr>cl_open = True, cl_lines = 0, cl_ended = False, cl_at = Cl_name\<rparr>"

text \<open>The deferred calls close the connection.\<close>

definition client_return :: "chat_client \<Rightarrow> chat_client" where
  "client_return c = c\<lparr>cl_open := False, cl_at := Cl_over\<rparr>"

definition next_line :: "client_pc \<Rightarrow> chat_client \<Rightarrow> chat_client" where
  "next_line pc c = c\<lparr>cl_lines := cl_lines c - 1, cl_at := pc\<rparr>"

text \<open>A read fails, perhaps after what is still buffered, when either side is closed.\<close>

definition read_fails :: "chat_client \<Rightarrow> bool" where
  "read_fails c \<longleftrightarrow> \<not> cl_open c \<or> cl_ended c"

datatype client_event =
  Line_comes
| Client_ends
| Conn_closes
| Name_read bool
| Name_fails
| Register_lock bool
| Join_sent bool
| Line_read
| Read_fails
| Line_sent
| Leave_lock
| Leave_sent

text \<open>
  \<open>locked\<close> says that another session holds the lock, \<open>full\<close> that the channel is full.
  The second part of the result says that an event was sent. A name is valid or not, new or taken, and the
  presence list is written or not.
\<close>

fun client_step :: "bool \<Rightarrow> bool \<Rightarrow> bool \<Rightarrow> client_event \<Rightarrow> chat_client \<Rightarrow> (chat_client \<times> bool) option" where
  "client_step ctx locked full Line_comes c =
     (if read_fails c then None else Some (c\<lparr>cl_lines := Suc (cl_lines c)\<rparr>, False))"
| "client_step ctx locked full Client_ends c = Some (c\<lparr>cl_ended := True\<rparr>, False)"
| "client_step ctx locked full Conn_closes c = (if ctx \<and> cl_open c then Some (c\<lparr>cl_open := False\<rparr>, False) else None)"
| "client_step ctx locked full (Name_read valid) c =
     (if cl_at c = Cl_name \<and> 0 < cl_lines c
      then Some (if valid then next_line Cl_lock c else client_return c, False) else None)"
| "client_step ctx locked full Name_fails c =
     (if cl_at c = Cl_name \<and> read_fails c then Some (client_return c, False) else None)"
| "client_step ctx locked full (Register_lock fresh) c =
     (if cl_at c = Cl_lock \<and> \<not> locked
      then Some (if fresh then c\<lparr>cl_at := Cl_join\<rparr> else client_return c, False) else None)"
| "client_step ctx locked full (Join_sent written) c =
     (if cl_at c = Cl_join \<and> \<not> full
      then Some (if written then c\<lparr>cl_at := Cl_reads\<rparr> else client_return c, True) else None)"
| "client_step ctx locked full Line_read c =
     (if cl_at c = Cl_reads \<and> 0 < cl_lines c then Some (next_line Cl_posts c, False) else None)"
| "client_step ctx locked full Read_fails c =
     (if cl_at c = Cl_reads \<and> read_fails c then Some (c\<lparr>cl_at := Cl_leaves\<rparr>, False) else None)"
| "client_step ctx locked full Line_sent c =
     (if cl_at c = Cl_posts \<and> \<not> full then Some (c\<lparr>cl_at := Cl_reads\<rparr>, True) else None)"
| "client_step ctx locked full Leave_lock c =
     (if cl_at c = Cl_leaves \<and> \<not> locked then Some (c\<lparr>cl_at := Cl_left\<rparr>, False) else None)"
| "client_step ctx locked full Leave_sent c =
     (if cl_at c = Cl_left \<and> \<not> full then Some (client_return c, True) else None)"

fun client_own :: "client_event \<Rightarrow> bool" where
  "client_own Line_comes = False"
| "client_own Client_ends = False"
| "client_own _ = True"

definition client_over :: "chat_client \<Rightarrow> bool" where
  "client_over c \<longleftrightarrow> cl_at c = Cl_over \<and> \<not> cl_open c"

text \<open>The lock is held, for longer than a step, by a session that sends its join or leave event.\<close>

definition holds_lock :: "chat_client \<Rightarrow> bool" where
  "holds_lock c \<longleftrightarrow> cl_at c = Cl_join \<or> cl_at c = Cl_left"

definition sends :: "chat_client \<Rightarrow> bool" where
  "sends c \<longleftrightarrow> holds_lock c \<or> cl_at c = Cl_posts"

section \<open>The program\<close>

text \<open>The looper waits in its \<open>select\<close>, has an event and waits for the lock, or has returned.\<close>

datatype looper_pc = Lo_select | Lo_send | Lo_over

datatype chat_main_pc = Cm_serving | Cm_signalled | Cm_cancelled | Cm_waiting | Cm_exited

record chat_main =
  cm_ctx :: bool
  cm_listener :: bool
  cm_accepting :: bool
  cm_at :: chat_main_pc
  looper_at :: looper_pc
  pending :: nat
  clients :: "chat_client list"

definition chat_cap :: nat where
  "chat_cap = 100"

definition chat_start :: chat_main where
  "chat_start =
     \<lparr>cm_ctx = False, cm_listener = True, cm_accepting = True, cm_at = Cm_serving, looper_at = Lo_select, pending = 0, clients = []\<rparr>"

definition lock_free :: "chat_main \<Rightarrow> bool" where
  "lock_free s \<longleftrightarrow> list_all (\<lambda>c. \<not> holds_lock c) (clients s)"

datatype chat_event =
  Chat_signal
| Chat_cancel
| Chat_close
| Chat_accepts
| Chat_accept_error
| Chat_accept_closed
| Looper_takes
| Looper_sends
| Looper_quits
| Client nat client_event
| Chat_wait_over

definition set_client :: "nat \<Rightarrow> chat_client \<times> bool \<Rightarrow> chat_main \<Rightarrow> chat_main" where
  "set_client i r s = s\<lparr>pending := (if snd r then Suc (pending s) else pending s), clients := (clients s)[i := fst r]\<rparr>"

fun chat_main_step :: "chat_event \<Rightarrow> chat_main \<Rightarrow> chat_main option" where
  "chat_main_step Chat_signal s = Some (if cm_at s = Cm_serving then s\<lparr>cm_at := Cm_signalled\<rparr> else s)"
| "chat_main_step Chat_cancel s =
     (if cm_at s = Cm_signalled then Some (s\<lparr>cm_ctx := True, cm_at := Cm_cancelled\<rparr>) else None)"
| "chat_main_step Chat_close s =
     (if cm_at s = Cm_cancelled then Some (s\<lparr>cm_listener := False, cm_at := Cm_waiting\<rparr>) else None)"
| "chat_main_step Chat_accepts s =
     (if cm_accepting s \<and> cm_listener s then Some (s\<lparr>clients := clients s @ [new_client]\<rparr>) else None)"
| "chat_main_step Chat_accept_error s = (if cm_accepting s \<and> cm_listener s then Some s else None)"
| "chat_main_step Chat_accept_closed s =
     (if cm_accepting s \<and> \<not> cm_listener s then Some (s\<lparr>cm_accepting := False\<rparr>) else None)"
| "chat_main_step Looper_takes s =
     (if looper_at s = Lo_select \<and> 0 < pending s then Some (s\<lparr>looper_at := Lo_send, pending := pending s - 1\<rparr>) else None)"
| "chat_main_step Looper_sends s =
     (if looper_at s = Lo_send \<and> lock_free s then Some (s\<lparr>looper_at := Lo_select\<rparr>) else None)"
| "chat_main_step Looper_quits s =
     (if looper_at s = Lo_select \<and> cm_ctx s then Some (s\<lparr>looper_at := Lo_over\<rparr>) else None)"
| "chat_main_step (Client i e) s =
     (if i < length (clients s)
      then map_option (\<lambda>r. set_client i r s)
             (client_step (cm_ctx s) (\<not> lock_free s) (chat_cap \<le> pending s) e (clients s ! i))
      else None)"
| "chat_main_step Chat_wait_over s =
     (if cm_at s = Cm_waiting \<and> \<not> cm_accepting s \<and> looper_at s = Lo_over \<and> list_all (\<lambda>c. cl_at c = Cl_over) (clients s)
      then Some (s\<lparr>cm_at := Cm_exited\<rparr>) else None)"

text \<open>The steps of the program after the signal.\<close>

fun chat_own :: "chat_event \<Rightarrow> bool" where
  "chat_own Chat_signal = False"
| "chat_own Chat_accepts = False"
| "chat_own Chat_accept_error = False"
| "chat_own (Client i e) = client_own e"
| "chat_own _ = True"

text \<open>What \<open>main\<close> has reached when it returns.\<close>

definition chat_returned :: "chat_main \<Rightarrow> bool" where
  "chat_returned s \<longleftrightarrow>
     cm_at s = Cm_exited \<and> \<not> cm_accepting s \<and> \<not> cm_listener s \<and> looper_at s = Lo_over \<and> list_all client_over (clients s)"

text \<open>
  The channel is full, a session waits for room in it, and nobody can take from it: the looper is gone, or
  has an event and waits for the lock that a session holds.
\<close>

definition jammed :: "chat_main \<Rightarrow> bool" where
  "jammed s \<longleftrightarrow>
     pending s = chat_cap \<and> (looper_at s = Lo_over \<or> looper_at s = Lo_send \<and> \<not> lock_free s) \<and> \<not> list_all (\<lambda>c. \<not> sends c) (clients s)"

text \<open>The events that are in the channel or that the sessions will send, if no more lines arrive.\<close>

fun pc_events :: "client_pc \<Rightarrow> nat" where
  "pc_events Cl_name = 2"
| "pc_events Cl_lock = 2"
| "pc_events Cl_join = 2"
| "pc_events Cl_posts = 2"
| "pc_events Cl_reads = 1"
| "pc_events Cl_leaves = 1"
| "pc_events Cl_left = 1"
| "pc_events Cl_over = 0"

definition client_events :: "chat_client \<Rightarrow> nat" where
  "client_events c = (if cl_at c = Cl_over then 0 else cl_lines c) + pc_events (cl_at c)"

definition load :: "chat_main \<Rightarrow> nat" where
  "load s = pending s + sum_list (map client_events (clients s))"

section \<open>Invariant\<close>

definition client_ok :: "chat_client \<Rightarrow> bool" where
  "client_ok c \<longleftrightarrow> (cl_at c = Cl_over \<longrightarrow> \<not> cl_open c)"

definition chat_inv :: "chat_main \<Rightarrow> bool" where
  "chat_inv s \<longleftrightarrow>
     pending s \<le> chat_cap \<and> list_all client_ok (clients s) \<and>
     (cm_ctx s \<longleftrightarrow> cm_at s \<in> {Cm_cancelled, Cm_waiting, Cm_exited}) \<and>
     (cm_listener s \<longleftrightarrow> cm_at s \<notin> {Cm_waiting, Cm_exited}) \<and>
     (cm_at s = Cm_exited \<longrightarrow> \<not> cm_accepting s \<and> looper_at s = Lo_over \<and> list_all (\<lambda>c. cl_at c = Cl_over) (clients s))"

lemma chat_invD:
  assumes "chat_inv s"
  shows "pending s \<le> chat_cap" "list_all client_ok (clients s)"
    "cm_at s = Cm_exited \<Longrightarrow> list_all (\<lambda>c. cl_at c = Cl_over) (clients s)"
  using assms unfolding chat_inv_def by blast+

lemmas client_defs = client_return_def next_line_def read_fails_def

lemma client_ok_step: "client_ok c \<Longrightarrow> client_step ctx locked full e c = Some (d, sent) \<Longrightarrow> client_ok d"
  by (cases e) (auto simp: client_ok_def client_defs split: if_splits)

lemma client_over_stays: "cl_at c = Cl_over \<Longrightarrow> client_step ctx locked full e c = Some (d, sent) \<Longrightarrow> cl_at d = Cl_over"
  by (cases e) (auto split: if_splits)

lemma client_sent: "client_step ctx locked full e c = Some (d, True) \<Longrightarrow> \<not> full"
  by (cases e) (auto split: if_splits)

lemma chat_step_client:
  assumes "chat_main_step (Client i e) s = Some t"
  obtains d sent where "i < length (clients s)"
    "client_step (cm_ctx s) (\<not> lock_free s) (chat_cap \<le> pending s) e (clients s ! i) = Some (d, sent)"
    "t = set_client i (d, sent) s"
  using assms by (auto split: if_splits)

lemma chat_inv_client:
  assumes inv: "chat_inv s" and i: "i < length (clients s)"
    and step: "client_step (cm_ctx s) (\<not> lock_free s) (chat_cap \<le> pending s) e (clients s ! i) = Some (d, sent)"
  shows "chat_inv (set_client i (d, sent) s)"
proof -
  have "client_ok d"
    using client_ok_step [OF _ step] chat_invD(2) [OF inv] i by (simp add: list_all_length)
  then have 1: "list_all client_ok ((clients s)[i := d])" using chat_invD(2) [OF inv] by (rule list_all_update [rotated])
  have 2: "list_all (\<lambda>c. cl_at c = Cl_over) ((clients s)[i := d])" if "list_all (\<lambda>c. cl_at c = Cl_over) (clients s)"
    using that client_over_stays [OF _ step] i by (intro list_all_update) (auto simp: list_all_length)
  have 3: "(if sent then Suc (pending s) else pending s) \<le> chat_cap"
  proof (cases sent)
    case True
    then show ?thesis using client_sent step by fastforce
  qed (use chat_invD(1) [OF inv] in simp)
  show ?thesis using inv 1 2 3 unfolding chat_inv_def set_client_def by (elim conjE, intro conjI) simp_all
qed

lemma chat_inv_step: "chat_inv s \<Longrightarrow> chat_main_step a s = Some t \<Longrightarrow> chat_inv t"
proof (cases a)
  case (Client i e)
  assume "chat_inv s" "chat_main_step a s = Some t"
  then show ?thesis using Client chat_step_client chat_inv_client by metis
next
  case Chat_accepts
  assume "chat_inv s" "chat_main_step a s = Some t"
  then show ?thesis using Chat_accepts by (auto simp: chat_inv_def client_ok_def new_client_def split: if_splits)
qed (cases "cm_at s"; auto simp: chat_inv_def split: if_splits)+

interpretation chat_runs: guarded_system chat_main_step "\<lambda>a. True" chat_inv
  by unfold_locales (rule chat_inv_step)

lemma chat_reachable: "run_steps chat_main_step as chat_start = Some s \<Longrightarrow> chat_inv s"
  by (rule chat_runs.run_keeps [of chat_start as]) (simp_all add: chat_inv_def chat_start_def list_all_iff)

lemma chat_exited_returned: "chat_inv s \<Longrightarrow> cm_at s = Cm_exited \<Longrightarrow> chat_returned s"
  by (auto simp: chat_inv_def chat_returned_def client_ok_def client_over_def list_all_iff)

section \<open>Every schedule ends\<close>

fun client_pc_weight :: "client_pc \<Rightarrow> nat" where
  "client_pc_weight Cl_name = 11"
| "client_pc_weight Cl_lock = 10"
| "client_pc_weight Cl_join = 9"
| "client_pc_weight Cl_posts = 9"
| "client_pc_weight Cl_reads = 6"
| "client_pc_weight Cl_leaves = 5"
| "client_pc_weight Cl_left = 4"
| "client_pc_weight Cl_over = 0"

definition client_weight :: "chat_client \<Rightarrow> nat" where
  "client_weight c = 4 * cl_lines c + client_pc_weight (cl_at c) + (if cl_open c then 1 else 0)"

fun looper_pc_weight :: "looper_pc \<Rightarrow> nat" where
  "looper_pc_weight Lo_select = 1"
| "looper_pc_weight Lo_send = 2"
| "looper_pc_weight Lo_over = 0"

fun chat_pc_weight :: "chat_main_pc \<Rightarrow> nat" where
  "chat_pc_weight Cm_serving = 0"
| "chat_pc_weight Cm_signalled = 3"
| "chat_pc_weight Cm_cancelled = 2"
| "chat_pc_weight Cm_waiting = 1"
| "chat_pc_weight Cm_exited = 0"

definition chat_weight :: "chat_main \<Rightarrow> nat" where
  "chat_weight s =
     chat_pc_weight (cm_at s) + (if cm_accepting s then 1 else 0) + looper_pc_weight (looper_at s) + 2 * pending s +
     sum_list (map client_weight (clients s))"

lemma client_lighter:
  "client_own e \<Longrightarrow> client_step ctx locked full e c = Some (d, sent) \<Longrightarrow>
   client_weight d + (if sent then 2 else 0) < client_weight c"
  by (cases e) (auto simp: client_weight_def client_defs split: if_splits)

lemma client_load:
  "client_own e \<Longrightarrow> client_step ctx locked full e c = Some (d, sent) \<Longrightarrow>
   client_events d + (if sent then 1 else 0) \<le> client_events c"
  by (cases e) (auto simp: client_events_def client_defs split: if_splits)

text \<open>After the signal.\<close>

definition chat_leaving :: "chat_main \<Rightarrow> bool" where
  "chat_leaving s \<longleftrightarrow> chat_inv s \<and> cm_at s \<noteq> Cm_serving"

lemma chat_leaving_step:
  assumes "chat_leaving s" "chat_main_step a s = Some t"
  shows "chat_leaving t"
proof -
  have "chat_inv t" using assms chat_inv_step by (auto simp: chat_leaving_def)
  then show ?thesis using assms by (cases a) (auto simp: chat_leaving_def set_client_def split: if_splits)
qed

lemma chat_lighter:
  assumes "chat_leaving s" "chat_own a" "chat_main_step a s = Some t"
  shows "chat_weight t < chat_weight s"
proof (cases a)
  case (Client i e)
  obtain d sent where c: "i < length (clients s)"
      "client_step (cm_ctx s) (\<not> lock_free s) (chat_cap \<le> pending s) e (clients s ! i) = Some (d, sent)"
      "t = set_client i (d, sent) s"
    using assms(3) Client chat_step_client by blast
  have "client_weight d + (if sent then 2 else 0) < client_weight (clients s ! i)"
    using client_lighter [OF _ c(2)] assms(2) Client by simp
  then show ?thesis
    using sum_list_map_update [OF c(1), of client_weight d] by (auto simp: chat_weight_def set_client_def c(3))
qed (use assms in \<open>auto simp: chat_weight_def chat_inv_def chat_leaving_def split: if_splits\<close>)

lemma chat_load:
  assumes "chat_own a" "chat_main_step a s = Some t"
  shows "load t \<le> load s"
proof (cases a)
  case (Client i e)
  obtain d sent where c: "i < length (clients s)"
      "client_step (cm_ctx s) (\<not> lock_free s) (chat_cap \<le> pending s) e (clients s ! i) = Some (d, sent)"
      "t = set_client i (d, sent) s"
    using assms(2) Client chat_step_client by blast
  have "client_events d + (if sent then 1 else 0) \<le> client_events (clients s ! i)"
    using client_load [OF _ c(2)] assms(1) Client by simp
  then show ?thesis
    using sum_list_map_update [OF c(1), of client_events d] by (auto simp: load_def set_client_def c(3))
qed (use assms in \<open>auto simp: load_def split: if_splits\<close>)

lemma some_client_event: "client_own e \<Longrightarrow> client_step True locked full e c \<noteq> None \<Longrightarrow> \<exists>e. client_own e \<and> client_step True locked full e c \<noteq> None"
  by blast

lemma client_possible:
  assumes "cl_at c \<noteq> Cl_over" "full \<Longrightarrow> \<not> sends c" "locked \<Longrightarrow> holds_lock c"
  shows "\<exists>e. client_own e \<and> client_step True locked full e c \<noteq> None"
proof (cases "cl_open c")
  case True
  then show ?thesis by (intro some_client_event [of Conn_closes]) simp_all
next
  case False
  note shut = this assms
  show ?thesis
  proof (cases "cl_at c")
    case Cl_name
    then show ?thesis using shut by (intro some_client_event [of Name_fails]) (simp_all add: read_fails_def)
  next
    case Cl_lock
    then show ?thesis using shut by (intro some_client_event [of "Register_lock True"]) (auto simp: holds_lock_def)
  next
    case Cl_join
    then show ?thesis using shut by (intro some_client_event [of "Join_sent True"]) (auto simp: sends_def holds_lock_def)
  next
    case Cl_reads
    then show ?thesis using shut by (intro some_client_event [of Read_fails]) (simp_all add: read_fails_def)
  next
    case Cl_posts
    then show ?thesis using shut by (intro some_client_event [of Line_sent]) (auto simp: sends_def)
  next
    case Cl_leaves
    then show ?thesis using shut by (intro some_client_event [of Leave_lock]) (auto simp: holds_lock_def)
  next
    case Cl_left
    then show ?thesis using shut by (intro some_client_event [of Leave_sent]) (auto simp: sends_def holds_lock_def)
  qed (use assms in simp)
qed

lemma some_chat_event: "chat_own a \<Longrightarrow> chat_main_step a s \<noteq> None \<Longrightarrow> \<exists>a. chat_own a \<and> chat_main_step a s \<noteq> None"
  by blast

text \<open>A session that is not over can step, once the looper has no event: the one that holds the lock, if there is one.\<close>

lemma chat_session_possible:
  assumes "cm_ctx s" "i < length (clients s)" "cl_at (clients s ! i) \<noteq> Cl_over" "\<not> lock_free s \<Longrightarrow> holds_lock (clients s ! i)"
    and room: "pending s < chat_cap \<or> list_all (\<lambda>c. \<not> sends c) (clients s)"
  shows "\<exists>a. chat_own a \<and> chat_main_step a s \<noteq> None"
proof -
  have "\<not> sends (clients s ! i)" if "chat_cap \<le> pending s" using room that assms(2) by (auto simp: list_all_length)
  from client_possible [OF assms(3) this assms(4)]
  obtain e where "client_own e" "client_step True (\<not> lock_free s) (chat_cap \<le> pending s) e (clients s ! i) \<noteq> None"
    by blast
  then show ?thesis using assms(1,2) by (intro some_chat_event [of "Client i e"]) auto
qed

lemma wait_possible:
  assumes inv: "chat_inv s" and wait: "cm_at s = Cm_waiting" "\<not> cm_accepting s" and jam: "\<not> jammed s"
  shows "\<exists>a. chat_own a \<and> chat_main_step a s \<noteq> None"
proof -
  have ctx: "cm_ctx s" using inv wait(1) by (simp add: chat_inv_def)
  have cap: "pending s \<le> chat_cap" by (rule chat_invD(1) [OF inv])
  show ?thesis
  proof (cases "looper_at s = Lo_select")
    case True
    then show ?thesis using ctx by (intro some_chat_event [of Looper_quits]) simp_all
  next
    case busy: False
    show ?thesis
    proof (cases "lock_free s")
      case False
      then obtain i where i: "i < length (clients s)" "holds_lock (clients s ! i)" by (auto simp: lock_free_def list_all_length)
      then have "\<not> list_all (\<lambda>c. \<not> sends c) (clients s)" by (auto simp: list_all_length sends_def)
      then have "pending s < chat_cap" using jam busy cap False by (cases "looper_at s") (auto simp: jammed_def)
      moreover have "cl_at (clients s ! i) \<noteq> Cl_over" using i(2) by (auto simp: holds_lock_def)
      ultimately show ?thesis using chat_session_possible [OF ctx i(1)] i(2) by blast
    next
      case free: True
      show ?thesis
      proof (cases "looper_at s")
        case Lo_over
        then have room: "pending s < chat_cap \<or> list_all (\<lambda>c. \<not> sends c) (clients s)" using jam cap by (auto simp: jammed_def)
        show ?thesis
        proof (cases "list_all (\<lambda>c. cl_at c = Cl_over) (clients s)")
          case True
          then show ?thesis using wait Lo_over by (intro some_chat_event [of Chat_wait_over]) simp_all
        next
          case False
          then obtain i where "i < length (clients s)" "cl_at (clients s ! i) \<noteq> Cl_over" by (auto simp: list_all_length)
          then show ?thesis using chat_session_possible [OF ctx] free room by blast
        qed
      next
        case Lo_send
        then show ?thesis using free by (intro some_chat_event [of Looper_sends]) simp_all
      qed (use busy in simp)
    qed
  qed
qed

lemma chat_possible:
  assumes "chat_leaving s" "\<not> (chat_returned s \<or> jammed s)"
  shows "\<exists>a. chat_own a \<and> chat_main_step a s \<noteq> None"
proof -
  have inv: "chat_inv s" and at: "cm_at s \<noteq> Cm_serving" using assms(1) by (simp_all add: chat_leaving_def)
  show ?thesis
  proof (cases "cm_at s")
    case Cm_signalled
    then show ?thesis by (intro some_chat_event [of Chat_cancel]) simp_all
  next
    case Cm_cancelled
    then show ?thesis by (intro some_chat_event [of Chat_close]) simp_all
  next
    case wait: Cm_waiting
    show ?thesis
    proof (cases "cm_accepting s")
      case True
      then show ?thesis using inv wait by (intro some_chat_event [of Chat_accept_closed]) (simp_all add: chat_inv_def)
    qed (use wait_possible inv wait assms(2) in blast)
  next
    case Cm_exited
    then show ?thesis using chat_exited_returned inv assms(2) by blast
  qed (use at in simp)
qed

interpretation chat_drain: draining chat_main_step chat_own chat_leaving chat_weight "\<lambda>s. chat_returned s \<or> jammed s"
proof unfold_locales
  fix a s t
  show "chat_leaving s \<Longrightarrow> chat_own a \<Longrightarrow> chat_main_step a s = Some t \<Longrightarrow> chat_leaving t" by (rule chat_leaving_step)
  show "chat_leaving s \<Longrightarrow> chat_own a \<Longrightarrow> chat_main_step a s = Some t \<Longrightarrow> chat_weight t < chat_weight s" by (rule chat_lighter)
  show "chat_leaving s \<Longrightarrow> \<not> (chat_returned s \<or> jammed s) \<Longrightarrow> \<exists>a. chat_own a \<and> chat_main_step a s \<noteq> None" by (rule chat_possible)
qed

lemma jammed_load:
  assumes "jammed s"
  shows "chat_cap < load s"
proof -
  obtain i where i: "i < length (clients s)" "sends (clients s ! i)" using assms by (auto simp: jammed_def list_all_length)
  have "0 < client_events (clients s ! i)" using i(2) by (auto simp: sends_def holds_lock_def client_events_def)
  also have "client_events (clients s ! i) \<le> sum_list (map client_events (clients s))"
    by (rule member_le_sum_list) (use i(1) in auto)
  finally show ?thesis using assms by (simp add: jammed_def load_def)
qed

interpretation chat_fits: draining chat_main_step chat_own "\<lambda>s. chat_leaving s \<and> load s \<le> chat_cap" chat_weight chat_returned
proof unfold_locales
  fix a s t
  show "chat_leaving s \<and> load s \<le> chat_cap \<Longrightarrow> chat_own a \<Longrightarrow> chat_main_step a s = Some t \<Longrightarrow> chat_leaving t \<and> load t \<le> chat_cap"
    using chat_leaving_step chat_load le_trans by metis
  show "chat_leaving s \<and> load s \<le> chat_cap \<Longrightarrow> chat_own a \<Longrightarrow> chat_main_step a s = Some t \<Longrightarrow> chat_weight t < chat_weight s"
    using chat_lighter by blast
  show "chat_leaving s \<and> load s \<le> chat_cap \<Longrightarrow> \<not> chat_returned s \<Longrightarrow> \<exists>a. chat_own a \<and> chat_main_step a s \<noteq> None"
    using chat_possible jammed_load by fastforce
qed

section \<open>A full channel\<close>

lemma client_full:
  "client_step ctx locked True e c = Some (d, sent) \<Longrightarrow> \<not> sent \<and> (sends c \<longrightarrow> sends d) \<and> (holds_lock c \<longrightarrow> holds_lock d)"
  by (cases e) (auto simp: sends_def holds_lock_def split: if_splits)

lemma not_all_update:
  "i < length xs \<Longrightarrow> (P x \<Longrightarrow> P (xs ! i)) \<Longrightarrow> \<not> list_all P xs \<Longrightarrow> \<not> list_all P (xs[i := x])"
  by (auto simp: list_all_length nth_list_update split: if_splits)

lemma jammed_step:
  assumes jam: "jammed s" and step: "chat_main_step a s = Some t"
  shows "jammed t"
proof (cases a)
  case (Client i e)
  obtain d sent where i: "i < length (clients s)"
    and d: "client_step (cm_ctx s) (\<not> lock_free s) (chat_cap \<le> pending s) e (clients s ! i) = Some (d, sent)"
    and t: "t = set_client i (d, sent) s"
    using step Client chat_step_client by blast
  have "chat_cap \<le> pending s" using jam by (simp add: jammed_def)
  then have full: "\<not> sent" "sends (clients s ! i) \<longrightarrow> sends d" "holds_lock (clients s ! i) \<longrightarrow> holds_lock d"
    using client_full d by (metis (full_types))+
  have 1: "\<not> list_all (\<lambda>c. \<not> sends c) ((clients s)[i := d])" if "\<not> list_all (\<lambda>c. \<not> sends c) (clients s)"
    using not_all_update [OF i _ that, of d] full(2) by blast
  have 2: "\<not> list_all (\<lambda>c. \<not> holds_lock c) ((clients s)[i := d])" if "\<not> list_all (\<lambda>c. \<not> holds_lock c) (clients s)"
    using not_all_update [OF i _ that, of d] full(3) by blast
  show ?thesis using jam 1 2 full(1) unfolding jammed_def t set_client_def lock_free_def by auto
qed (use assms in \<open>auto simp: jammed_def lock_free_def split: if_splits\<close>)

lemma not_jammed_returned: "chat_returned s \<Longrightarrow> \<not> jammed s"
  by (auto simp: chat_returned_def jammed_def client_over_def sends_def holds_lock_def list_all_iff)

interpretation jam: guarded_system chat_main_step "\<lambda>a. True" jammed
  by unfold_locales (rule jammed_step)

lemma jammed_stays: "jammed s \<Longrightarrow> run_steps chat_main_step bs s = Some t \<Longrightarrow> jammed t"
  by (rule jam.run_keeps [of s bs]) (simp_all add: list_all_iff)

lemma lines_run:
  "clients s = [c] \<Longrightarrow> \<not> read_fails c \<Longrightarrow>
   run_steps chat_main_step (replicate n (Client 0 Line_comes)) s = Some (s\<lparr>clients := [c\<lparr>cl_lines := cl_lines c + n\<rparr>]\<rparr>)"
  by (induction n arbitrary: s c) (simp_all add: set_client_def read_fails_def)

lemma posts_run:
  "clients s = [c] \<Longrightarrow> cl_at c = Cl_reads \<Longrightarrow> n \<le> cl_lines c \<Longrightarrow> pending s + n \<le> chat_cap \<Longrightarrow>
   run_steps chat_main_step (concat (replicate n [Client 0 Line_read, Client 0 Line_sent])) s =
     Some (s\<lparr>pending := pending s + n, clients := [c\<lparr>cl_lines := cl_lines c - n\<rparr>]\<rparr>)"
  by (induction n arbitrary: s c) (simp_all add: set_client_def next_line_def)

definition jam_run :: "chat_event list" where
  "jam_run =
     Chat_accepts # replicate 101 (Client 0 Line_comes) @
     map (Client 0) [Name_read True, Register_lock True, Join_sent True] @ [Chat_signal, Chat_cancel, Looper_quits] @
     concat (replicate 99 [Client 0 Line_read, Client 0 Line_sent]) @ [Client 0 Line_read]"

lemma jam_run_jams: "\<exists>s. run_steps chat_main_step jam_run chat_start = Some s \<and> cm_at s \<noteq> Cm_serving \<and> jammed s"
  by (simp add: jam_run_def run_steps_append lines_run posts_run chat_start_def new_client_def read_fails_def set_client_def
      next_line_def lock_free_def holds_lock_def chat_cap_def jammed_def sends_def)

section \<open>The end of main\<close>

text \<open>
  C32: After a signal the program makes only a bounded number of steps of its own, however its goroutines are
  scheduled and whatever the clients did, and where none of them can go on, either \<open>main\<close> has returned, with its
  listener closed, the accepting goroutine and the looper gone and every session over and its connection
  closed, or the event channel is full and nobody takes from it. It always returns if the events in the
  channel and those that the sessions still have to send fit into the channel. A full channel that nobody
  takes from stays so, whatever happens, and then \<open>main\<close> never returns.
\<close>

theorem chat_main_ends:
  assumes "run_steps chat_main_step as chat_start = Some s" "cm_at s \<noteq> Cm_serving"
  shows "drains chat_main_step chat_own s (\<lambda>t. chat_returned t \<or> jammed t) \<and>
    (load s \<le> chat_cap \<longrightarrow> drains chat_main_step chat_own s chat_returned) \<and>
    (cm_at s = Cm_exited \<longrightarrow> chat_returned s) \<and>
    (jammed s \<longrightarrow> (\<forall>bs t. run_steps chat_main_step bs s = Some t \<longrightarrow> jammed t \<and> cm_at t \<noteq> Cm_exited))"
proof (intro conjI impI allI)
  have inv: "chat_inv s" by (rule chat_reachable [OF assms(1)])
  then have leaving: "chat_leaving s" using assms(2) by (simp add: chat_leaving_def)
  then show "drains chat_main_step chat_own s (\<lambda>t. chat_returned t \<or> jammed t)" by (rule chat_drain.drains)
  show "drains chat_main_step chat_own s chat_returned" if "load s \<le> chat_cap" using chat_fits.drains leaving that by blast
  show "chat_returned s" if "cm_at s = Cm_exited" using chat_exited_returned inv that by blast
  fix bs t
  assume jam: "jammed s" and run: "run_steps chat_main_step bs s = Some t"
  from jammed_stays [OF jam run] show "jammed t" .
  have "chat_inv t" by (rule chat_runs.run_keeps [OF inv _ run]) (simp add: list_all_iff)
  then show "cm_at t \<noteq> Cm_exited" using chat_exited_returned not_jammed_returned \<open>jammed t\<close> by blast
qed

theorem chat_main_ends_witness:
  "\<exists>s. run_steps chat_main_step jam_run chat_start = Some s \<and> jammed s \<and>
     (\<forall>bs t. run_steps chat_main_step bs s = Some t \<longrightarrow> cm_at t \<noteq> Cm_exited)"
proof -
  obtain s where s: "run_steps chat_main_step jam_run chat_start = Some s" "cm_at s \<noteq> Cm_serving" "jammed s"
    using jam_run_jams by blast
  from chat_main_ends [OF s(1,2)] s show ?thesis by blast
qed

end
