(* ===== verification/PrimeTime.thy ===== *)
theory PrimeTime
  imports Go_Bufio Go_Json
begin

text \<open>
  The prime server (\<open>1-prime-time/main.go\<close>): the request with its optional fields, \<open>Number\<close> with its own
  \<open>UnmarshalJSON\<close> that tries \<open>big.Int\<close> and then \<open>big.Float\<close>, the handler, and the loop of a connection.

  \<open>ProbablyPrime(10)\<close> is a parameter: the documentation says that it holds for primes, and only for
  primes below \<open>2 ^ 64\<close>. The number parsers are those of \<open>math/big\<close> on number literals of JSON, which are
  the only ones that reach them; every other value starts with a byte that both refuse. A connection is
  the list of what its reads give, and it takes a number of writes before a write fails.

  Shown: a request in any layout is answered with the truth about its number; what makes a request
  malformed; and a connection is answered line by line up to the first malformed one, the unterminated
  rest at the end included.
\<close>

section \<open>Numbers\<close>

datatype number_val = BigInt int | BigFloat

text \<open>\<open>Number\<close>: its \<open>Val\<close>, \<open>None\<close> for nil.\<close>

type_synonym Number = "number_val option"

definition IsValid :: "Number \<Rightarrow> bool" where
  "IsValid n \<longleftrightarrow> n \<noteq> None"

definition strip_sign :: "string \<Rightarrow> bool \<times> string" where
  "strip_sign s =
     (case s of
        [] \<Rightarrow> (False, [])
      | c # t \<Rightarrow> if c = CHR ''-'' then (True, t) else if c = CHR ''+'' then (False, t) else (False, s))"

definition bigInt_UnmarshalText :: "string \<Rightarrow> int option" where
  "bigInt_UnmarshalText s =
     (case strip_sign s of (neg, ds) \<Rightarrow> map_option (\<lambda>n. if neg then - int n else int n) (parse_nat ds))"

fun bit_length :: "nat \<Rightarrow> nat" where
  "bit_length n = (if n = 0 then 0 else Suc (bit_length (n div 2)))"

declare bit_length.simps [simp del]

definition exponent_of :: "string \<Rightarrow> int option" where
  "exponent_of s =
     (case s of
        [] \<Rightarrow> Some 0
      | e # t \<Rightarrow>
          (case bigInt_UnmarshalText t of
             None \<Rightarrow> None
           | Some x \<Rightarrow> if - (2 ^ 63) \<le> x \<and> x < 2 ^ 63 then Some x else None))"

text \<open>
  Whether \<open>big.Float\<close> takes a literal: the exponent fits an \<open>int64\<close>, and the binary exponent of a mantissa
  that is not zero an \<open>int32\<close>.
\<close>

definition bigFloat_UnmarshalText :: "string \<Rightarrow> bool" where
  "bigFloat_UnmarshalText s \<longleftrightarrow>
     is_number s \<and>
     (case strip_sign s of (neg, t) \<Rightarrow>
        let i = digits_of t; u = dropWhile is_digit t;
            f = (case u of [] \<Rightarrow> [] | c # v \<Rightarrow> if c = CHR ''.'' then digits_of v else []);
            e = (case u of [] \<Rightarrow> [] | c # v \<Rightarrow> if c = CHR ''.'' then dropWhile is_digit v else u)
        in case (parse_nat (i @ f), exponent_of e) of
             (Some m, Some x) \<Rightarrow>
               m = 0 \<or> (- (2 ^ 31) \<le> int (bit_length m) - int (length f) + x \<and>
                        int (bit_length m) - int (length f) + x < 2 ^ 31)
           | _ \<Rightarrow> False)"

definition Number_UnmarshalJSON :: "string \<Rightarrow> Number \<Rightarrow> Number option" where
  "Number_UnmarshalJSON bytes n =
     (if bytes = ''null'' then Some n
      else case bigInt_UnmarshalText bytes of
             Some i \<Rightarrow> Some (Some (BigInt i))
           | None \<Rightarrow> if bigFloat_UnmarshalText bytes then Some (Some BigFloat) else None)"

section \<open>The handler\<close>

record Request =
  Method :: "string option"
  req_Number :: "Number option"

definition request_fields :: "string list" where
  "request_fields = [''method'', ''number'']"

text \<open>\<open>null\<close> makes a pointer nil; a \<open>Number\<close> decodes itself from the text of the value.\<close>

definition set_request_field :: "string \<Rightarrow> json \<Rightarrow> Request \<Rightarrow> Request option" where
  "set_request_field f v req =
     (if f = ''method'' then
        (case v of
           JNull \<Rightarrow> Some (req\<lparr>Method := None\<rparr>)
         | JStr s \<Rightarrow> Some (req\<lparr>Method := Some s\<rparr>)
         | _ \<Rightarrow> None)
      else
        (case v of
           JNull \<Rightarrow> Some (req\<lparr>req_Number := None\<rparr>)
         | _ \<Rightarrow> map_option (\<lambda>n. req\<lparr>req_Number := Some n\<rparr>)
                  (Number_UnmarshalJSON (print_json v) (case req_Number req of None \<Rightarrow> None | Some n \<Rightarrow> n))))"

definition Unmarshal_Request :: "string \<Rightarrow> Request option" where
  "Unmarshal_Request raw =
     (case parse_all raw of
        None \<Rightarrow> None
      | Some v \<Rightarrow> decode_struct request_fields set_request_field \<lparr>Method = None, req_Number = None\<rparr> v)"

text \<open>\<open>Response\<close>, as \<open>json.Marshal\<close> writes it.\<close>

definition Marshal_Response :: "string \<Rightarrow> bool \<Rightarrow> string" where
  "Marshal_Response method prime = print_json (JObj [(''method'', JStr method), (''prime'', JBool prime)])"

definition invalid_request :: string where
  "invalid_request = ''invalid request''"

text \<open>What the handler returns: the response, and whether it returns an error.\<close>

definition handler :: "(int \<Rightarrow> bool) \<Rightarrow> string \<Rightarrow> string \<times> bool" where
  "handler probablyPrime rawReq =
     (case Unmarshal_Request rawReq of
        None \<Rightarrow> (invalid_request, True)
      | Some req \<Rightarrow>
          (case (Method req, req_Number req) of
             (Some m, Some n) \<Rightarrow>
               if m \<noteq> ''isPrime'' then (invalid_request, True)
               else let isPrime = (if IsValid n then (case the n of BigInt i \<Rightarrow> probablyPrime i | BigFloat \<Rightarrow> False) else False)
                    in (Marshal_Response ''isPrime'' isPrime @ [newline], False)
           | _ \<Rightarrow> (invalid_request, True)))"

section \<open>A connection\<close>

function conn_replies :: "(int \<Rightarrow> bool) \<Rightarrow> (char, unit) breader \<Rightarrow> nat \<Rightarrow> string list" where
  "conn_replies probablyPrime r writes =
     (case ReadBytes newline r [] of
        ((err, req), r') \<Rightarrow>
          if err \<noteq> None \<and> req = [] then []
          else case handler probablyPrime req of
                 (res, failed) \<Rightarrow>
                   if writes = 0 then []
                   else if failed then [res]
                   else res # conn_replies probablyPrime r' (writes - 1))"
  by pat_completeness auto
termination
  by (relation "measure (\<lambda>(_, _, writes). writes)") auto

declare conn_replies.simps [simp del]

section \<open>What a request asks\<close>

text \<open>
  The reference: all members for the two fields have acceptable values, and the last ones count. An
  integer literal asks for that integer; a literal with a fraction or an exponent, which \<open>big.Float\<close>
  takes, asks for something that is not prime.
\<close>

definition members_for :: "string \<Rightarrow> (string \<times> json) list \<Rightarrow> json list" where
  "members_for f kvs = map snd (filter (\<lambda>kv. field_match request_fields (fst kv) = Some f) kvs)"

definition number_value :: "json \<Rightarrow> number_val option" where
  "number_value v =
     (case v of
        JNum l \<Rightarrow> (case bigInt_UnmarshalText l of
                     Some i \<Rightarrow> Some (BigInt i)
                   | None \<Rightarrow> if bigFloat_UnmarshalText l then Some BigFloat else None)
      | _ \<Rightarrow> None)"

definition method_ok :: "json \<Rightarrow> bool" where
  "method_ok v \<longleftrightarrow> (case v of JNull \<Rightarrow> True | JStr s \<Rightarrow> True | _ \<Rightarrow> False)"

definition number_ok :: "json \<Rightarrow> bool" where
  "number_ok v \<longleftrightarrow> v = JNull \<or> number_value v \<noteq> None"

definition prime_query :: "string \<Rightarrow> number_val option" where
  "prime_query raw =
     (case parse_all raw of
        Some (JObj kvs) \<Rightarrow>
          (let ms = members_for ''method'' kvs; ns = members_for ''number'' kvs
           in if list_all method_ok ms \<and> list_all number_ok ns \<and>
                 ms \<noteq> [] \<and> last ms = JStr ''isPrime'' \<and> ns \<noteq> []
              then number_value (last ns) else None)
      | _ \<Rightarrow> None)"

text \<open>Trial division.\<close>

definition prime_number :: "int \<Rightarrow> bool" where
  "prime_number n \<longleftrightarrow> 1 < n \<and> (\<forall>d\<in>set [2..n - 1]. \<not> d dvd n)"

definition asks_prime :: "(int \<Rightarrow> bool) \<Rightarrow> number_val \<Rightarrow> bool" where
  "asks_prime pr v = (case v of BigInt i \<Rightarrow> pr i | BigFloat \<Rightarrow> False)"

definition prime_reply :: "bool \<Rightarrow> string" where
  "prime_reply b =
     [CHR ''{'', dquote] @ ''method'' @ [dquote, CHR '':'', dquote] @ ''isPrime'' @
     [dquote, CHR '','', dquote] @ ''prime'' @ [dquote, CHR '':''] @ (if b then ''true'' else ''false'') @
     [CHR ''}'', newline]"

text \<open>What the documentation says of \<open>ProbablyPrime\<close>.\<close>

definition lawful :: "(int \<Rightarrow> bool) \<Rightarrow> bool" where
  "lawful pp \<longleftrightarrow> (\<forall>n. prime_number n \<longrightarrow> pp n) \<and> (\<forall>n < 2 ^ 64. pp n \<longrightarrow> prime_number n)"

lemma Marshal_Response_text: "Marshal_Response ''isPrime'' b @ [newline] = prime_reply b"
  by (cases b) (simp_all add: Marshal_Response_def prime_reply_def json_quote_def quote.simps(2) quote_ascii_def html_safe_def)

lemma starts_not_digit:
  "\<not> is_digit c \<Longrightarrow> c \<noteq> CHR ''-'' \<Longrightarrow> c \<noteq> CHR ''+'' \<Longrightarrow>
   bigInt_UnmarshalText (c # s) = None \<and> \<not> bigFloat_UnmarshalText (c # s)"
  by (auto simp: bigInt_UnmarshalText_def strip_sign_def parse_nat_def bigFloat_UnmarshalText_def is_number_def
      dest: number_first)

lemma UnmarshalJSON_value:
  "v \<noteq> JNull \<Longrightarrow> json_ok v \<Longrightarrow>
   Number_UnmarshalJSON (print_json v) n = map_option Some (number_value v)"
proof (cases v)
  case (JNum l)
  assume "json_ok v"
  then have "l \<noteq> ''null''" using JNum by (auto simp: is_number_def is_digit_def dest: number_first)
  then show ?thesis using JNum by (simp add: Number_UnmarshalJSON_def number_value_def split: option.split)
qed (auto simp: Number_UnmarshalJSON_def number_value_def json_quote_def starts_not_digit is_digit_def)

definition last_method :: "json list \<Rightarrow> string option \<Rightarrow> string option" where
  "last_method ms old = (if ms = [] then old else case last ms of JStr s \<Rightarrow> Some s | _ \<Rightarrow> None)"

definition last_number :: "json list \<Rightarrow> Number option \<Rightarrow> Number option" where
  "last_number ns old = (if ns = [] then old else map_option Some (number_value (last ns)))"

lemma last_method_Cons: "last_method (v # ms) old = last_method ms (case v of JStr s \<Rightarrow> Some s | _ \<Rightarrow> None)"
  by (simp add: last_method_def)

lemma last_number_Cons: "last_number (v # ns) old = last_number ns (map_option Some (number_value v))"
  by (simp add: last_number_def)

lemma members_for_Cons:
  "members_for f ((k, v) # kvs) =
     (if field_match request_fields k = Some f then v # members_for f kvs else members_for f kvs)"
  by (simp add: members_for_def)

lemma field_match_request: "field_match request_fields k = Some f \<Longrightarrow> f = ''method'' \<or> f = ''number''"
  by (auto simp: field_match_def request_fields_def find_Some_iff nth_Cons' split: if_splits)

lemma set_number:
  "json_ok v \<Longrightarrow> set_request_field ''number'' v req =
     (if number_ok v then Some (req\<lparr>req_Number := map_option Some (number_value v)\<rparr>) else None)"
  using UnmarshalJSON_value [of v]
  by (cases "v = JNull") (auto simp: set_request_field_def number_ok_def number_value_def split: json.split)

lemma set_method:
  "set_request_field ''method'' v req =
     (if method_ok v then Some (req\<lparr>Method := (case v of JStr s \<Rightarrow> Some s | _ \<Rightarrow> None)\<rparr>) else None)"
  by (auto simp: set_request_field_def method_ok_def split: json.split)

lemma decode_request_members:
  "\<forall>kv\<in>set kvs. json_ok (snd kv) \<Longrightarrow>
   decode_members request_fields set_request_field kvs req =
     (if list_all method_ok (members_for ''method'' kvs) \<and> list_all number_ok (members_for ''number'' kvs)
      then Some (req\<lparr>Method := last_method (members_for ''method'' kvs) (Method req),
                     req_Number := last_number (members_for ''number'' kvs) (req_Number req)\<rparr>)
      else None)"
proof (induction kvs arbitrary: req)
  case Nil
  show ?case by (simp add: members_for_def last_method_def last_number_def)
next
  case (Cons kv kvs)
  obtain k v where kv: "kv = (k, v)" by force
  have ok: "json_ok v" "\<forall>kv\<in>set kvs. json_ok (snd kv)" using Cons.prems kv by auto
  consider (is_method) "field_match request_fields k = Some ''method''" | (number) "field_match request_fields k = Some ''number''"
    | (ignored) "field_match request_fields k = None"
    using field_match_request by (cases "field_match request_fields k") auto
  then show ?case
  proof cases
    case is_method
    then show ?thesis using Cons.IH [OF ok(2)] by (simp add: kv members_for_Cons set_method last_method_Cons)
  next
    case number
    then show ?thesis using Cons.IH [OF ok(2)] by (simp add: kv members_for_Cons set_number [OF ok(1)] last_number_Cons)
  next
    case ignored
    then show ?thesis using Cons.IH [OF ok(2)] by (simp add: kv members_for_Cons)
  qed
qed

lemma handler_query:
  "handler pp raw =
     (case prime_query raw of
        None \<Rightarrow> (invalid_request, True)
      | Some q \<Rightarrow> (prime_reply (asks_prime pp q), False))"
proof (cases "parse_all raw")
  case None
  then show ?thesis by (simp add: handler_def Unmarshal_Request_def prime_query_def)
next
  case (Some v)
  show ?thesis
  proof (cases "\<exists>kvs. v = JObj kvs")
    case True
    then obtain kvs where v: "v = JObj kvs" by blast
    have ok: "\<forall>kv\<in>set kvs. json_ok (snd kv)" using parse_all_ok [OF Some] v by simp
    let ?ms = "members_for ''method'' kvs" and ?ns = "members_for ''number'' kvs"
    show ?thesis
    proof (cases "list_all method_ok ?ms \<and> list_all number_ok ?ns")
      case oks: True
      then have req: "Unmarshal_Request raw =
          Some \<lparr>Method = last_method ?ms None, req_Number = last_number ?ns None\<rparr>"
        by (simp add: Unmarshal_Request_def Some v decode_struct_def decode_request_members [OF ok])
      have m: "last_method ?ms None = Some ''isPrime'' \<longleftrightarrow> ?ms \<noteq> [] \<and> last ?ms = JStr ''isPrime''"
        by (auto simp: last_method_def split: json.splits)
      show ?thesis
      proof (cases "last_method ?ms None = Some ''isPrime''")
        case isPrime: True
        then show ?thesis using oks m
          by (auto simp: handler_def req prime_query_def Some v Let_def last_number_def IsValid_def
              Marshal_Response_text [simplified] asks_prime_def split: option.splits)
      next
        case False
        then have "prime_query raw = None" using m by (auto simp: prime_query_def Some v Let_def)
        with False show ?thesis by (auto simp: handler_def req split: option.splits)
      qed
    next
      case False
      then have "Unmarshal_Request raw = None"
        by (auto simp: Unmarshal_Request_def Some v decode_struct_def decode_request_members [OF ok])
      then show ?thesis using False by (auto simp: handler_def prime_query_def Some v Let_def)
    qed
  next
    case False
    then show ?thesis
      by (cases v) (simp_all add: handler_def Unmarshal_Request_def prime_query_def Some decode_struct_def)
  qed
qed

lemma bigInt_show: "bigInt_UnmarshalText (show_int i) = Some i"
proof (cases "i < 0")
  case True
  then show ?thesis
    by (simp add: bigInt_UnmarshalText_def show_int_def strip_sign_def parse_nat_def show_nat_ne parse_show_nat)
next
  case False
  obtain c t where c: "show_nat (nat i) = c # t" "is_digit c" using show_nat_head by blast
  then have "strip_sign (c # t) = (False, c # t)" using is_digit_neq by (auto simp: strip_sign_def)
  then show ?thesis using False c parse_show_nat [of 0 "nat i"]
    by (simp add: bigInt_UnmarshalText_def show_int_def parse_nat_def)
qed

lemma valid_ascii_names: "to_valid_utf8 ''method'' = ''method''" "to_valid_utf8 ''number'' = ''number''"
    "to_valid_utf8 ''isPrime'' = ''isPrime''"
  by (simp_all add: valid_ascii)

section \<open>The lines of a connection\<close>

definition requests_of :: "string \<Rightarrow> string list" where
  "requests_of s =
     map (\<lambda>l. l @ [newline]) (fst (split_lines newline s)) @
     (if snd (split_lines newline s) = [] then [] else [snd (split_lines newline s)])"

fun answers :: "(int \<Rightarrow> bool) \<Rightarrow> string list \<Rightarrow> string list" where
  "answers pr [] = []"
| "answers pr (q # qs) =
     (case prime_query q of
        None \<Rightarrow> [invalid_request]
      | Some v \<Rightarrow> prime_reply (asks_prime pr v) # answers pr qs)"

lemma requests_of_line:
  "newline \<notin> set l \<Longrightarrow> requests_of (l @ newline # s) = (l @ [newline]) # requests_of s"
  by (simp add: requests_of_def lines_from_line)

lemma requests_of_rest: "newline \<notin> set s \<Longrightarrow> requests_of s = (if s = [] then [] else [s])"
  by (simp add: requests_of_def lines_from_none)

lemma conn_replies_answers:
  "conn_replies pp r writes = take writes (answers pp (requests_of (plain.content r)))"
proof (induction pp r writes rule: conn_replies.induct)
  case (1 pp r writes)
  show ?case
  proof (cases "newline \<in> set (plain.content r)")
    case True
    then obtain l r' where l: "ReadBytes newline r [] = ((None, l @ [newline]), r')" "newline \<notin> set l"
      "plain.content r = l @ newline # plain.content r'"
      using ReadBytes_spec [of newline r "[]"] by auto
    show ?thesis
    proof (cases "prime_query (l @ [newline])")
      case None
      then show ?thesis using l
        by (subst conn_replies.simps) (simp add: handler_query requests_of_line split: nat.split)
    next
      case (Some q)
      then have h: "handler pp (l @ [newline]) = (prime_reply (asks_prime pp q), False)" by (simp add: handler_query)
      show ?thesis
      proof (cases writes)
        case (Suc w)
        then show ?thesis using "1.IH" [OF l(1) [symmetric] refl _ h [symmetric]] l Some h
          by (subst conn_replies.simps) (simp add: requests_of_line)
      qed (use l h in \<open>subst conn_replies.simps, simp\<close>)
    qed
  next
    case False
    then obtain r' where r: "ReadBytes newline r [] = ((Some ErrEOF, plain.content r), r')" "plain.content r' = []"
      using ReadBytes_spec [of newline r "[]"] by auto
    have over: "conn_replies pp r' w = []" for w
      using ReadBytes_spec [of newline r' "[]"] r(2) by (subst conn_replies.simps) auto
    show ?thesis
    proof (cases "plain.content r = [] \<or> writes = 0")
      case True
      then show ?thesis using r False by (subst conn_replies.simps) (auto simp: requests_of_rest)
    next
      case nonempty: False
      then obtain w where "writes = Suc w" by (cases writes) auto
      then show ?thesis using r False nonempty over
        by (subst conn_replies.simps) (simp add: requests_of_rest handler_query split: option.split)
    qed
  qed
qed

lemma answers_lawful:
  "lawful pp \<Longrightarrow> \<forall>q\<in>set qs. \<forall>i. prime_query q = Some (BigInt i) \<longrightarrow> i < 2 ^ 64 \<Longrightarrow> answers pp qs = answers prime_number qs"
proof (induction qs)
  case (Cons q qs)
  have "asks_prime pp v = asks_prime prime_number v" if "prime_query q = Some v" for v
    using Cons.prems that by (cases v) (auto simp: asks_prime_def lawful_def)
  then show ?case using Cons by (auto split: option.split)
qed simp

section \<open>Properties of the prime server\<close>


text \<open>
  An integer of any size is asked for by its decimal text, whatever other members the request has
  before, between and after the two fields.
\<close>

theorem prime_integer_asked:
  assumes "writable (JObj (xs @ (''method'', JStr ''isPrime'') # ys @ (''number'', JNum (show_int i)) # zs))"
    and "\<forall>kv\<in>set (xs @ ys @ zs). field_match request_fields (to_valid_utf8 (fst kv)) = None"
  shows "handler pp (print_json (JObj (xs @ (''method'', JStr ''isPrime'') # ys @ (''number'', JNum (show_int i)) # zs)) @ [newline]) =
    (prime_reply (pp i), False)"
proof -
  have none: "members_for f (map (\<lambda>kv. (to_valid_utf8 (fst kv), clean (snd kv))) kvs) = []"
    if "set kvs \<subseteq> set (xs @ ys @ zs)" for f kvs
  proof -
    have "field_match request_fields (to_valid_utf8 (fst kv)) = None" if "kv \<in> set kvs" for kv
      using assms(2) that \<open>set kvs \<subseteq> _\<close> by blast
    then show ?thesis by (auto simp: members_for_def filter_empty_conv simp del: split_paired_All)
  qed
  then have nones: "members_for f (map (\<lambda>kv. (to_valid_utf8 (fst kv), clean (snd kv))) kvs) = []"
    if "kvs = xs \<or> kvs = ys \<or> kvs = zs" for f kvs using that by auto
  have app: "members_for f (as @ bs) = members_for f as @ members_for f bs" for f as bs by (simp add: members_for_def)
  have fields: "field_match request_fields ''method'' = Some ''method''" "field_match request_fields ''number'' = Some ''number''"
    by (simp_all add: field_match_def request_fields_def)
  have "prime_query (print_json (JObj (xs @ (''method'', JStr ''isPrime'') # ys @ (''number'', JNum (show_int i)) # zs)) @ [newline])
      = Some (BigInt i)"
    unfolding prime_query_def parse_all_print_line [OF assms(1)]
    by (simp add: nones members_for_Cons app valid_ascii_names fields method_ok_def number_ok_def number_value_def bigInt_show)
  then show ?thesis unfolding handler_query by (simp add: asks_prime_def)
qed

theorem prime_integer_asked_witness:
  "handler prime_number (print_json (JObj [(''id'', JNull), (''method'', JStr ''isPrime''), (''number'', JNum (show_int 7))]) @ [newline]) =
     (prime_reply True, False)"
proof -
  have "writable (JObj ([(''id'', JNull)] @ (''method'', JStr ''isPrime'') # [] @ (''number'', JNum (show_int 7)) # []))"
    by (simp add: writable_def is_number_int max_depth_def)
  moreover have "field_match request_fields (to_valid_utf8 ''id'') = None" "prime_number 7" by code_simp+
  ultimately show ?thesis
    using prime_integer_asked [of "[(''id'', JNull)]" "[]" 7 "[]" prime_number] by simp
qed

text \<open>
  C19: With a \<open>ProbablyPrime\<close> as documented and integers below \<open>2 ^ 64\<close>, the replies on a connection,
  however it is cut into reads, are the true answers to its lines in order, up to the first malformed
  line, which is answered once and ends the session; an unterminated rest at the end counts as a
  line; when a write fails, nothing more is answered.
\<close>

theorem prime_session:
  assumes "lawful pp"
    and "\<forall>q\<in>set (requests_of (concat conn)). \<forall>i. prime_query q = Some (BigInt i) \<longrightarrow> i < 2 ^ 64"
  shows "conn_replies pp (new_reader conn) writes = take writes (answers prime_number (requests_of (concat conn)))"
  unfolding conn_replies_answers content_new_reader answers_lawful [OF assms] ..


theorem prime_session_witness:
  \<open>conn_replies prime_number
     (new_reader [''{"method":"isPrime",'', ''"number":7}'' @ [newline],
        ''{"number":7.5,"method":"isPrime"}'' @ [newline] @ ''{"method":"isPrime","number":"7"}'']) 9 =
   [prime_reply True, prime_reply False, ''invalid request'']\<close>
proof -
  let ?c = \<open>[''{"method":"isPrime",'', ''"number":7}'' @ [newline],
        ''{"number":7.5,"method":"isPrime"}'' @ [newline] @ ''{"method":"isPrime","number":"7"}'']\<close>
  have reqs: \<open>requests_of (concat ?c) = [''{"method":"isPrime","number":7}'' @ [newline],
      ''{"number":7.5,"method":"isPrime"}'' @ [newline], ''{"method":"isPrime","number":"7"}'']\<close>
    by (simp add: requests_of_def)
  have q: \<open>prime_query (''{"method":"isPrime","number":7}'' @ [newline]) = Some (BigInt 7)\<close>
      \<open>prime_query (''{"number":7.5,"method":"isPrime"}'' @ [newline]) = Some BigFloat\<close>
      \<open>prime_query ''{"method":"isPrime","number":"7"}'' = None\<close> "prime_number 7"
    by code_simp+
  have "lawful prime_number" by (simp add: lawful_def)
  then show ?thesis using prime_session [of prime_number ?c 9] q
    unfolding reqs by (simp add: asks_prime_def invalid_request_def)
qed

end
