(* ===== verification/MainLoop.thy ===== *)
theory MainLoop
  imports Lifecycle
begin

text \<open>
  The \<open>main\<close> functions of the servers \<open>0-smoke-test\<close> to \<open>2-means-to-an-end\<close>, \<open>5-mob-in-the-middle\<close> and
  \<open>6-speed-daemon\<close>, which are the same: a goroutine accepts connections, each with a goroutine of its own; a
  signal makes \<open>main\<close> cancel the context, close the listener and wait for all of them. A failed accept is
  logged and tried again, unless the listener is closed. The speed daemon panics on a second signal.

  Proved once over the locale \<open>connection\<close>: \<open>main\<close> returns only after all connections are over and the
  accepting goroutine is gone, and after a signal it does return, however the goroutines are scheduled,
  unless a connection is blocked.
\<close>

datatype main_pc = Serving_all | Signalled | Cancelled | Waiting | Exited | Panicked

record 'c main_state =
  ctx_done :: bool
  open_listener :: bool
  accepting :: bool
  sessions :: "'c list"
  main_at :: main_pc

definition main_start :: "'c main_state" where
  "main_start = \<lparr>ctx_done = False, open_listener = True, accepting = True, sessions = [], main_at = Serving_all\<rparr>"

datatype 'e main_event =
  Signal
| Cancel
| Close_listener
| Wait_over
| Accepts
| Accept_error
| Accept_closed
| Session nat 'e

fun main_step ::
  "bool \<Rightarrow> (bool \<Rightarrow> 'e \<Rightarrow> 'c \<Rightarrow> 'c option) \<Rightarrow> 'c \<Rightarrow> ('c \<Rightarrow> bool) \<Rightarrow> 'e main_event \<Rightarrow> 'c main_state \<Rightarrow> 'c main_state option" where
  "main_step forced cstep fresh over Signal s =
     (if main_at s = Panicked then None
      else if main_at s = Serving_all then Some (s\<lparr>main_at := Signalled\<rparr>)
      else if forced \<and> main_at s \<noteq> Exited then Some (s\<lparr>main_at := Panicked\<rparr>)
      else Some s)"
| "main_step forced cstep fresh over Cancel s =
     (if main_at s = Signalled then Some (s\<lparr>ctx_done := True, main_at := Cancelled\<rparr>) else None)"
| "main_step forced cstep fresh over Close_listener s =
     (if main_at s = Cancelled then Some (s\<lparr>open_listener := False, main_at := Waiting\<rparr>) else None)"
| "main_step forced cstep fresh over Wait_over s =
     (if main_at s = Waiting \<and> \<not> accepting s \<and> list_all over (sessions s) then Some (s\<lparr>main_at := Exited\<rparr>) else None)"
| "main_step forced cstep fresh over Accepts s =
     (if accepting s \<and> open_listener s \<and> main_at s \<noteq> Panicked then Some (s\<lparr>sessions := sessions s @ [fresh]\<rparr>) else None)"
| "main_step forced cstep fresh over Accept_error s =
     (if accepting s \<and> open_listener s \<and> main_at s \<noteq> Panicked then Some s else None)"
| "main_step forced cstep fresh over Accept_closed s =
     (if accepting s \<and> \<not> open_listener s \<and> main_at s \<noteq> Panicked then Some (s\<lparr>accepting := False\<rparr>) else None)"
| "main_step forced cstep fresh over (Session i e) s =
     (if i < length (sessions s) \<and> main_at s \<noteq> Panicked
      then map_option (\<lambda>c. s\<lparr>sessions := (sessions s)[i := c]\<rparr>) (cstep (ctx_done s) e (sessions s ! i)) else None)"

text \<open>The steps of the program after the signal.\<close>

fun main_own :: "('e \<Rightarrow> bool) \<Rightarrow> 'e main_event \<Rightarrow> bool" where
  "main_own cown Cancel = True"
| "main_own cown Close_listener = True"
| "main_own cown Wait_over = True"
| "main_own cown Accept_closed = True"
| "main_own cown (Session i e) = cown e"
| "main_own cown _ = False"

text \<open>Only after the context is cancelled do the sessions have to end.\<close>

definition main_inv :: "('c \<Rightarrow> bool) \<Rightarrow> ('c \<Rightarrow> bool) \<Rightarrow> 'c main_state \<Rightarrow> bool" where
  "main_inv cinv over s \<longleftrightarrow>
     list_all cinv (sessions s) \<and>
     (ctx_done s \<longrightarrow> main_at s \<noteq> Serving_all \<and> main_at s \<noteq> Signalled) \<and>
     (\<not> ctx_done s \<longrightarrow> main_at s \<in> {Serving_all, Signalled, Panicked}) \<and>
     (open_listener s \<longrightarrow> main_at s \<in> {Serving_all, Signalled, Cancelled, Panicked}) \<and>
     (\<not> open_listener s \<longrightarrow> ctx_done s \<and> main_at s \<noteq> Cancelled) \<and>
     (\<not> accepting s \<longrightarrow> \<not> open_listener s) \<and>
     (main_at s = Exited \<longrightarrow> \<not> accepting s \<and> list_all over (sessions s))"

definition main_weight :: "('c \<Rightarrow> nat) \<Rightarrow> 'c main_state \<Rightarrow> nat" where
  "main_weight cweight s =
     (case main_at s of Cancelled \<Rightarrow> 2 | Waiting \<Rightarrow> 1 | _ \<Rightarrow> 0) +
     (if accepting s then 1 else 0) + sum_list (map cweight (sessions s))"

text \<open>What \<open>main\<close> has reached when it returns.\<close>

definition main_returned :: "('c \<Rightarrow> bool) \<Rightarrow> 'c main_state \<Rightarrow> bool" where
  "main_returned over s \<longleftrightarrow>
     main_at s = Exited \<and> \<not> accepting s \<and> \<not> open_listener s \<and> list_all over (sessions s)"

context connection
begin

abbreviation mstep where
  "mstep forced \<equiv> main_step forced cstep fresh over"

abbreviation minv where
  "minv \<equiv> main_inv cinv over"

lemma main_step_inv: "minv s \<Longrightarrow> mstep forced a s = Some t \<Longrightarrow> minv t"
proof (cases a)
  case (Session i e)
  assume inv: "minv s" and step: "mstep forced a s = Some t"
  then obtain c where c: "i < length (sessions s)" "cstep (ctx_done s) e (sessions s ! i) = Some c"
      "t = s\<lparr>sessions := (sessions s)[i := c]\<rparr>"
    using Session by (auto split: if_splits)
  have all: "list_all cinv (sessions s)" using inv by (simp add: main_inv_def)
  then have "cinv (sessions s ! i)" using c(1) by (simp add: list_all_length)
  then have 1: "list_all cinv ((sessions s)[i := c])" using cstep_inv c(2) all by (blast intro: list_all_update)
  have 2: "list_all over ((sessions s)[i := c])" if o: "list_all over (sessions s)"
    using over_stays [OF _ c(2)] o c(1) by (intro list_all_update) (auto simp: list_all_length)
  show ?thesis using inv 1 2 unfolding main_inv_def c(3) by (elim conjE, intro conjI) simp_all
qed (cases "main_at s"; auto simp: main_inv_def fresh_inv split: if_splits)+

lemma main_run_inv: "run_steps (mstep forced) as s = Some t \<Longrightarrow> minv s \<Longrightarrow> minv t"
  by (induction as arbitrary: s) (auto intro: main_step_inv split: option.splits)

lemma main_reachable: "run_steps (mstep forced) as main_start = Some s \<Longrightarrow> minv s"
  using main_run_inv by (fastforce simp: main_inv_def main_start_def)

lemma unforced_step: "mstep False a s = Some t \<Longrightarrow> main_at s \<noteq> Panicked \<Longrightarrow> main_at t \<noteq> Panicked"
  by (cases a) (auto split: if_splits)

lemma unforced: "run_steps (mstep False) as s = Some t \<Longrightarrow> main_at s \<noteq> Panicked \<Longrightarrow> main_at t \<noteq> Panicked"
  by (induction as arbitrary: s) (auto dest: unforced_step split: option.splits)

lemma unforced_run: "run_steps (mstep False) as main_start = Some s \<Longrightarrow> main_at s \<noteq> Panicked"
  using unforced by (fastforce simp: main_start_def)

lemma exited_returned: "minv s \<Longrightarrow> main_at s = Exited \<Longrightarrow> main_returned over s"
  by (auto simp: main_inv_def main_returned_def)

lemma main_exit_over:
  "run_steps (mstep forced) as main_start = Some s \<Longrightarrow> main_at s = Exited \<Longrightarrow> main_returned over s"
  using main_reachable exited_returned by blast

definition main_done :: "'c main_state \<Rightarrow> bool" where
  "main_done s \<longleftrightarrow> main_returned over s \<or> (\<exists>c\<in>set (sessions s). \<not> over c \<and> blocked c)"

definition leaving :: "'c main_state \<Rightarrow> bool" where
  "leaving s \<longleftrightarrow> minv s \<and> ctx_done s \<and> main_at s \<noteq> Panicked"

lemma leaving_step: "leaving s \<Longrightarrow> main_own cown a \<Longrightarrow> mstep forced a s = Some t \<Longrightarrow> leaving t"
  using main_step_inv [of s forced a t] by (cases a) (auto simp: leaving_def split: if_splits)

lemma leaving_lighter:
  assumes "leaving s" "main_own cown a" "mstep forced a s = Some t"
  shows "main_weight cweight t < main_weight cweight s"
proof (cases a)
  case (Session i e)
  then obtain c where c: "i < length (sessions s)" "cstep True e (sessions s ! i) = Some c" "t = s\<lparr>sessions := (sessions s)[i := c]\<rparr>"
    using assms by (auto simp: leaving_def split: if_splits)
  have "cinv (sessions s ! i)" using assms(1) c(1) by (simp add: leaving_def main_inv_def list_all_length)
  then have "cweight c < cweight (sessions s ! i)" using cstep_lighter [OF _ _ c(2)] assms(2) Session by simp
  then show ?thesis using sum_list_update_less [OF c(1)] by (simp add: main_weight_def c(3))
qed (use assms in \<open>auto simp: main_weight_def leaving_def main_inv_def split: if_splits\<close>)

lemma leaving_possible:
  assumes "leaving s" "\<not> main_done s"
  shows "\<exists>a. main_own cown a \<and> mstep forced a s \<noteq> None"
proof -
  have inv: "minv s" "ctx_done s" "main_at s \<noteq> Panicked" "main_at s \<noteq> Exited"
    using assms exited_returned by (auto simp: leaving_def main_done_def)
  consider "main_at s = Cancelled" | (wait) "main_at s = Waiting"
    using inv by (cases "main_at s") (auto simp: main_inv_def)
  then show ?thesis
  proof cases
    case 1
    then have "mstep forced Close_listener s \<noteq> None" by simp
    then show ?thesis using main_own.simps(2) by blast
  next
    case wait
    then have shut: "\<not> open_listener s" using inv(1) by (auto simp: main_inv_def)
    show ?thesis
    proof (cases "accepting s")
      case True
      then have "mstep forced Accept_closed s \<noteq> None" using shut inv(3) by simp
      then show ?thesis using main_own.simps(4) by blast
    next
      case False
      show ?thesis
      proof (cases "list_all over (sessions s)")
        case True
        then have "mstep forced Wait_over s \<noteq> None" using wait False by simp
        then show ?thesis using main_own.simps(3) by blast
      next
        case notover: False
        then obtain i where i: "i < length (sessions s)" "\<not> over (sessions s ! i)" by (auto simp: list_all_length)
        then have "\<not> blocked (sessions s ! i)" using assms(2) nth_mem unfolding main_done_def by blast
        moreover have "cinv (sessions s ! i)" using inv(1) i(1) by (simp add: main_inv_def list_all_length)
        ultimately obtain e where "cown e" "cstep True e (sessions s ! i) \<noteq> None" using cstep_possible i(2) by blast
        then have "main_own cown (Session i e)" "mstep forced (Session i e) s \<noteq> None" using i(1) inv(2,3) by auto
        then show ?thesis by blast
      qed
    qed
  qed
qed

lemma main_draining: "draining (mstep forced) (main_own cown) leaving (main_weight cweight) main_done"
  by unfold_locales (blast intro: leaving_step leaving_lighter leaving_possible)+

text \<open>From the cancellation on, \<open>main\<close> drains.\<close>

lemma main_drains:
  "run_steps (mstep forced) as main_start = Some s \<Longrightarrow> ctx_done s \<Longrightarrow> main_at s \<noteq> Panicked \<Longrightarrow>
   drains (mstep forced) (main_own cown) s main_done"
  using draining.drains [OF main_draining] main_reachable unfolding leaving_def by blast

end

end
