(* ===== verification/SmokeTest.thy ===== *)
theory SmokeTest
  imports MainLoop "HOL-Library.Sublist"
begin

text \<open>
  The echo server (\<open>0-smoke-test/main.go\<close>): per connection one goroutine copies from the connection into an
  \<open>io.Pipe\<close>, one copies from the pipe to the connection, and one closes the connection when the context is
  done. A read of the connection gives a piece of any size, a read of the pipe takes any part of what is
  being written to it, and a write to the pipe returns when all of it has been taken.

  Shown: what is written back is always a beginning of what was received; a client that only ends its
  side gets everything back; \<open>main\<close> returns after a signal, whatever the clients do; and the copying
  goroutine can stay behind for good when a write to the connection fails, since nobody closes the
  reading end of the pipe.
\<close>

datatype copier_pc = Copy_read | Copy_write string | Copy_done

datatype echo_pc = Echo_read | Echo_write string | Echo_over

text \<open>
  \<open>unread\<close> is what has arrived and was not read yet, \<open>taken\<close> what the reads have given, \<open>echoed\<close> what was
  written back; \<open>e_closing\<close> says whether the closing goroutine still waits.
\<close>

record echo_conn =
  e_cancelled :: bool
  e_open :: bool
  e_closing :: bool
  unread :: string
  e_ended :: bool
  e_reset :: bool
  taken :: string
  copier :: copier_pc
  pipe_closed :: bool
  echo_at :: echo_pc
  echoed :: string

definition new_echo :: echo_conn where
  "new_echo =
     \<lparr>e_cancelled = False, e_open = True, e_closing = True, unread = [], e_ended = False, e_reset = False, taken = [],
      copier = Copy_read, pipe_closed = False, echo_at = Echo_read, echoed = []\<rparr>"

datatype echo_event =
  Sends string
| Ends
| Resets
| Echo_closes
| Conn_read nat
| Pipe_read nat
| Conn_write

text \<open>
  A piece of length \<open>n\<close> is moved. The main goroutine of the connection returns when the pipe is at its
  end or a write fails; its deferred calls cancel the context and close the connection.
\<close>

definition echo_return :: "echo_conn \<Rightarrow> echo_conn" where
  "echo_return c = c\<lparr>echo_at := Echo_over, e_cancelled := True, e_open := False\<rparr>"

fun echo_step :: "bool \<Rightarrow> echo_event \<Rightarrow> echo_conn \<Rightarrow> echo_conn option" where
  "echo_step base (Sends bs) c = (if e_ended c then None else Some (c\<lparr>unread := unread c @ bs\<rparr>))"
| "echo_step base Ends c = Some (c\<lparr>e_ended := True\<rparr>)"
| "echo_step base Resets c = Some (c\<lparr>e_ended := True, e_reset := True\<rparr>)"
| "echo_step base Echo_closes c =
     (if e_closing c \<and> (base \<or> e_cancelled c) then Some (c\<lparr>e_open := False, e_closing := False\<rparr>) else None)"
| "echo_step base (Conn_read n) c =
     (if copier c \<noteq> Copy_read then None
      else if \<not> e_open c \<or> e_reset c then Some (c\<lparr>copier := Copy_done, pipe_closed := True\<rparr>)
      else if 0 < n \<and> n \<le> length (unread c) then
        Some (c\<lparr>copier := Copy_write (take n (unread c)), taken := taken c @ take n (unread c), unread := drop n (unread c)\<rparr>)
      else if unread c = [] \<and> e_ended c then Some (c\<lparr>copier := Copy_done, pipe_closed := True\<rparr>)
      else None)"
| "echo_step base (Pipe_read n) c =
     (if echo_at c \<noteq> Echo_read then None
      else case copier c of
             Copy_write bs \<Rightarrow>
               if 0 < n \<and> n \<le> length bs
               then Some (c\<lparr>echo_at := Echo_write (take n bs), copier := (if n = length bs then Copy_read else Copy_write (drop n bs))\<rparr>)
               else None
           | _ \<Rightarrow> if pipe_closed c then Some (echo_return c) else None)"
| "echo_step base Conn_write c =
     (case echo_at c of
        Echo_write bs \<Rightarrow>
          if \<not> e_open c \<or> e_reset c then Some (echo_return c)
          else Some (c\<lparr>echo_at := Echo_read, echoed := echoed c @ bs\<rparr>)
      | _ \<Rightarrow> None)"

fun echo_own :: "echo_event \<Rightarrow> bool" where
  "echo_own (Sends bs) = False"
| "echo_own Ends = False"
| "echo_own Resets = False"
| "echo_own _ = True"

definition echo_over :: "echo_conn \<Rightarrow> bool" where
  "echo_over c \<longleftrightarrow> echo_at c = Echo_over"

definition echo_main_step :: "echo_event main_event \<Rightarrow> echo_conn main_state \<Rightarrow> echo_conn main_state option" where
  "echo_main_step = main_step False echo_step new_echo echo_over"

text \<open>What is in flight between a read of the connection and the write back.\<close>

definition in_flight :: "echo_conn \<Rightarrow> string" where
  "in_flight c =
     (case echo_at c of Echo_write bs \<Rightarrow> bs | _ \<Rightarrow> []) @ (case copier c of Copy_write bs \<Rightarrow> bs | _ \<Rightarrow> [])"

definition echo_inv :: "echo_conn \<Rightarrow> bool" where
  "echo_inv c \<longleftrightarrow>
     (if echo_at c = Echo_over then prefix (echoed c) (taken c) else taken c = echoed c @ in_flight c) \<and>
     (copier c = Copy_done \<longrightarrow> pipe_closed c) \<and> (pipe_closed c \<longrightarrow> copier c = Copy_done) \<and>
     (copier c \<noteq> Copy_write []) \<and> (echo_at c \<noteq> Echo_write []) \<and>
     (e_open c \<longrightarrow> e_closing c)"

definition echo_weight :: "echo_conn \<Rightarrow> nat" where
  "echo_weight c =
     4 * length (unread c) + (case copier c of Copy_write bs \<Rightarrow> 3 * length bs | _ \<Rightarrow> 0) +
     (case copier c of Copy_done \<Rightarrow> 0 | _ \<Rightarrow> 1) +
     (case echo_at c of Echo_write bs \<Rightarrow> 2 | Echo_read \<Rightarrow> 1 | Echo_over \<Rightarrow> 0) +
     (if e_closing c then 1 else 0)"

lemma echo_step_inv:
  assumes "echo_inv c" "echo_step b e c = Some d"
  shows "echo_inv d"
proof (cases "echo_at c = Echo_over")
  case True
  then show ?thesis using assms
    by (cases "copier c"; cases e) (auto simp: echo_inv_def echo_return_def split: if_splits)
next
  case False
  then have c: "taken c = echoed c @ in_flight c" "copier c = Copy_done \<longleftrightarrow> pipe_closed c" "copier c \<noteq> Copy_write []"
      "echo_at c \<noteq> Echo_write []" "e_open c \<longrightarrow> e_closing c"
    using assms(1) by (auto simp: echo_inv_def)
  show ?thesis
  proof (cases e)
    case (Conn_read n)
    then show ?thesis using c assms(2) False
      by (cases "copier c") (auto simp: echo_inv_def in_flight_def split: if_splits)
  next
    case (Pipe_read n)
    then have r: "echo_at c = Echo_read" using assms(2) by (auto split: if_splits)
    show ?thesis
    proof (cases "copier c")
      case (Copy_write bs)
      then have d: "0 < n" "n \<le> length bs" "d = c\<lparr>echo_at := Echo_write (take n bs),
          copier := (if n = length bs then Copy_read else Copy_write (drop n bs))\<rparr>"
        using assms(2) Pipe_read r by (auto split: if_splits)
      show ?thesis using c r Copy_write d(1,2) unfolding d(3) by (simp add: echo_inv_def in_flight_def)
    qed (use c assms(2) Pipe_read r in \<open>auto simp: echo_inv_def echo_return_def in_flight_def split: if_splits\<close>)
  next
    case Conn_write
    then show ?thesis using c assms(2) False
      by (cases "echo_at c") (auto simp: echo_inv_def echo_return_def in_flight_def split: if_splits)
  qed (use c assms(2) False in \<open>auto simp: echo_inv_def in_flight_def split: if_splits\<close>)
qed

lemma echo_over_stays: "echo_over c \<Longrightarrow> echo_step b e c = Some d \<Longrightarrow> echo_over d"
  by (cases "copier c"; cases e) (auto simp: echo_over_def echo_return_def split: if_splits)

lemma three_more: "xs \<noteq> [] \<Longrightarrow> Suc 0 < 3 * length xs"
  by (cases xs) auto

lemma echo_lighter: "echo_own e \<Longrightarrow> echo_step True e c = Some d \<Longrightarrow> echo_weight d < echo_weight c"
proof (cases e)
  case (Conn_read n)
  assume "echo_step True e c = Some d"
  then show ?thesis using Conn_read by (auto simp: echo_weight_def min_def split: if_splits)
next
  case (Pipe_read n)
  assume "echo_step True e c = Some d"
  then show ?thesis using Pipe_read
    by (cases "copier c") (auto simp: echo_weight_def echo_return_def three_more split: if_splits)
next
  case Conn_write
  assume "echo_step True e c = Some d"
  then show ?thesis using Conn_write by (cases "echo_at c") (auto simp: echo_weight_def echo_return_def split: if_splits)
qed (auto simp: echo_weight_def split: if_splits)

lemma echo_possible:
  assumes "echo_inv c" "\<not> echo_over c"
  shows "\<exists>e. echo_own e \<and> echo_step True e c \<noteq> None"
proof (cases "e_closing c")
  case True
  then have "echo_step True Echo_closes c \<noteq> None" by simp
  then show ?thesis using echo_own.simps(4) by blast
next
  case False
  then have shut: "\<not> e_open c" using assms(1) by (auto simp: echo_inv_def)
  consider (w) bs where "echo_at c = Echo_write bs" | (r) "echo_at c = Echo_read"
    using assms(2) by (cases "echo_at c") (auto simp: echo_over_def)
  then show ?thesis
  proof cases
    case w
    then have "echo_step True Conn_write c \<noteq> None" using shut by simp
    then show ?thesis using echo_own.simps(7) by blast
  next
    case r
    consider "copier c = Copy_read" | (w) bs where "copier c = Copy_write bs" | "copier c = Copy_done" by (cases "copier c") auto
    then show ?thesis
    proof cases
      case 1
      then have "echo_step True (Conn_read 0) c \<noteq> None" using shut by simp
      then show ?thesis using echo_own.simps(5) by blast
    next
      case w
      then have "bs \<noteq> []" using assms(1) by (auto simp: echo_inv_def)
      then have "echo_step True (Pipe_read (length bs)) c \<noteq> None" using r w by simp
      then show ?thesis using echo_own.simps(6) by blast
    next
      case 3
      then have "echo_step True (Pipe_read 0) c \<noteq> None" using r assms(1) by (simp add: echo_inv_def)
      then show ?thesis using echo_own.simps(6) by blast
    qed
  qed
qed

interpretation echo: connection echo_step echo_own new_echo echo_inv echo_weight echo_over "\<lambda>c. False"
proof unfold_locales
  show "echo_inv new_echo" by (simp add: echo_inv_def new_echo_def in_flight_def)
qed (blast intro: echo_step_inv echo_over_stays echo_lighter echo_possible)+

section \<open>A client that only ends its side\<close>

fun sent_by :: "echo_event list \<Rightarrow> string" where
  "sent_by [] = []"
| "sent_by (Sends bs # es) = bs @ sent_by es"
| "sent_by (e # es) = sent_by es"

text \<open>Nothing fails as long as the context is not cancelled and the client does not reset.\<close>

definition echo_clean :: "echo_conn \<Rightarrow> bool" where
  "echo_clean c \<longleftrightarrow>
     \<not> e_reset c \<and>
     (pipe_closed c \<longrightarrow> unread c = [] \<and> e_ended c) \<and>
     (echo_at c \<noteq> Echo_over \<longrightarrow> e_open c \<and> \<not> e_cancelled c) \<and>
     (echo_at c = Echo_over \<longrightarrow> pipe_closed c \<and> echoed c = taken c)"

lemma echo_clean_step:
  assumes "echo_inv c" "echo_clean c" "e \<noteq> Resets" "echo_step False e c = Some d"
  shows "echo_clean d \<and> taken d @ unread d = taken c @ unread c @ sent_by [e]"
  using assms
proof (cases "copier c"; cases "echo_at c")
qed (cases e; auto simp: echo_clean_def echo_inv_def echo_return_def in_flight_def split: if_splits)+

lemma echo_clean_run:
  "echo_inv c \<Longrightarrow> echo_clean c \<Longrightarrow> Resets \<notin> set es \<Longrightarrow> run_steps (echo_step False) es c = Some d \<Longrightarrow>
   echo_clean d \<and> taken d @ unread d = taken c @ unread c @ sent_by es"
proof (induction es arbitrary: c)
  case (Cons e es)
  from Cons.prems(4) obtain u where u: "echo_step False e c = Some u" "run_steps (echo_step False) es u = Some d"
    by (rule run_steps_ConsE)
  have "e \<noteq> Resets" "Resets \<notin> set es" using Cons.prems(3) by auto
  then have 1: "echo_clean u" "taken u @ unread u = taken c @ unread c @ sent_by [e]"
    using echo_clean_step [OF Cons.prems(1,2) _ u(1)] by auto
  have "sent_by (e # es) = sent_by [e] @ sent_by es" by (cases e) auto
  then show ?case using Cons.IH [OF echo_step_inv [OF Cons.prems(1) u(1)] 1(1) \<open>Resets \<notin> set es\<close> u(2)] 1(2) by simp
qed simp

section \<open>Properties of the echo server\<close>

text \<open>
  C36: Whatever the clients do, when the signal comes and how the goroutines are scheduled, what a
  connection of the echo server has written back is a beginning of what was read from it; and a
  client that sends, then ends its side and keeps reading, gets back exactly what it sent.
\<close>

theorem smoke_echo:
  "(run_steps echo_main_step as main_start = Some s \<longrightarrow>
      (\<forall>c\<in>set (sessions s). prefix (echoed c) (taken c))) \<and>
   (run_steps (echo_step False) es new_echo = Some c \<and> Resets \<notin> set es \<and> echo_over c \<longrightarrow> echoed c = sent_by es)"
proof (intro conjI impI)
  assume "run_steps echo_main_step as main_start = Some s"
  then have "list_all echo_inv (sessions s)" using echo.main_reachable by (simp add: echo_main_step_def main_inv_def)
  then show "\<forall>c\<in>set (sessions s). prefix (echoed c) (taken c)" by (auto simp: list_all_iff echo_inv_def split: if_splits)
next
  assume a: "run_steps (echo_step False) es new_echo = Some c \<and> Resets \<notin> set es \<and> echo_over c"
  have "echo_clean new_echo" "taken new_echo @ unread new_echo = []" by (simp_all add: echo_clean_def new_echo_def)
  then have "echo_clean c \<and> taken c @ unread c = sent_by es"
    using echo_clean_run [OF echo.fresh_inv, of es c] a by (metis append_Nil append_assoc)
  then show "echoed c = sent_by es" using a by (auto simp: echo_clean_def echo_over_def)
qed

theorem smoke_echo_witness:
  "\<exists>c. run_steps (echo_step False) [Sends ''hello'', Conn_read 5, Pipe_read 2, Conn_write, Ends, Pipe_read 3, Conn_write, Conn_read 1,
      Pipe_read 1] new_echo = Some c \<and> echoed c = ''hello''"
proof -
  let ?es = "[Sends ''hello'', Conn_read 5, Pipe_read 2, Conn_write, Ends, Pipe_read 3, Conn_write, Conn_read 1, Pipe_read 1]"
  obtain c where c: "run_steps (echo_step False) ?es new_echo = Some c" "echo_over c"
    by (simp add: new_echo_def echo_return_def echo_over_def)
  have "Resets \<notin> set ?es" "sent_by ?es = ''hello''" by simp_all
  then have "echoed c = ''hello''" using smoke_echo [of "[]" main_start ?es c] c by auto
  then show ?thesis using c(1) by blast
qed

text \<open>
  When a write to the connection fails while the copying goroutine still writes to the pipe, that
  goroutine waits for good: the reading end of the pipe is never closed. (It is not in the wait
  group, so \<open>main\<close> still returns.)
\<close>

theorem smoke_copier_leaks:
  assumes "echo_over c" "copier c = Copy_write bs" "run_steps (echo_step base) es c = Some d"
  shows "copier d = Copy_write bs"
  using assms
proof (induction es arbitrary: c)
  case (Cons e es)
  from Cons.prems(3) obtain u where u: "echo_step base e c = Some u" "run_steps (echo_step base) es u = Some d"
    by (rule run_steps_ConsE)
  have "copier u = Copy_write bs" using Cons.prems(1,2) u(1) by (cases e) (auto simp: echo_over_def split: if_splits)
  then show ?case using Cons.IH [OF echo_over_stays [OF Cons.prems(1) u(1)] _ u(2)] by blast
qed simp

theorem smoke_copier_leaks_witness:
  "\<exists>c. run_steps (echo_step False) [Sends ''hello'', Conn_read 5, Pipe_read 2, Resets, Conn_write] new_echo = Some c \<and>
     (\<forall>es d. run_steps (echo_step True) es c = Some d \<longrightarrow> copier d = Copy_write ''llo'')"
proof -
  let ?es = "[Sends ''hello'', Conn_read 5, Pipe_read 2, Resets, Conn_write]"
  obtain c where c: "run_steps (echo_step False) ?es new_echo = Some c" "echo_over c" "copier c = Copy_write ''llo''"
    by (simp add: new_echo_def echo_return_def echo_over_def)
  from smoke_copier_leaks [OF c(2,3)] show ?thesis using c(1) by blast
qed

end
