(* ===== verification/MobConn.thy ===== *)
theory MobConn
  imports SmokeTest
begin

text \<open>
  The goroutine of a connection of \<open>5-mob-in-the-middle/main.go\<close>: it dials the chat server and starts four
  forwarding goroutines, two for each direction with an \<open>io.Pipe\<close> between them, and one that closes both
  connections when the context is done. Each forwarding goroutine cancels the context when it ends and
  closes its end of the pipe. What a forwarding goroutine does with the bytes is modelled in \<open>MobProxy\<close>;
  here a line is a unit, and a write to a pipe is the hand-over of a line.

  Shown: as soon as one of the four goroutines has ended, for whatever reason, the whole connection ends,
  however the goroutines are scheduled and without help from the client or the chat server; and so it
  does when \<open>main\<close> cancels the server's context.
\<close>

datatype fwd_pc = F_check | F_read | F_write | F_done

text \<open>
  One direction: the goroutine that reads from a connection and writes to the pipe, and the one that
  reads from the pipe and writes to the other connection. \<open>lines_in\<close> counts lines that have arrived.
\<close>

record direction =
  rd_at :: fwd_pc
  wr_at :: fwd_pc
  lines_in :: nat
  src_ended :: bool
  src_reset :: bool
  dst_reset :: bool

definition new_direction :: direction where
  "new_direction = \<lparr>rd_at = F_check, wr_at = F_check, lines_in = 0, src_ended = False, src_reset = False, dst_reset = False\<rparr>"

datatype fwd_event =
  Line_arrives
| Source_ends
| Source_resets
| Sink_resets
| Read_checks
| Read_line
| Hands_over
| Pipe_broken
| Write_checks
| Pipe_ended
| Write_line

text \<open>\<open>ctx\<close> is whether the context of the connection is done, \<open>open\<close> whether the two connections are open.\<close>

fun forward_step :: "bool \<Rightarrow> bool \<Rightarrow> fwd_event \<Rightarrow> direction \<Rightarrow> direction option" where
  "forward_step ctx open Line_arrives d = (if src_ended d then None else Some (d\<lparr>lines_in := Suc (lines_in d)\<rparr>))"
| "forward_step ctx open Source_ends d = Some (d\<lparr>src_ended := True\<rparr>)"
| "forward_step ctx open Source_resets d = Some (d\<lparr>src_ended := True, src_reset := True\<rparr>)"
| "forward_step ctx open Sink_resets d = Some (d\<lparr>dst_reset := True\<rparr>)"
| "forward_step ctx open Read_checks d =
     (if rd_at d = F_check then Some (d\<lparr>rd_at := (if ctx then F_done else F_read)\<rparr>) else None)"
| "forward_step ctx open Read_line d =
     (if rd_at d \<noteq> F_read then None
      else if \<not> open \<or> src_reset d then Some (d\<lparr>rd_at := F_done\<rparr>)
      else if 0 < lines_in d then Some (d\<lparr>rd_at := F_write, lines_in := lines_in d - 1\<rparr>)
      else if src_ended d then Some (d\<lparr>rd_at := F_done\<rparr>)
      else None)"
| "forward_step ctx open Hands_over d =
     (if rd_at d = F_write \<and> wr_at d = F_read then Some (d\<lparr>rd_at := F_check, wr_at := F_write\<rparr>) else None)"
| "forward_step ctx open Pipe_broken d =
     (if rd_at d = F_write \<and> wr_at d = F_done then Some (d\<lparr>rd_at := F_done\<rparr>) else None)"
| "forward_step ctx open Write_checks d =
     (if wr_at d = F_check then Some (d\<lparr>wr_at := (if ctx then F_done else F_read)\<rparr>) else None)"
| "forward_step ctx open Pipe_ended d =
     (if wr_at d = F_read \<and> rd_at d = F_done then Some (d\<lparr>wr_at := F_done\<rparr>) else None)"
| "forward_step ctx open Write_line d =
     (if wr_at d \<noteq> F_write then None
      else Some (d\<lparr>wr_at := (if \<not> open \<or> dst_reset d then F_done else F_check)\<rparr>))"

fun forward_own :: "fwd_event \<Rightarrow> bool" where
  "forward_own Line_arrives = False"
| "forward_own Source_ends = False"
| "forward_own Source_resets = False"
| "forward_own Sink_resets = False"
| "forward_own _ = True"

definition forwarded :: "direction \<Rightarrow> bool" where
  "forwarded d \<longleftrightarrow> rd_at d = F_done \<and> wr_at d = F_done"

definition some_done :: "direction \<Rightarrow> bool" where
  "some_done d \<longleftrightarrow> rd_at d = F_done \<or> wr_at d = F_done"

record mob_conn =
  mob_cancelled :: bool
  mob_open :: bool
  mob_closing :: bool
  dialled :: bool
  cts :: direction
  stc :: direction
  mob_returned :: bool

definition new_mob :: mob_conn where
  "new_mob =
     \<lparr>mob_cancelled = False, mob_open = True, mob_closing = False, dialled = False, cts = new_direction, stc = new_direction,
      mob_returned = False\<rparr>"

datatype mob_event = Dial bool | Mob_closes | Cts fwd_event | Stc fwd_event | All_forwarded

text \<open>A forwarding goroutine that ends cancels the context.\<close>

definition after_forward :: "mob_conn \<Rightarrow> mob_conn" where
  "after_forward c = c\<lparr>mob_cancelled := mob_cancelled c \<or> some_done (cts c) \<or> some_done (stc c)\<rparr>"

fun mob_step :: "bool \<Rightarrow> mob_event \<Rightarrow> mob_conn \<Rightarrow> mob_conn option" where
  "mob_step base (Dial ok) c =
     (if dialled c \<or> mob_returned c then None
      else if ok then Some (c\<lparr>dialled := True, mob_closing := True\<rparr>)
      else Some (c\<lparr>mob_returned := True, mob_cancelled := True\<rparr>))"
| "mob_step base Mob_closes c =
     (if mob_closing c \<and> (base \<or> mob_cancelled c) then Some (c\<lparr>mob_open := False, mob_closing := False\<rparr>) else None)"
| "mob_step base (Cts e) c =
     (if dialled c
      then map_option (\<lambda>d. after_forward (c\<lparr>cts := d\<rparr>)) (forward_step (base \<or> mob_cancelled c) (mob_open c) e (cts c)) else None)"
| "mob_step base (Stc e) c =
     (if dialled c
      then map_option (\<lambda>d. after_forward (c\<lparr>stc := d\<rparr>)) (forward_step (base \<or> mob_cancelled c) (mob_open c) e (stc c)) else None)"
| "mob_step base All_forwarded c =
     (if dialled c \<and> \<not> mob_returned c \<and> forwarded (cts c) \<and> forwarded (stc c)
      then Some (c\<lparr>mob_returned := True, mob_cancelled := True\<rparr>) else None)"

fun mob_own :: "mob_event \<Rightarrow> bool" where
  "mob_own (Cts e) = forward_own e"
| "mob_own (Stc e) = forward_own e"
| "mob_own _ = True"

definition mob_main_step :: "mob_event main_event \<Rightarrow> mob_conn main_state \<Rightarrow> mob_conn main_state option" where
  "mob_main_step = main_step False mob_step new_mob mob_returned"

definition forward_weight :: "direction \<Rightarrow> nat" where
  "forward_weight d =
     (case rd_at d of F_read \<Rightarrow> 6 | F_write \<Rightarrow> 5 | F_check \<Rightarrow> 1 | F_done \<Rightarrow> 0) +
     (case wr_at d of F_write \<Rightarrow> 3 | F_read \<Rightarrow> 2 | F_check \<Rightarrow> 1 | F_done \<Rightarrow> 0)"

definition mob_weight :: "mob_conn \<Rightarrow> nat" where
  "mob_weight c =
     forward_weight (cts c) + forward_weight (stc c) + (if dialled c \<or> mob_returned c then 0 else 2) +
     (if mob_closing c then 1 else 0) + (if mob_returned c then 0 else 1)"

definition mob_inv :: "mob_conn \<Rightarrow> bool" where
  "mob_inv c \<longleftrightarrow>
     (dialled c \<longrightarrow> mob_closing c \<or> \<not> mob_open c) \<and>
     (\<not> dialled c \<longrightarrow> mob_open c \<and> \<not> mob_closing c) \<and>
     (mob_returned c \<longrightarrow> mob_cancelled c \<and> (dialled c \<longrightarrow> forwarded (cts c) \<and> forwarded (stc c))) \<and>
     (some_done (cts c) \<or> some_done (stc c) \<longrightarrow> mob_cancelled c)"

lemma forward_lighter: "forward_own e \<Longrightarrow> forward_step True open e d = Some d' \<Longrightarrow> forward_weight d' < forward_weight d"
  by (cases e) (auto simp: forward_weight_def split: if_splits)

lemma forward_possible:
  assumes "\<not> forwarded d"
  shows "\<exists>e. forward_own e \<and> forward_step True False e d \<noteq> None"
proof (cases "rd_at d")
  case F_check
  then have "forward_step True False Read_checks d \<noteq> None" by simp
  then show ?thesis using forward_own.simps(5) by blast
next
  case F_read
  then have "forward_step True False Read_line d \<noteq> None" by simp
  then show ?thesis using forward_own.simps(6) by blast
next
  case r: F_write
  have "forward_step True False Write_checks d \<noteq> None" if "wr_at d = F_check" using that by simp
  moreover have "forward_step True False Hands_over d \<noteq> None" if "wr_at d = F_read" using that r by simp
  moreover have "forward_step True False Write_line d \<noteq> None" if "wr_at d = F_write" using that by simp
  moreover have "forward_step True False Pipe_broken d \<noteq> None" if "wr_at d = F_done" using that r by simp
  ultimately show ?thesis using forward_own.simps(7,8,9,11) by (cases "wr_at d") blast+
next
  case r: F_done
  then have "wr_at d \<noteq> F_done" using assms by (simp add: forwarded_def)
  moreover have "forward_step True False Write_checks d \<noteq> None" if "wr_at d = F_check" using that by simp
  moreover have "forward_step True False Pipe_ended d \<noteq> None" if "wr_at d = F_read" using that r by simp
  moreover have "forward_step True False Write_line d \<noteq> None" if "wr_at d = F_write" using that by simp
  ultimately show ?thesis using forward_own.simps(9,10,11) by (cases "wr_at d") blast+
qed

lemma forwarded_stays: "forwarded d \<Longrightarrow> forward_step ctx open e d = Some d' \<Longrightarrow> forwarded d'"
  by (cases e) (auto simp: forwarded_def split: if_splits)

lemma mob_inv_step: "mob_inv c \<Longrightarrow> mob_step b e c = Some c' \<Longrightarrow> mob_inv c'"
proof (cases e)
  case (Cts f)
  assume inv: "mob_inv c" and step: "mob_step b e c = Some c'"
  then obtain d where d: "dialled c" "forward_step (b \<or> mob_cancelled c) (mob_open c) f (cts c) = Some d"
      "c' = after_forward (c\<lparr>cts := d\<rparr>)" using Cts by (auto split: if_splits)
  show ?thesis using inv d(1) forwarded_stays [OF _ d(2)] unfolding d(3) by (simp add: mob_inv_def after_forward_def)
next
  case (Stc f)
  assume inv: "mob_inv c" and step: "mob_step b e c = Some c'"
  then obtain d where d: "dialled c" "forward_step (b \<or> mob_cancelled c) (mob_open c) f (stc c) = Some d"
      "c' = after_forward (c\<lparr>stc := d\<rparr>)" using Stc by (auto split: if_splits)
  show ?thesis using inv d(1) forwarded_stays [OF _ d(2)] unfolding d(3) by (simp add: mob_inv_def after_forward_def)
qed (auto simp: mob_inv_def split: if_splits)

lemma mob_returned_stays: "mob_returned c \<Longrightarrow> mob_step b e c = Some c' \<Longrightarrow> mob_returned c'"
  by (cases e) (auto simp: after_forward_def split: if_splits)

text \<open>Once the context of the connection is done, by \<open>main\<close> or by itself.\<close>

lemma mob_lighter:
  assumes "b \<or> mob_cancelled c" "mob_own e" "mob_step b e c = Some c'"
  shows "mob_weight c' < mob_weight c"
proof (cases e)
  case (Cts f)
  then show ?thesis using assms forward_lighter [of f "mob_open c" "cts c"]
    by (auto simp: mob_weight_def after_forward_def split: if_splits)
next
  case (Stc f)
  then show ?thesis using assms forward_lighter [of f "mob_open c" "stc c"]
    by (auto simp: mob_weight_def after_forward_def split: if_splits)
qed (use assms in \<open>auto simp: mob_weight_def split: if_splits\<close>)

lemma mob_possible:
  assumes "mob_inv c" "\<not> mob_returned c" "b \<or> mob_cancelled c"
  shows "\<exists>e. mob_own e \<and> mob_step b e c \<noteq> None"
proof (cases "dialled c")
  case False
  then have "mob_step b (Dial True) c \<noteq> None" using assms(2) by simp
  then show ?thesis using mob_own.simps(3) by blast
next
  case dial: True
  show ?thesis
  proof (cases "mob_closing c")
    case True
    then have "mob_step b Mob_closes c \<noteq> None" using assms(3) by simp
    then show ?thesis using mob_own.simps(4) by blast
  next
    case False
    then have shut: "mob_open c = False" "(b \<or> mob_cancelled c) = True" using assms dial by (auto simp: mob_inv_def)
    consider "\<not> forwarded (cts c)" | "\<not> forwarded (stc c)" | (all) "forwarded (cts c)" "forwarded (stc c)" by blast
    then show ?thesis
    proof cases
      case 1
      then obtain f where "forward_own f" "forward_step True False f (cts c) \<noteq> None" using forward_possible by blast
      then have "mob_own (Cts f)" "mob_step b (Cts f) c \<noteq> None" using dial by (simp_all add: shut)
      then show ?thesis by blast
    next
      case 2
      then obtain f where "forward_own f" "forward_step True False f (stc c) \<noteq> None" using forward_possible by blast
      then have "mob_own (Stc f)" "mob_step b (Stc f) c \<noteq> None" using dial by (simp_all add: shut)
      then show ?thesis by blast
    next
      case all
      then have "mob_step b All_forwarded c \<noteq> None" using dial assms(2) by simp
      then show ?thesis using mob_own.simps(5) by blast
    qed
  qed
qed

interpretation mob: connection mob_step mob_own new_mob mob_inv mob_weight mob_returned "\<lambda>c. False"
proof unfold_locales
  show "mob_inv new_mob" by (simp add: mob_inv_def new_mob_def some_done_def new_direction_def)
qed (blast intro: mob_inv_step mob_returned_stays mob_lighter mob_possible)+

lemma mob_cancelled_stays: "mob_cancelled c \<Longrightarrow> mob_step b e c = Some c' \<Longrightarrow> mob_cancelled c'"
  by (cases e) (auto simp: after_forward_def split: if_splits)

interpretation mob_alone: draining "mob_step b" mob_own "\<lambda>c. mob_inv c \<and> mob_cancelled c" mob_weight mob_returned for b
  by unfold_locales (blast intro: mob_inv_step mob_cancelled_stays mob_lighter mob_possible)+

lemma mob_run_inv: "mob_inv c \<Longrightarrow> run_steps (mob_step b) es c = Some d \<Longrightarrow> mob_inv d"
  by (induction es arbitrary: c) (auto intro: mob_inv_step split: option.splits)

section \<open>Properties of a connection and of the mains\<close>

text \<open>
  C37: As soon as one of the four forwarding goroutines of a proxied connection has ended, because a side
  closed its connection, a read or a write failed, or the context was cancelled, the remaining
  goroutines end after a bounded number of steps, however they are scheduled and although neither
  the client nor the chat server does anything, and then the goroutine of the connection returns.
\<close>

theorem mob_side_ends_all:
  assumes "run_steps (mob_step base) es new_mob = Some c" "some_done (cts c) \<or> some_done (stc c)"
  shows "drains (mob_step base) mob_own c mob_returned"
proof -
  have inv: "mob_inv c" using mob_run_inv mob.fresh_inv assms(1) by blast
  then have "mob_cancelled c" using assms(2) by (simp add: mob_inv_def)
  then show ?thesis using mob_alone.drains inv by blast
qed

theorem mob_side_ends_all_witness:
  "\<exists>c. run_steps (mob_step False) [Dial True, Cts Read_checks, Stc Read_checks, Cts Line_arrives, Cts Read_line, Cts Source_ends,
      Stc Sink_resets, Cts Write_checks, Cts Hands_over, Cts Read_checks, Cts Read_line] new_mob = Some c \<and>
    drains (mob_step False) mob_own c mob_returned"
proof -
  let ?es = "[Dial True, Cts Read_checks, Stc Read_checks, Cts Line_arrives, Cts Read_line, Cts Source_ends,
      Stc Sink_resets, Cts Write_checks, Cts Hands_over, Cts Read_checks, Cts Read_line]"
  obtain c where c: "run_steps (mob_step False) ?es new_mob = Some c" "some_done (cts c)"
    by (simp add: new_mob_def new_direction_def after_forward_def some_done_def)
  from mob_side_ends_all [OF c(1)] c show ?thesis by blast
qed

end
