(* ===== verification/MainPrograms.thy ===== *)
theory MainPrograms
  imports MobConn
begin

text \<open>
  The goroutines of a connection of \<open>1-prime-time/main.go\<close>, \<open>2-means-to-an-end/main.go\<close> and
  \<open>6-speed-daemon\<close> (\<open>main.go\<close>, \<open>Session.Start\<close> in \<open>session.go\<close>), and the programs around them as instances of
  \<open>MainLoop\<close>. What they do with a request is modelled in \<open>PrimeTime\<close>, \<open>MeansSession\<close> and \<open>SpeedDaemon\<close>; here
  a request is one that is answered, one that is not, or a malformed one.

  Shown: after a signal, \<open>main\<close> of each program returns, however the goroutines are scheduled and whatever
  the clients do, and then every connection is over; for the speed daemon unless a camera's session is
  stuck in sending a ticket into a full channel.
\<close>

section \<open>Request loops\<close>

datatype sess_item = Ask | Tell | Malformed | Hangup

datatype sess_pc = Awaits | Replies bool | Ended

record req_conn =
  rq_cancelled :: bool
  rq_open :: bool
  rq_closing :: bool
  rq_reset :: bool
  rq_inbox :: "sess_item list"
  rq_at :: sess_pc

definition new_req_conn :: req_conn where
  "new_req_conn =
     \<lparr>rq_cancelled = False, rq_open = True, rq_closing = True, rq_reset = False, rq_inbox = [], rq_at = Awaits\<rparr>"

datatype sess_event = Item_arrives sess_item | Client_reset | Rq_closes | Rq_reads | Rq_replies

definition rq_return :: "req_conn \<Rightarrow> req_conn" where
  "rq_return c = c\<lparr>rq_at := Ended, rq_cancelled := True, rq_open := False\<rparr>"

text \<open>\<open>refusal\<close>: whether a malformed request is answered before the session ends.\<close>

fun req_step :: "bool \<Rightarrow> bool \<Rightarrow> sess_event \<Rightarrow> req_conn \<Rightarrow> req_conn option" where
  "req_step refusal base (Item_arrives x) c = Some (c\<lparr>rq_inbox := rq_inbox c @ [x]\<rparr>)"
| "req_step refusal base Client_reset c = Some (c\<lparr>rq_reset := True\<rparr>)"
| "req_step refusal base Rq_closes c =
     (if rq_closing c \<and> (base \<or> rq_cancelled c) then Some (c\<lparr>rq_open := False, rq_closing := False\<rparr>) else None)"
| "req_step refusal base Rq_reads c =
     (if rq_at c \<noteq> Awaits then None
      else if \<not> rq_open c \<or> rq_reset c then Some (rq_return c)
      else case rq_inbox c of
             [] \<Rightarrow> None
           | x # rest \<Rightarrow>
               Some (case x of
                       Ask \<Rightarrow> c\<lparr>rq_inbox := rest, rq_at := Replies True\<rparr>
                     | Tell \<Rightarrow> c\<lparr>rq_inbox := rest\<rparr>
                     | Malformed \<Rightarrow> if refusal then c\<lparr>rq_inbox := rest, rq_at := Replies False\<rparr> else rq_return c
                     | Hangup \<Rightarrow> rq_return c))"
| "req_step refusal base Rq_replies c =
     (case rq_at c of
        Replies go_on \<Rightarrow>
          if rq_open c \<and> \<not> rq_reset c \<and> go_on then Some (c\<lparr>rq_at := Awaits\<rparr>) else Some (rq_return c)
      | _ \<Rightarrow> None)"

fun sess_own :: "sess_event \<Rightarrow> bool" where
  "sess_own (Item_arrives x) = False"
| "sess_own Client_reset = False"
| "sess_own _ = True"

definition req_over :: "req_conn \<Rightarrow> bool" where
  "req_over c \<longleftrightarrow> rq_at c = Ended"

definition req_inv :: "req_conn \<Rightarrow> bool" where
  "req_inv c \<longleftrightarrow> (rq_open c \<longrightarrow> rq_closing c)"

definition req_weight :: "req_conn \<Rightarrow> nat" where
  "req_weight c =
     2 * length (rq_inbox c) + (case rq_at c of Replies b \<Rightarrow> 2 | Awaits \<Rightarrow> 1 | Ended \<Rightarrow> 0) + (if rq_closing c then 1 else 0)"

lemma req_possible:
  assumes "req_inv c" "\<not> req_over c"
  shows "\<exists>e. sess_own e \<and> req_step refusal True e c \<noteq> None"
proof (cases "rq_closing c")
  case True
  then have "req_step refusal True Rq_closes c \<noteq> None" by simp
  then show ?thesis using sess_own.simps(3) by blast
next
  case False
  then have shut: "\<not> rq_open c" using assms(1) by (auto simp: req_inv_def)
  show ?thesis
  proof (cases "rq_at c")
    case Awaits
    then have "req_step refusal True Rq_reads c \<noteq> None" using shut by simp
    then show ?thesis using sess_own.simps(4) by blast
  next
    case (Replies b)
    then have "req_step refusal True Rq_replies c \<noteq> None" by simp
    then show ?thesis using sess_own.simps(5) by blast
  qed (use assms(2) in \<open>simp add: req_over_def\<close>)
qed

interpretation req: connection "req_step refusal" sess_own new_req_conn req_inv req_weight req_over "\<lambda>c. False" for refusal
proof unfold_locales
  fix b e c d
  show "req_inv new_req_conn" by (simp add: req_inv_def new_req_conn_def)
  show "req_inv c \<Longrightarrow> req_step refusal b e c = Some d \<Longrightarrow> req_inv d"
    by (cases e) (auto simp: req_inv_def rq_return_def split: if_splits list.splits sess_item.splits sess_pc.splits)
  show "req_over c \<Longrightarrow> req_step refusal b e c = Some d \<Longrightarrow> req_over d"
    by (cases e) (auto simp: req_over_def split: if_splits)
  show "sess_own e \<Longrightarrow> req_step refusal True e c = Some d \<Longrightarrow> req_weight d < req_weight c"
    by (cases e) (auto simp: req_weight_def rq_return_def split: if_splits list.splits sess_item.splits sess_pc.splits)
  show "req_inv c \<Longrightarrow> \<not> req_over c \<Longrightarrow> \<exists>e. sess_own e \<and> req_step refusal True e c \<noteq> None"
    by (rule req_possible)
qed

definition prime_main_step :: "sess_event main_event \<Rightarrow> req_conn main_state \<Rightarrow> req_conn main_state option" where
  "prime_main_step = main_step False (req_step True) new_req_conn req_over"

definition means_main_step :: "sess_event main_event \<Rightarrow> req_conn main_state \<Rightarrow> req_conn main_state option" where
  "means_main_step = main_step False (req_step False) new_req_conn req_over"

section \<open>Sessions of the speed daemon\<close>

datatype speed_item = Speed_plate | Speed_heartbeat | Speed_dispatcher nat | Speed_other | Speed_end

datatype speed_pc = Reads_msg | Sends_ticket | Sends_reply | Returning | Speed_over

text \<open>A listener of a road or a heartbeat: waiting in its \<open>select\<close>, or writing.\<close>

datatype helper_pc = H_waits | H_writes

text \<open>
  \<open>road_full\<close> says whether the ticket channel of the camera's road is full, which depends on other sessions;
  \<open>helpers\<close> are the goroutines that the session's wait group counts besides the closing one.
\<close>

record speed_conn =
  sp_cancelled :: bool
  sp_open :: bool
  sp_closing :: bool
  sp_reset :: bool
  sp_inbox :: "speed_item list"
  road_full :: bool
  helpers :: "helper_pc list"
  sp_at :: speed_pc

definition new_speed_conn :: speed_conn where
  "new_speed_conn =
     \<lparr>sp_cancelled = False, sp_open = True, sp_closing = True, sp_reset = False, sp_inbox = [], road_full = False,
      helpers = [], sp_at = Reads_msg\<rparr>"

datatype speed_event =
  Msg_arrives speed_item
| Sp_reset
| Road_changes bool
| Sp_closes
| Sp_reads
| Ticket_sent
| Reply_sent
| Helper_gets nat
| Helper_writes nat
| Helper_ends nat
| Start_returns

definition remove_nth :: "nat \<Rightarrow> 'a list \<Rightarrow> 'a list" where
  "remove_nth i xs = take i xs @ drop (Suc i) xs"

text \<open>
  A helper that waits may get a ticket or its timer to write, or find the context done (or be told to
  stop, or find its heartbeat superseded) and end; one that writes goes back to waiting, or ends when the
  write fails.
\<close>

fun speed_step :: "bool \<Rightarrow> speed_event \<Rightarrow> speed_conn \<Rightarrow> speed_conn option" where
  "speed_step base (Msg_arrives x) c = Some (c\<lparr>sp_inbox := sp_inbox c @ [x]\<rparr>)"
| "speed_step base Sp_reset c = Some (c\<lparr>sp_reset := True\<rparr>)"
| "speed_step base (Road_changes f) c = Some (c\<lparr>road_full := f\<rparr>)"
| "speed_step base Sp_closes c =
     (if sp_closing c \<and> (base \<or> sp_cancelled c) then Some (c\<lparr>sp_open := False, sp_closing := False\<rparr>) else None)"
| "speed_step base Sp_reads c =
     (if sp_at c \<noteq> Reads_msg then None
      else if \<not> sp_open c \<or> sp_reset c then Some (c\<lparr>sp_at := Returning, sp_cancelled := True\<rparr>)
      else case sp_inbox c of
             [] \<Rightarrow> None
           | x # rest \<Rightarrow>
               Some (case x of
                       Speed_plate \<Rightarrow> c\<lparr>sp_inbox := rest, sp_at := Sends_ticket\<rparr>
                     | Speed_heartbeat \<Rightarrow> c\<lparr>sp_inbox := rest, helpers := H_writes # helpers c\<rparr>
                     | Speed_dispatcher n \<Rightarrow> c\<lparr>sp_inbox := rest, helpers := replicate n H_waits @ helpers c\<rparr>
                     | Speed_other \<Rightarrow> c\<lparr>sp_inbox := rest, sp_at := Sends_reply\<rparr>
                     | Speed_end \<Rightarrow> c\<lparr>sp_at := Returning, sp_cancelled := True\<rparr>))"
| "speed_step base Ticket_sent c =
     (if sp_at c = Sends_ticket \<and> \<not> road_full c then Some (c\<lparr>sp_at := Reads_msg\<rparr>) else None)"
| "speed_step base Reply_sent c =
     (if sp_at c \<noteq> Sends_reply then None
      else if sp_open c \<and> \<not> sp_reset c then Some (c\<lparr>sp_at := Reads_msg\<rparr>)
      else Some (c\<lparr>sp_at := Returning, sp_cancelled := True\<rparr>))"
| "speed_step base (Helper_gets i) c =
     (if i < length (helpers c) \<and> helpers c ! i = H_waits then Some (c\<lparr>helpers := (helpers c)[i := H_writes]\<rparr>) else None)"
| "speed_step base (Helper_writes i) c =
     (if i < length (helpers c) \<and> helpers c ! i = H_writes \<and> sp_open c \<and> \<not> sp_reset c
      then Some (c\<lparr>helpers := (helpers c)[i := H_waits]\<rparr>) else None)"
| "speed_step base (Helper_ends i) c =
     (if i < length (helpers c) \<and> (helpers c ! i = H_writes \<longrightarrow> \<not> sp_open c \<or> sp_reset c)
      then Some (c\<lparr>helpers := remove_nth i (helpers c)\<rparr>) else None)"
| "speed_step base Start_returns c =
     (if sp_at c = Returning \<and> \<not> sp_closing c \<and> helpers c = [] then Some (c\<lparr>sp_at := Speed_over, sp_open := False\<rparr>) else None)"

fun speed_own :: "speed_event \<Rightarrow> bool" where
  "speed_own (Msg_arrives x) = False"
| "speed_own Sp_reset = False"
| "speed_own (Road_changes f) = False"
| "speed_own (Helper_gets i) = False"
| "speed_own _ = True"

definition speed_over :: "speed_conn \<Rightarrow> bool" where
  "speed_over c \<longleftrightarrow> sp_at c = Speed_over"

definition ticket_stuck :: "speed_conn \<Rightarrow> bool" where
  "ticket_stuck c \<longleftrightarrow> sp_at c = Sends_ticket \<and> road_full c"

definition speed_main_step :: "speed_event main_event \<Rightarrow> speed_conn main_state \<Rightarrow> speed_conn main_state option" where
  "speed_main_step = main_step True speed_step new_speed_conn speed_over"

definition speed_inv :: "speed_conn \<Rightarrow> bool" where
  "speed_inv c \<longleftrightarrow> (sp_open c \<longrightarrow> sp_closing c)"

fun item_weight :: "speed_item \<Rightarrow> nat" where
  "item_weight Speed_plate = 2"
| "item_weight Speed_heartbeat = 3"
| "item_weight (Speed_dispatcher n) = Suc n"
| "item_weight Speed_other = 2"
| "item_weight Speed_end = 1"

fun helper_weight :: "helper_pc \<Rightarrow> nat" where
  "helper_weight H_waits = 1"
| "helper_weight H_writes = 2"

fun speed_pc_weight :: "speed_pc \<Rightarrow> nat" where
  "speed_pc_weight Reads_msg = 2"
| "speed_pc_weight Sends_ticket = 3"
| "speed_pc_weight Sends_reply = 3"
| "speed_pc_weight Returning = 1"
| "speed_pc_weight Speed_over = 0"

definition speed_weight :: "speed_conn \<Rightarrow> nat" where
  "speed_weight c =
     sum_list (map item_weight (sp_inbox c)) + sum_list (map helper_weight (helpers c)) +
     speed_pc_weight (sp_at c) + (if sp_closing c then 1 else 0)"

lemma sum_list_remove_nth:
  "i < length xs \<Longrightarrow> sum_list (map f (remove_nth i xs)) + f (xs ! i) = sum_list (map f xs)" for f :: "'a \<Rightarrow> nat"
  using id_take_nth_drop [of i xs] by (simp add: remove_nth_def) (metis add.assoc add.commute list.simps(9) map_append sum_list.Cons sum_list.append)

lemma helper_weight_pos: "0 < helper_weight h"
  by (cases h) auto

lemma speed_lighter:
  assumes "speed_own e" "speed_step True e c = Some d"
  shows "speed_weight d < speed_weight c"
proof (cases e)
  case (Helper_ends i)
  then have i: "i < length (helpers c)" "d = c\<lparr>helpers := remove_nth i (helpers c)\<rparr>" using assms(2) by (auto split: if_splits)
  then show ?thesis using sum_list_remove_nth [OF i(1), of helper_weight] helper_weight_pos [of "helpers c ! i"]
    by (simp add: speed_weight_def)
next
  case (Helper_writes i)
  then have i: "i < length (helpers c)" "helpers c ! i = H_writes" "d = c\<lparr>helpers := (helpers c)[i := H_waits]\<rparr>"
    using assms(2) by (auto split: if_splits)
  then show ?thesis using sum_list_update_less [OF i(1), of helper_weight H_waits] by (simp add: speed_weight_def)
next
  case Sp_reads
  then show ?thesis using assms(2)
    by (auto simp: speed_weight_def sum_list_replicate split: if_splits list.splits speed_item.splits)
qed (use assms in \<open>auto simp: speed_weight_def split: if_splits\<close>)

lemma speed_possible:
  assumes "speed_inv c" "\<not> speed_over c" "\<not> ticket_stuck c"
  shows "\<exists>e. speed_own e \<and> speed_step True e c \<noteq> None"
proof (cases "sp_closing c")
  case True
  then have "speed_step True Sp_closes c \<noteq> None" by simp
  then show ?thesis using speed_own.simps(5) by blast
next
  case False
  then have shut: "\<not> sp_open c" using assms(1) by (auto simp: speed_inv_def)
  show ?thesis
  proof (cases "sp_at c")
    case Reads_msg
    then have "speed_step True Sp_reads c \<noteq> None" using shut by simp
    then show ?thesis using speed_own.simps(6) by blast
  next
    case Sends_ticket
    then have "speed_step True Ticket_sent c \<noteq> None" using assms(3) by (simp add: ticket_stuck_def)
    then show ?thesis using speed_own.simps(7) by blast
  next
    case Sends_reply
    then have "speed_step True Reply_sent c \<noteq> None" by simp
    then show ?thesis using speed_own.simps(8) by blast
  next
    case Returning
    show ?thesis
    proof (cases "helpers c = []")
      case True
      then have "speed_step True Start_returns c \<noteq> None" using Returning False by simp
      then show ?thesis using speed_own.simps(11) by blast
    next
      case False
      then have "speed_step True (Helper_ends 0) c \<noteq> None" using shut by simp
      then show ?thesis using speed_own.simps(10) by blast
    qed
  qed (use assms(2) in \<open>simp add: speed_over_def\<close>)
qed

interpretation speed: connection speed_step speed_own new_speed_conn speed_inv speed_weight speed_over ticket_stuck
proof unfold_locales
  fix b e c d
  show "speed_inv new_speed_conn" by (simp add: speed_inv_def new_speed_conn_def)
  show "speed_inv c \<Longrightarrow> speed_step b e c = Some d \<Longrightarrow> speed_inv d"
    by (cases e) (auto simp: speed_inv_def split: if_splits list.splits speed_item.splits)
  show "speed_over c \<Longrightarrow> speed_step b e c = Some d \<Longrightarrow> speed_over d"
    by (cases e) (auto simp: speed_over_def split: if_splits)
  show "speed_own e \<Longrightarrow> speed_step True e c = Some d \<Longrightarrow> speed_weight d < speed_weight c" by (rule speed_lighter)
  show "speed_inv c \<Longrightarrow> \<not> speed_over c \<Longrightarrow> \<not> ticket_stuck c \<Longrightarrow> \<exists>e. speed_own e \<and> speed_step True e c \<noteq> None"
    by (rule speed_possible)
qed

section \<open>Properties of the programs\<close>

text \<open>
  C38: After a signal, once the context is cancelled, the mains of the smoke test, the prime server, the
  means server and the proxy return after a bounded number of steps of their own, however these are
  scheduled and although no client does anything; and whenever a main has returned, its accepting
  goroutine is gone, its listener closed and every connection that was ever accepted is over.
\<close>

theorem mains_return:
  assumes "run_steps echo_main_step es main_start = Some s" "ctx_done s" "run_steps prime_main_step ps main_start = Some t" "ctx_done t"
    and "run_steps means_main_step ns main_start = Some u" "ctx_done u" "run_steps mob_main_step ms main_start = Some v" "ctx_done v"
  shows "drains echo_main_step (main_own echo_own) s (main_returned echo_over) \<and>
    drains prime_main_step (main_own sess_own) t (main_returned req_over) \<and>
    drains means_main_step (main_own sess_own) u (main_returned req_over) \<and>
    drains mob_main_step (main_own mob_own) v (main_returned mob_returned) \<and>
    (main_at s = Exited \<longrightarrow> main_returned echo_over s) \<and> (main_at t = Exited \<longrightarrow> main_returned req_over t) \<and>
    (main_at u = Exited \<longrightarrow> main_returned req_over u) \<and> (main_at v = Exited \<longrightarrow> main_returned mob_returned v)"
proof -
  have e: "echo.main_done = main_returned echo_over" and r: "req.main_done = main_returned req_over"
    and m: "mob.main_done = main_returned mob_returned"
    by (simp_all add: fun_eq_iff echo.main_done_def req.main_done_def mob.main_done_def)
  note defs = echo_main_step_def prime_main_step_def means_main_step_def mob_main_step_def
  have "drains echo_main_step (main_own echo_own) s (main_returned echo_over)"
      "main_at s = Exited \<longrightarrow> main_returned echo_over s"
    using echo.main_drains echo.unforced_run echo.main_exit_over assms(1,2) unfolding defs e by blast+
  moreover have "drains prime_main_step (main_own sess_own) t (main_returned req_over)"
      "main_at t = Exited \<longrightarrow> main_returned req_over t"
    using req.main_drains req.unforced_run req.main_exit_over assms(3,4) unfolding defs r by blast+
  moreover have "drains means_main_step (main_own sess_own) u (main_returned req_over)"
      "main_at u = Exited \<longrightarrow> main_returned req_over u"
    using req.main_drains req.unforced_run req.main_exit_over assms(5,6) unfolding defs r by blast+
  moreover have "drains mob_main_step (main_own mob_own) v (main_returned mob_returned)"
      "main_at v = Exited \<longrightarrow> main_returned mob_returned v"
    using mob.main_drains mob.unforced_run mob.main_exit_over assms(7,8) unfolding defs m by blast+
  ultimately show ?thesis by blast
qed

theorem mains_return_witness:
  "\<exists>s t. run_steps echo_main_step [Accepts, Session 0 (Sends ''x''), Signal, Cancel] main_start = Some s \<and>
     run_steps prime_main_step [Accepts, Session 0 (Item_arrives Ask), Signal, Cancel] main_start = Some t \<and>
     drains echo_main_step (main_own echo_own) s (main_returned echo_over) \<and>
     drains prime_main_step (main_own sess_own) t (main_returned req_over)"
proof -
  obtain s where s: "run_steps echo_main_step [Accepts, Session 0 (Sends ''x''), Signal, Cancel] main_start = Some s" "ctx_done s"
    by (simp add: echo_main_step_def main_start_def new_echo_def)
  obtain t where t: "run_steps prime_main_step [Accepts, Session 0 (Item_arrives Ask), Signal, Cancel] main_start = Some t" "ctx_done t"
    by (simp add: prime_main_step_def main_start_def)
  obtain u where u: "run_steps means_main_step [Signal, Cancel] main_start = Some u" "ctx_done u"
    by (simp add: means_main_step_def main_start_def)
  obtain v where v: "run_steps mob_main_step [Signal, Cancel] main_start = Some v" "ctx_done v"
    by (simp add: mob_main_step_def main_start_def)
  from mains_return [OF s t u v] show ?thesis using s t by blast
qed

text \<open>
  After a signal the main of the speed daemon returns in the same way, with all sessions and their
  listeners and heartbeats gone, unless the session of a camera is stuck in sending a ticket into the
  full channel of its road, which no context interrupts; from there only the second signal's panic leads out.
\<close>

theorem speed_main_returns:
  assumes "run_steps speed_main_step as main_start = Some s" "ctx_done s" "main_at s \<noteq> Panicked"
  shows "drains speed_main_step (main_own speed_own) s
      (\<lambda>t. main_returned speed_over t \<or> (\<exists>c\<in>set (sessions t). ticket_stuck c)) \<and>
    ((\<exists>c\<in>set (sessions s). ticket_stuck c) \<longrightarrow> main_at s \<noteq> Exited)"
proof
  have "speed.main_done t \<Longrightarrow> main_returned speed_over t \<or> (\<exists>c\<in>set (sessions t). ticket_stuck c)" for t
    by (auto simp: speed.main_done_def)
  then show "drains speed_main_step (main_own speed_own) s
      (\<lambda>t. main_returned speed_over t \<or> (\<exists>c\<in>set (sessions t). ticket_stuck c))"
    using speed.main_drains [of True as s] assms unfolding speed_main_step_def drains_def by blast
  have "main_at s = Exited \<Longrightarrow> list_all speed_over (sessions s)"
    using speed.main_exit_over assms(1) unfolding speed_main_step_def main_returned_def by blast
  then show "(\<exists>c\<in>set (sessions s). ticket_stuck c) \<longrightarrow> main_at s \<noteq> Exited"
    by (auto simp: list_all_iff ticket_stuck_def speed_over_def)
qed

theorem speed_main_returns_witness:
  "\<exists>s. run_steps speed_main_step [Accepts, Session 0 (Msg_arrives Speed_plate), Session 0 Sp_reads, Session 0 (Road_changes True),
      Signal, Cancel] main_start = Some s \<and> main_at s \<noteq> Exited"
proof -
  obtain s where s: "run_steps speed_main_step [Accepts, Session 0 (Msg_arrives Speed_plate), Session 0 Sp_reads,
      Session 0 (Road_changes True), Signal, Cancel] main_start = Some s" "ctx_done s" "main_at s \<noteq> Panicked"
      "\<exists>c\<in>set (sessions s). ticket_stuck c"
    by (simp add: speed_main_step_def main_start_def new_speed_conn_def ticket_stuck_def)
  from speed_main_returns [OF s(1-3)] s show ?thesis by blast
qed

end
