(* ===== verification/ServerMain.thy ===== *)
theory ServerMain
  imports IslLifecycle
begin

text \<open>
  The \<open>main\<close> functions of \<open>9-job-centre/main.go\<close> and \<open>8-insecure-sockets-layer/main.go\<close> around the servers of
  \<open>TcpServer\<close>: \<open>main\<close> creates the server, starts a goroutine that calls \<open>Listen\<close>, waits for an interrupt and calls
  \<open>Shutdown\<close> with a context that is never done. \<open>log.Fatalln\<close> of either goroutine and the return of \<open>main\<close> end
  the process, with status 1 and 0. Further interrupts are taken by the channel of \<open>NotifyContext\<close> and do nothing.
  The variable \<open>err\<close> that the two goroutines of the insecure sockets server share adds no other outcome: an error
  that the one overwrites is as if the other had been faster.

  Shown over the locale \<open>connection\<close>, for both programs: exit status 0 means that the server has stopped
  completely or never ran; and once \<open>Shutdown\<close> has been called the process exits under every schedule, unless a
  connection is blocked.
\<close>

datatype run_pc = Building | Awaits_signal | In_shutdown | Exits nat

datatype listener_pc = Not_spawned | Spawned | In_listen | Reported

record 'c program =
  interrupted :: bool
  run_at :: run_pc
  go_listen :: listener_pc
  server :: "'c tcp_server"

definition program_start :: "'c program" where
  "program_start = \<lparr>interrupted = False, run_at = Building, go_listen = Not_spawned, server = NewServer\<rparr>"

datatype 'e program_event =
  Server_made bool
| Interrupt
| Go_listens
| Listen_reports
| Main_wakes
| Shutdown_back
| Serve "'e server_event"

definition exit_code :: "net_err option \<Rightarrow> nat" where
  "exit_code r = (case r of None \<Rightarrow> 0 | Some e \<Rightarrow> 1)"

fun exits :: "run_pc \<Rightarrow> bool" where
  "exits (Exits code) = True"
| "exits _ = False"

definition has_exited :: "'c program \<Rightarrow> bool" where
  "has_exited p \<longleftrightarrow> exits (run_at p)"

text \<open>\<open>NewServer\<close> fails when the address cannot be resolved.\<close>

definition make_server :: "bool \<Rightarrow> 'c tcp_server option" where
  "make_server resolves = (if resolves then Some NewServer else None)"

text \<open>The calls of the server's two operations are those of \<open>main\<close>, whose context is never done.\<close>

fun by_main :: "'e server_event \<Rightarrow> bool" where
  "by_main Call_Listen = True"
| "by_main Call_Shutdown = True"
| "by_main Shutdown_gives_up = True"
| "by_main _ = False"

fun program_step ::
  "net_err option \<Rightarrow> ('e server_event \<Rightarrow> 'c tcp_server \<Rightarrow> 'c tcp_server option) \<Rightarrow>
   'e program_event \<Rightarrow> 'c program \<Rightarrow> 'c program option" where
  "program_step refused sstep (Server_made ok) p =
     (if run_at p = Building
      then case make_server ok of
             None \<Rightarrow> Some (p\<lparr>run_at := Exits 1\<rparr>)
           | Some sv \<Rightarrow> Some (p\<lparr>run_at := Awaits_signal, go_listen := Spawned, server := sv\<rparr>)
      else None)"
| "program_step refused sstep Interrupt p = (if has_exited p then None else Some (p\<lparr>interrupted := True\<rparr>))"
| "program_step refused sstep Go_listens p =
     (if has_exited p \<or> go_listen p \<noteq> Spawned then None
      else case Listen_begin ErrStatus (server p) of
             (Some err, sv) \<Rightarrow> Some (p\<lparr>run_at := Exits 1, server := sv\<rparr>)
           | (None, sv) \<Rightarrow> Some (p\<lparr>go_listen := In_listen, server := sv\<rparr>))"
| "program_step refused sstep Listen_reports p =
     (if has_exited p \<or> go_listen p \<noteq> In_listen then None
      else case listen_at (server p) of
             Listened None \<Rightarrow> Some (p\<lparr>go_listen := Reported\<rparr>)
           | Listened (Some err) \<Rightarrow> Some (p\<lparr>run_at := Exits 1\<rparr>)
           | _ \<Rightarrow> None)"
| "program_step refused sstep Main_wakes p =
     (if run_at p = Awaits_signal \<and> interrupted p
      then case Shutdown_begin refused (server p) of
             (r, sv) \<Rightarrow> Some (p\<lparr>run_at := (if shutdown_at sv = Awaiting then In_shutdown else Exits (exit_code r)), server := sv\<rparr>)
      else None)"
| "program_step refused sstep Shutdown_back p =
     (if run_at p = In_shutdown
      then case shutdown_at (server p) of Shut r \<Rightarrow> Some (p\<lparr>run_at := Exits (exit_code r)\<rparr>) | _ \<Rightarrow> None
      else None)"
| "program_step refused sstep (Serve e) p =
     (if has_exited p \<or> by_main e then None else map_option (\<lambda>sv. p\<lparr>server := sv\<rparr>) (sstep e (server p)))"

text \<open>The steps of the program after it has been interrupted.\<close>

fun program_own :: "('e \<Rightarrow> bool) \<Rightarrow> 'e program_event \<Rightarrow> bool" where
  "program_own cown Interrupt = False"
| "program_own cown (Serve e) = server_own cown e"
| "program_own cown _ = True"

section \<open>Programs over any connection\<close>

text \<open>What an exit status tells.\<close>

definition exit_ok :: "net_err option \<Rightarrow> 'c program \<Rightarrow> bool" where
  "exit_ok refused p \<longleftrightarrow>
     (case run_at p of
        Exits code \<Rightarrow>
          if code = 0 then status (server p) = 0 \<and> refused = None \<or> shutdown_at (server p) = Shut None
          else code = 1 \<and>
            (go_listen p = Not_spawned \<or> go_listen p = Spawned \<and> refused \<noteq> None \<or> (\<exists>err. listen_at (server p) = Listened (Some err)))
      | _ \<Rightarrow> True)"

definition program_inv :: "net_err option \<Rightarrow> ('c \<Rightarrow> bool) \<Rightarrow> ('c \<Rightarrow> bool) \<Rightarrow> 'c program \<Rightarrow> bool" where
  "program_inv refused cinv over p \<longleftrightarrow>
     server_inv cinv over (server p) \<and> exit_ok refused p \<and>
     (go_listen p = Not_spawned \<or> go_listen p = Spawned \<longleftrightarrow> status (server p) = 0) \<and>
     (go_listen p = Not_spawned \<longrightarrow> run_at p = Building \<or> has_exited p) \<and>
     (run_at p = Building \<longrightarrow> go_listen p = Not_spawned) \<and>
     (run_at p = In_shutdown \<longleftrightarrow> \<not> has_exited p \<and> status (server p) = 2) \<and>
     status (server p) \<le> 2 \<and>
     (\<forall>err. shutdown_at (server p) \<noteq> Shut (Some err))"

lemma program_invD:
  assumes "program_inv refused cinv over p"
  shows "server_inv cinv over (server p)" "exit_ok refused p"
    and "go_listen p = Not_spawned \<or> go_listen p = Spawned \<longleftrightarrow> status (server p) = 0"
    and "run_at p = In_shutdown \<longleftrightarrow> \<not> has_exited p \<and> status (server p) = 2"
    and "status (server p) \<le> 2" "shutdown_at (server p) \<noteq> Shut (Some err)"
  using assms unfolding program_inv_def by blast+

lemma program_inv_start: "program_inv refused cinv over program_start"
  by (auto simp: program_inv_def program_start_def exit_ok_def has_exited_def server_inv_New) (simp_all add: NewServer_def)

definition program_weight :: "('c \<Rightarrow> nat) \<Rightarrow> 'c program \<Rightarrow> nat" where
  "program_weight cweight p =
     server_weight cweight (server p) + (if run_at p = In_shutdown then 1 else 0) + (if go_listen p = In_listen then 1 else 0)"

lemma by_main_own: "server_own cown e \<Longrightarrow> \<not> by_main e"
  by (cases e) auto

text \<open>What the steps of the server that are not calls leave as it is.\<close>

lemma served_same:
  "server_step ar cstep fresh over e s = Some t \<Longrightarrow> \<not> by_main e \<Longrightarrow>
   status t = status s \<and> (\<forall>err. shutdown_at t = Shut (Some err) \<longrightarrow> shutdown_at s = Shut (Some err))"
  by (cases e) (auto split: if_splits listen_pc.splits)

context connection
begin

abbreviation pstep where
  "pstep refused ar \<equiv> program_step refused (sstep ar)"

abbreviation pinv where
  "pinv refused \<equiv> program_inv refused cinv over"

lemma program_inv_serve:
  assumes inv: "pinv refused p" and "\<not> has_exited p" "\<not> by_main e" "sstep ar e (server p) = Some sv"
  shows "pinv refused (p\<lparr>server := sv\<rparr>)"
proof -
  have "sinv sv" using server_step_inv program_invD(1) [OF inv] assms(4) by blast
  moreover have "status sv = status (server p)" "shutdown_at sv \<noteq> Shut (Some err)" for err
    using served_same [OF assms(4,3)] program_invD(6) [OF inv] by blast+
  moreover have "exit_ok refused (p\<lparr>server := sv\<rparr>)"
    using assms(2) by (cases "run_at p") (auto simp: exit_ok_def has_exited_def)
  ultimately show ?thesis using inv unfolding program_inv_def has_exited_def by (elim conjE, intro conjI) simp_all
qed

lemma Listen_begin_inv: "sinv s \<Longrightarrow> sinv (snd (Listen_begin refused s))"
  using server_step_inv [of s ar Call_Listen] by (cases "status s = 0") (simp_all add: Listen_begin_def)

lemma Shutdown_begin_inv: "sinv s \<Longrightarrow> sinv (snd (Shutdown_begin refused s))"
  using server_step_inv [of s ar Call_Shutdown] by (cases "status s = 1") (simp_all add: Shutdown_begin_def)

lemma program_step_inv: "pinv refused p \<Longrightarrow> pstep refused ar a p = Some q \<Longrightarrow> pinv refused q"
proof (cases a)
  case (Server_made ok)
  assume inv: "pinv refused p" and step: "pstep refused ar a p = Some q"
  then have b: "run_at p = Building" "go_listen p = Not_spawned" using Server_made by (auto simp: program_inv_def split: if_splits)
  show ?thesis
  proof (cases ok)
    case True
    then have q: "q = p\<lparr>run_at := Awaits_signal, go_listen := Spawned, server := NewServer\<rparr>"
      using step b Server_made by (simp add: make_server_def)
    show ?thesis by (simp add: program_inv_def q server_inv_New exit_ok_def has_exited_def) (simp add: NewServer_def)
  next
    case False
    then have "q = p\<lparr>run_at := Exits 1\<rparr>" using step b Server_made by (simp add: make_server_def)
    then show ?thesis using inv b by (auto simp: program_inv_def exit_ok_def has_exited_def)
  qed
next
  case (Serve e)
  assume "pinv refused p" "pstep refused ar a p = Some q"
  then show ?thesis using Serve program_inv_serve by (auto split: if_splits)
next
  case Go_listens
  assume inv: "pinv refused p" and step: "pstep refused ar a p = Some q"
  then have g: "go_listen p = Spawned" "\<not> has_exited p" using Go_listens by (auto split: if_splits)
  then have "status (server p) = 0" using program_invD(3) [OF inv] by blast
  then have q: "q = p\<lparr>go_listen := In_listen, server := snd (Listen_begin ErrStatus (server p))\<rparr>"
      "status (snd (Listen_begin ErrStatus (server p))) = 1"
      "shutdown_at (snd (Listen_begin ErrStatus (server p))) = shutdown_at (server p)"
    using step g Go_listens by (auto simp: Listen_begin_def)
  have "sinv (snd (Listen_begin ErrStatus (server p)))" using Listen_begin_inv program_invD(1) [OF inv] .
  moreover have "exit_ok refused q" using g(2) q(1) by (cases "run_at p") (auto simp: exit_ok_def has_exited_def)
  moreover have "run_at p \<noteq> In_shutdown" using program_invD(4) [OF inv] g(1) program_invD(3) [OF inv] by auto
  ultimately show ?thesis using inv q(2,3) g unfolding program_inv_def q(1) has_exited_def by (elim conjE, intro conjI) simp_all
next
  case Main_wakes
  assume inv: "pinv refused p" and step: "pstep refused ar a p = Some q"
  then have r: "run_at p = Awaits_signal" using Main_wakes by (auto split: if_splits)
  then have "status (server p) \<noteq> 2" using program_invD(4) [OF inv] by (auto simp: has_exited_def)
  then consider (fresh) "status (server p) = 0" | (runs) "status (server p) = 1" using program_invD(5) [OF inv] by linarith
  then show ?thesis
  proof cases
    case fresh
    then have "shutdown_at (server p) = Not_called" using program_invD(1) [OF inv] by (auto simp: server_inv_def)
    then have q: "q = p\<lparr>run_at := Exits (exit_code refused)\<rparr>"
      using step Main_wakes fresh by (auto simp: Shutdown_begin_def split: if_splits)
    have "go_listen p = Spawned" using program_invD(3) [OF inv] fresh r inv by (auto simp: program_inv_def has_exited_def)
    then have "exit_ok refused q" using fresh q by (cases refused) (auto simp: exit_ok_def exit_code_def)
    then show ?thesis using inv r fresh unfolding program_inv_def q has_exited_def by (elim conjE, intro conjI) simp_all
  next
    case runs
    then have q: "q = p\<lparr>run_at := In_shutdown, server := snd (Shutdown_begin refused (server p))\<rparr>"
        "status (snd (Shutdown_begin refused (server p))) = 2" "shutdown_at (snd (Shutdown_begin refused (server p))) = Awaiting"
      using step Main_wakes by (auto simp: Shutdown_begin_def split: if_splits)
    have "sinv (snd (Shutdown_begin refused (server p)))" using Shutdown_begin_inv program_invD(1) [OF inv] .
    moreover have "exit_ok refused q" by (simp add: exit_ok_def q(1))
    ultimately show ?thesis using inv r runs q(2,3) unfolding program_inv_def q(1) has_exited_def
      by (elim conjE, intro conjI) simp_all
  qed
qed (auto simp: program_inv_def exit_ok_def has_exited_def exit_code_def split: if_splits listen_pc.splits option.splits shutdown_pc.splits run_pc.splits)

lemma program_runs: "guarded_system (pstep refused ar) (\<lambda>a. True) (pinv refused)"
  by unfold_locales (rule program_step_inv)

lemma program_reachable: "run_steps (pstep refused ar) as program_start = Some p \<Longrightarrow> pinv refused p"
  using guarded_system.run_keeps [OF program_runs program_inv_start] by (simp add: list_all_iff)

text \<open>Exit status 0: the server never ran, or it has stopped completely.\<close>

lemma exit_zero:
  assumes "pinv refused p" "run_at p = Exits 0"
  shows "status (server p) = 0 \<and> refused = None \<or> all_stopped over (server p)"
  using program_invD(1,2) [OF assms(1)] assms(2) stopped_all shut_stopped by (auto simp: exit_ok_def)

text \<open>From the call of \<open>Shutdown\<close> on the process exits.\<close>

definition program_leaving :: "net_err option \<Rightarrow> 'c program \<Rightarrow> bool" where
  "program_leaving refused p \<longleftrightarrow> pinv refused p \<and> (run_at p = In_shutdown \<or> has_exited p)"

definition program_done :: "'c program \<Rightarrow> bool" where
  "program_done p \<longleftrightarrow> has_exited p \<or> (\<exists>c\<in>set (conns (server p)). \<not> over c \<and> blocked c)"

lemma exited_stays: "has_exited p \<Longrightarrow> pstep refused ar a p = None"
  by (cases a; cases "run_at p") (auto simp: has_exited_def)

lemma program_leaving_step:
  assumes "program_leaving refused p" "pstep refused ar a p = Some q"
  shows "program_leaving refused q"
proof -
  have p: "\<not> has_exited p" "run_at p = In_shutdown" using assms exited_stays by (auto simp: program_leaving_def)
  have "pinv refused q" using assms program_step_inv by (auto simp: program_leaving_def)
  then show ?thesis using assms(2) p
    by (cases a) (auto simp: program_leaving_def has_exited_def split: if_splits prod.splits option.splits listen_pc.splits shutdown_pc.splits)
qed

lemma in_shutdown:
  assumes "pinv refused p" "run_at p = In_shutdown"
  shows "status (server p) = 2" "base_done (server p)" "go_listen p \<noteq> Spawned" "shutdown_at (server p) \<noteq> Not_called"
proof -
  show st: "status (server p) = 2" using program_invD(4) [OF assms(1)] assms(2) by simp
  then show "base_done (server p)" "shutdown_at (server p) \<noteq> Not_called" "go_listen p \<noteq> Spawned"
    using program_invD(1,3) [OF assms(1)] by (auto simp: server_inv_def)
qed

lemma program_lighter:
  assumes "program_leaving refused p" "program_own cown a" "pstep refused ar a p = Some q"
  shows "program_weight cweight q < program_weight cweight p"
proof -
  have p: "\<not> has_exited p" "run_at p = In_shutdown" "pinv refused p" using assms(1,3) exited_stays by (auto simp: program_leaving_def)
  note sh = in_shutdown [OF p(3,2)]
  show ?thesis
  proof (cases a)
    case (Serve e)
    then obtain sv where sv: "sstep ar e (server p) = Some sv" "q = p\<lparr>server := sv\<rparr>" using assms(3) by (auto split: if_splits)
    then show ?thesis using own_step_lighter [OF program_invD(1) [OF p(3)] sh(2) _ sv(1)] assms(2) Serve
      by (simp add: program_weight_def)
  qed (use assms(2,3) p sh in \<open>auto simp: program_weight_def split: if_splits listen_pc.splits option.splits shutdown_pc.splits\<close>)
qed

lemma program_possible:
  assumes "program_leaving refused p" "\<not> program_done p"
  shows "\<exists>a. program_own cown a \<and> pstep refused ar a p \<noteq> None"
proof -
  have p: "\<not> has_exited p" "run_at p = In_shutdown" "pinv refused p" using assms by (auto simp: program_leaving_def program_done_def)
  note sh = in_shutdown [OF p(3,2)]
  show ?thesis
  proof (cases "server_done (server p)")
    case False
    from own_step_possible [OF program_invD(1) [OF p(3)] sh(2) this]
    obtain e where "server_own cown e" "sstep ar e (server p) \<noteq> None" by blast
    then have "program_own cown (Serve e)" "pstep refused ar (Serve e) p \<noteq> None" using p(1) by_main_own by auto
    then show ?thesis by blast
  next
    case True
    then have "shutdown_at (server p) \<noteq> Awaiting" using assms(2) by (auto simp: server_done_def program_done_def)
    then obtain r where "shutdown_at (server p) = Shut r" using sh(4) by (cases "shutdown_at (server p)") auto
    then have "pstep refused ar Shutdown_back p \<noteq> None" using p(2) by simp
    moreover have "program_own cown Shutdown_back" by simp
    ultimately show ?thesis by blast
  qed
qed

lemma program_draining:
  "draining (pstep refused ar) (program_own cown) (program_leaving refused) (program_weight cweight) program_done"
proof unfold_locales
  fix a p q
  show "program_leaving refused p \<Longrightarrow> program_own cown a \<Longrightarrow> pstep refused ar a p = Some q \<Longrightarrow> program_leaving refused q"
    by (rule program_leaving_step)
  show "program_leaving refused p \<Longrightarrow> program_own cown a \<Longrightarrow> pstep refused ar a p = Some q \<Longrightarrow>
      program_weight cweight q < program_weight cweight p" by (rule program_lighter)
  show "program_leaving refused p \<Longrightarrow> \<not> program_done p \<Longrightarrow> \<exists>a. program_own cown a \<and> pstep refused ar a p \<noteq> None"
    by (rule program_possible)
qed

lemma program_drains:
  "pinv refused p \<Longrightarrow> run_at p = In_shutdown \<Longrightarrow> drains (pstep refused ar) (program_own cown) p program_done"
  using draining.drains [OF program_draining] by (simp add: program_leaving_def)

end

section \<open>The two programs\<close>

definition job_program_step ::
  "'a looper_event program_event \<Rightarrow> 'a looper program \<Rightarrow> 'a looper program option" where
  "job_program_step = program_step (Some ErrStatus) job_server_step"

definition isl_program_step :: "isl_event program_event \<Rightarrow> isl_conn program \<Rightarrow> isl_conn program option" where
  "isl_program_step = program_step None isl_server_step"


text \<open>
  A program that serves a connection, is interrupted and exits with status 0; one that is interrupted before
  \<open>Listen\<close> is called exits with status 1 (job centre) or 0 (insecure sockets).
\<close>

definition served_run :: "isl_event program_event list" where
  "served_run =
     [Server_made True, Go_listens, Serve (Bind True), Serve Accept, Serve (Conn 0 (Client Bad_spec)), Interrupt, Main_wakes]"

definition served_end :: "isl_event program_event list" where
  "served_end =
     [Serve Closer_wakes, Serve (Conn 0 Reads), Serve (Accept_fails ErrClosed), Serve Drained, Serve Shutdown_returns, Shutdown_back]"

lemmas program_eval = program_start_def make_server_def has_exited_def NewServer_def Listen_begin_def Shutdown_begin_def exit_code_def

lemma early_interrupt:
  "map_option run_at (run_steps job_program_step [Server_made True, Interrupt, Main_wakes] program_start) = Some (Exits 1)"
  "map_option run_at (run_steps isl_program_step [Server_made True, Interrupt, Main_wakes] program_start) = Some (Exits 0)"
  by (simp_all add: job_program_step_def isl_program_step_def program_eval)


end
