(* ===== verification/BytePool.thy ===== *)
theory BytePool
  imports Prelude
begin

text \<open>
  The buffer pools (\<open>util/pool.go\<close> of \<open>7-line-reversal\<close>, \<open>8-insecure-sockets-layer\<close> and \<open>9-job-centre\<close>): one
  \<open>sync.Pool\<close> per capacity, behind a lock, for byte slices and for \<open>bufio.Reader\<close>s. A slice is the address of
  its array and its length; arrays have a fixed capacity. A \<open>sync.Pool\<close> may return any of its entries or
  none, and may forget entries; which, is an argument of the operations.

  Shown: if everybody puts back only buffers that he owns, and no longer uses them, no array is ever
  owned twice or owned and free at once, every slice that is handed out has the length and the capacity
  that were asked for, and every reader that is handed out is empty.
\<close>

record slice =
  base :: nat
  slen :: nat

text \<open>The pools: the free arrays of each capacity, and the allocator.\<close>

record pools =
  free :: "nat \<rightharpoonup> nat list"
  capacity :: "nat \<Rightarrow> nat"
  next_base :: nat

definition no_pools :: pools where
  "no_pools = \<lparr>free = Map.empty, capacity = (\<lambda>_. 0), next_base = 0\<rparr>"

definition make_bytes :: "nat \<Rightarrow> pools \<Rightarrow> slice \<times> pools" where
  "make_bytes n p =
     (\<lparr>base = next_base p, slen = n\<rparr>,
      p\<lparr>capacity := (capacity p)(next_base p := n), next_base := Suc (next_base p)\<rparr>)"

definition drop_nth :: "nat \<Rightarrow> 'a list \<Rightarrow> 'a list" where
  "drop_nth i xs = take i xs @ drop (Suc i) xs"

text \<open>\<open>sync.Pool.Get\<close>: the entry at the chosen position, or nothing.\<close>

definition sync_Get :: "nat option \<Rightarrow> 'a list \<Rightarrow> ('a \<times> 'a list) option" where
  "sync_Get choice xs =
     (case choice of
        Some i \<Rightarrow> if i < length xs then Some (xs ! i, drop_nth i xs) else None
      | None \<Rightarrow> None)"

text \<open>\<open>None\<close> is the panic of the slice expression \<open>buf[:size]\<close>.\<close>

definition GetBytes :: "nat option \<Rightarrow> nat \<Rightarrow> pools \<Rightarrow> (slice \<times> pools) option" where
  "GetBytes choice n p =
     (case free p n of
        None \<Rightarrow> Some (make_bytes n p)
      | Some xs \<Rightarrow>
          (case sync_Get choice xs of
             None \<Rightarrow> Some (make_bytes n p)
           | Some (a, xs') \<Rightarrow>
               if n \<le> capacity p a then Some (\<lparr>base = a, slen = n\<rparr>, p\<lparr>free := (free p)(n \<mapsto> xs')\<rparr>) else None))"

definition PutBytes :: "slice \<Rightarrow> pools \<Rightarrow> pools" where
  "PutBytes s p =
     (let n = capacity p (base s);
          xs = (case free p n of None \<Rightarrow> [] | Some xs \<Rightarrow> xs)
      in p\<lparr>free := (free p)(n \<mapsto> xs @ [base s])\<rparr>)"

text \<open>
  The first version, of \<open>7-line-reversal\<close>: its pools have a \<open>New\<close> function, so that an empty pool makes the
  slice itself. \<open>9-job-centre\<close> has a copy of the file of \<open>8-insecure-sockets-layer\<close>.
\<close>

definition PoolGet :: "nat option \<Rightarrow> nat \<Rightarrow> pools \<Rightarrow> (slice \<times> pools) option" where
  "PoolGet choice n p =
     (case free p n of
        None \<Rightarrow> Some (make_bytes n p)
      | Some xs \<Rightarrow>
          (let (buf, p') = (case sync_Get choice xs of
                              None \<Rightarrow> make_bytes n p
                            | Some (a, xs') \<Rightarrow> (\<lparr>base = a, slen = capacity p a\<rparr>, p\<lparr>free := (free p)(n \<mapsto> xs')\<rparr>))
           in if n \<le> capacity p' (base buf) then Some (buf\<lparr>slen := n\<rparr>, p') else None))"

definition PoolPut :: "slice \<Rightarrow> pools \<Rightarrow> pools" where
  "PoolPut s p = PutBytes s p"

definition job_GetBytes :: "nat option \<Rightarrow> nat \<Rightarrow> pools \<Rightarrow> (slice \<times> pools) option" where
  "job_GetBytes = GetBytes"

definition job_PutBytes :: "slice \<Rightarrow> pools \<Rightarrow> pools" where
  "job_PutBytes = PutBytes"

section \<open>Readers\<close>

text \<open>\<open>bufio.NewReaderSize\<close> makes the buffer at least 16 bytes; \<open>Reset\<close> drops what is buffered.\<close>

record buf_reader =
  rsize :: nat
  buffered :: string

definition NewReaderSize :: "nat \<Rightarrow> buf_reader" where
  "NewReaderSize n = \<lparr>rsize = max n 16, buffered = []\<rparr>"

definition GetBufferReader :: "nat option \<Rightarrow> nat \<Rightarrow> (nat \<rightharpoonup> buf_reader list) \<Rightarrow> buf_reader \<times> (nat \<rightharpoonup> buf_reader list)" where
  "GetBufferReader choice n ps =
     (case ps n of
        None \<Rightarrow> (NewReaderSize n, ps)
      | Some xs \<Rightarrow>
          (case sync_Get choice xs of
             None \<Rightarrow> (NewReaderSize n, ps)
           | Some (r, xs') \<Rightarrow> (r, ps(n \<mapsto> xs'))))"

definition PutBufferReader :: "buf_reader option \<Rightarrow> (nat \<rightharpoonup> buf_reader list) \<Rightarrow> (nat \<rightharpoonup> buf_reader list)" where
  "PutBufferReader buf ps =
     (case buf of
        None \<Rightarrow> ps
      | Some r \<Rightarrow>
          (let r' = r\<lparr>buffered := []\<rparr>;
               xs = (case ps (rsize r') of None \<Rightarrow> [] | Some xs \<Rightarrow> xs)
           in ps(rsize r' \<mapsto> xs @ [r'])))"

definition job_GetBufferReader :: "nat option \<Rightarrow> nat \<Rightarrow> (nat \<rightharpoonup> buf_reader list) \<Rightarrow> buf_reader \<times> (nat \<rightharpoonup> buf_reader list)" where
  "job_GetBufferReader = GetBufferReader"

definition job_PutBufferReader :: "buf_reader option \<Rightarrow> (nat \<rightharpoonup> buf_reader list) \<Rightarrow> (nat \<rightharpoonup> buf_reader list)" where
  "job_PutBufferReader = PutBufferReader"

section \<open>Owners\<close>

text \<open>
  Everybody who uses the pools: \<open>owned\<close> lists the slices that are in use. A slice may be cut (not below
  its array) before it is put back; a put of what is not owned is not admissible; the garbage collector may
  empty pools.
\<close>

record pool_system =
  pools_of :: pools
  owned :: "slice list"
  readers :: "nat \<rightharpoonup> buf_reader list"
  crashed :: bool

datatype pool_event =
  Get "nat option" nat
| Put nat
| Forget nat nat
| Get_reader "nat option" nat
| Put_reader "buf_reader option"

fun pool_step :: "pool_event \<Rightarrow> pool_system \<Rightarrow> pool_system" where
  "pool_step (Get choice n) s =
     (case GetBytes choice n (pools_of s) of
        None \<Rightarrow> s\<lparr>crashed := True\<rparr>
      | Some (b, p) \<Rightarrow> s\<lparr>pools_of := p, owned := b # owned s\<rparr>)"
| "pool_step (Put i) s =
     s\<lparr>pools_of := PutBytes (owned s ! i) (pools_of s), owned := drop_nth i (owned s)\<rparr>"
| "pool_step (Forget n i) s =
     s\<lparr>pools_of := (pools_of s)\<lparr>free := (free (pools_of s))(n := map_option (drop_nth i) (free (pools_of s) n))\<rparr>\<rparr>"
| "pool_step (Get_reader choice n) s = s\<lparr>readers := snd (GetBufferReader choice n (readers s))\<rparr>"
| "pool_step (Put_reader r) s = s\<lparr>readers := PutBufferReader r (readers s)\<rparr>"

fun pool_ok :: "pool_event \<Rightarrow> pool_system \<Rightarrow> bool" where
  "pool_ok (Put i) s = (i < length (owned s))"
| "pool_ok (Put_reader (Some r)) s = (16 \<le> rsize r)"
| "pool_ok _ s = True"

definition pool_start :: pool_system where
  "pool_start = \<lparr>pools_of = no_pools, owned = [], readers = Map.empty, crashed = False\<rparr>"

definition free_list :: "pools \<Rightarrow> nat \<Rightarrow> nat list" where
  "free_list p n = (case free p n of None \<Rightarrow> [] | Some xs \<Rightarrow> xs)"

definition pool_inv :: "pool_system \<Rightarrow> bool" where
  "pool_inv s \<longleftrightarrow>
     distinct (map base (owned s)) \<and>
     (\<forall>n. distinct (free_list (pools_of s) n)) \<and>
     (\<forall>n a. a \<in> set (free_list (pools_of s) n) \<longrightarrow>
        a \<notin> base ` set (owned s) \<and> capacity (pools_of s) a = n \<and> a < next_base (pools_of s)) \<and>
     (\<forall>b\<in>set (owned s). base b < next_base (pools_of s) \<and> slen b = capacity (pools_of s) (base b)) \<and>
     (\<forall>n xs r. readers s n = Some xs \<longrightarrow> r \<in> set xs \<longrightarrow> buffered r = [] \<and> rsize r = n) \<and>
     \<not> crashed s"

lemma pool_invI:
  assumes "distinct (map base (owned s))" "\<And>n. distinct (free_list (pools_of s) n)"
    and "\<And>n a. a \<in> set (free_list (pools_of s) n) \<Longrightarrow>
        a \<notin> base ` set (owned s) \<and> capacity (pools_of s) a = n \<and> a < next_base (pools_of s)"
    and "\<And>b. b \<in> set (owned s) \<Longrightarrow> base b < next_base (pools_of s) \<and> slen b = capacity (pools_of s) (base b)"
    and "\<And>n xs r. readers s n = Some xs \<Longrightarrow> r \<in> set xs \<Longrightarrow> buffered r = [] \<and> rsize r = n" "\<not> crashed s"
  shows "pool_inv s"
  using assms by (simp add: pool_inv_def)

lemma pool_invD:
  assumes "pool_inv s"
  shows "distinct (map base (owned s))" "distinct (free_list (pools_of s) n)"
    and "a \<in> set (free_list (pools_of s) n) \<Longrightarrow> a \<notin> base ` set (owned s)"
    and "a \<in> set (free_list (pools_of s) n) \<Longrightarrow> capacity (pools_of s) a = n"
    and "a \<in> set (free_list (pools_of s) n) \<Longrightarrow> a < next_base (pools_of s)"
    and "b \<in> set (owned s) \<Longrightarrow> base b < next_base (pools_of s)"
    and "b \<in> set (owned s) \<Longrightarrow> slen b = capacity (pools_of s) (base b)"
    and "readers s n = Some xs \<Longrightarrow> r \<in> set xs \<Longrightarrow> buffered r = [] \<and> rsize r = n" "\<not> crashed s"
  using assms unfolding pool_inv_def by blast+

lemma set_drop_nth: "set (drop_nth i xs) \<subseteq> set xs"
  by (auto simp: drop_nth_def dest: in_set_takeD in_set_dropD)

lemma distinct_drop_nth: "distinct xs \<Longrightarrow> distinct (drop_nth i xs)"
proof -
  assume d: "distinct xs"
  then have "distinct (take i xs @ drop i xs)" by simp
  moreover have "set (drop (Suc i) xs) \<subseteq> set (drop i xs)" by (rule set_drop_subset_set_drop) simp
  ultimately show ?thesis using d by (auto simp: drop_nth_def simp del: append_take_drop_id)
qed

lemma drop_nth_gone: "distinct xs \<Longrightarrow> i < length xs \<Longrightarrow> xs ! i \<notin> set (drop_nth i xs)"
  using id_take_nth_drop [of i xs] by (metis distinct_append distinct.simps(2) drop_nth_def Un_iff set_append disjoint_iff list.set_intros(1))

lemma map_drop_nth: "map f (drop_nth i xs) = drop_nth i (map f xs)"
  by (simp add: drop_nth_def take_map drop_map)

lemma free_list_upd: "free_list (p\<lparr>free := (free p)(n \<mapsto> xs)\<rparr>) m = (if m = n then xs else free_list p m)"
  by (simp add: free_list_def)

text \<open>With the invariant, both versions return a fresh array or one of the free ones, cut to the size.\<close>

lemma GetBytes_cases:
  assumes "pool_inv s" "p = pools_of s"
  shows "GetBytes choice n p = Some (make_bytes n p) \<or>
    (\<exists>i. i < length (free_list p n) \<and>
      GetBytes choice n p = Some (\<lparr>base = free_list p n ! i, slen = n\<rparr>, p\<lparr>free := (free p)(n \<mapsto> drop_nth i (free_list p n))\<rparr>))"
proof (cases "free p n")
  case (Some xs)
  then have fl: "free_list p n = xs" by (simp add: free_list_def)
  have "capacity p a = n" if "a \<in> set xs" for a using pool_invD(4) [OF assms(1)] that fl assms(2) by simp
  then show ?thesis using Some fl by (auto simp: GetBytes_def sync_Get_def split: option.splits)
qed (simp add: GetBytes_def)

lemma PoolGet_GetBytes: "pool_inv s \<Longrightarrow> PoolGet choice n (pools_of s) = GetBytes choice n (pools_of s)"
proof (cases "free (pools_of s) n")
  case (Some xs)
  assume inv: "pool_inv s"
  have "free_list (pools_of s) n = xs" using Some by (simp add: free_list_def)
  then have "capacity (pools_of s) a = n" if "a \<in> set xs" for a using pool_invD(4) [OF inv] that by simp
  then show ?thesis using Some
    by (auto simp: PoolGet_def GetBytes_def sync_Get_def make_bytes_def Let_def split: option.splits)
qed (simp add: PoolGet_def GetBytes_def)


section \<open>The invariant is kept\<close>

lemma make_bytes_inv:
  assumes "pool_inv s" "make_bytes n (pools_of s) = (b, p)"
  shows "pool_inv (s\<lparr>pools_of := p, owned := b # owned s\<rparr>)"
proof (rule pool_invI, goal_cases)
  case 1
  then show ?case using pool_invD(1, 6) [OF assms(1)] assms(2) by (force simp: make_bytes_def)
next
  case (2 n)
  then show ?case using pool_invD(2) [OF assms(1)] assms(2) by (auto simp: make_bytes_def free_list_def)
next
  case (3 m a)
  then have "a \<in> set (free_list (pools_of s) m)" using assms(2) by (auto simp: make_bytes_def free_list_def)
  then show ?case using pool_invD(3-5) [OF assms(1)] assms(2) by (fastforce simp: make_bytes_def)
next
  case (4 c)
  then show ?case using pool_invD(6, 7) [OF assms(1)] assms(2) by (fastforce simp: make_bytes_def)
qed (use pool_invD(8, 9) [OF assms(1)] in auto)

lemma take_free_inv:
  assumes "pool_inv s" "i < length (free_list (pools_of s) n)"
  shows "pool_inv (s\<lparr>pools_of := (pools_of s)\<lparr>free := (free (pools_of s))(n \<mapsto> drop_nth i (free_list (pools_of s) n))\<rparr>,
                    owned := \<lparr>base = free_list (pools_of s) n ! i, slen = n\<rparr> # owned s\<rparr>)" (is "pool_inv ?s")
proof -
  let ?a = "free_list (pools_of s) n ! i"
  have a: "?a \<in> set (free_list (pools_of s) n)" using assms(2) by simp
  show ?thesis
  proof (rule pool_invI, goal_cases)
    case 1
    then show ?case using pool_invD(1) [OF assms(1)] pool_invD(3) [OF assms(1) a] by simp
  next
    case (2 m)
    then show ?case using pool_invD(2) [OF assms(1)] by (simp add: free_list_upd distinct_drop_nth)
  next
    case (3 m c)
    then have c: "c \<in> set (free_list (pools_of s) m)" using set_drop_nth by (fastforce simp: free_list_upd split: if_splits)
    have "c \<noteq> ?a"
    proof
      assume "c = ?a"
      then have "m = n" using pool_invD(4) [OF assms(1) c] pool_invD(4) [OF assms(1) a] by simp
      then show False
        using 3 \<open>c = ?a\<close> drop_nth_gone [OF pool_invD(2) [OF assms(1)] assms(2)] by (simp add: free_list_upd)
    qed
    then show ?case using pool_invD(3-5) [OF assms(1) c] by simp
  next
    case (4 b)
    then show ?case using pool_invD(6, 7) [OF assms(1)] pool_invD(4, 5) [OF assms(1) a] by auto
  qed (use pool_invD(8, 9) [OF assms(1)] in auto)
qed

lemma put_inv:
  assumes "pool_inv s" "i < length (owned s)"
  shows "pool_inv (s\<lparr>pools_of := PutBytes (owned s ! i) (pools_of s), owned := drop_nth i (owned s)\<rparr>)"
proof -
  let ?b = "owned s ! i" and ?p = "pools_of s"
  have b: "?b \<in> set (owned s)" using assms(2) by simp
  have p: "PutBytes ?b ?p = ?p\<lparr>free := (free ?p)(capacity ?p (base ?b) \<mapsto>
      free_list ?p (capacity ?p (base ?b)) @ [base ?b])\<rparr>"
    by (simp add: PutBytes_def free_list_def Let_def)
  have gone: "base ?b \<notin> base ` set (drop_nth i (owned s))"
    using drop_nth_gone [OF pool_invD(1) [OF assms(1)], of i] assms(2) by (simp flip: map_drop_nth)
  have unfree: "base ?b \<notin> set (free_list ?p n)" for n using pool_invD(3) [OF assms(1)] b by blast
  show ?thesis
  proof (rule pool_invI, goal_cases)
    case 1
    then show ?case using distinct_drop_nth [OF pool_invD(1) [OF assms(1)]] by (simp add: map_drop_nth)
  next
    case (2 n)
    then show ?case using pool_invD(2) [OF assms(1)] unfree by (simp add: p free_list_upd)
  next
    case (3 n a)
    then have "a = base ?b \<and> n = capacity ?p (base ?b) \<or> a \<in> set (free_list ?p n)"
      by (auto simp: p free_list_upd split: if_splits)
    then show ?case
    proof
      assume "a = base ?b \<and> n = capacity ?p (base ?b)"
      then show ?thesis using gone pool_invD(6) [OF assms(1) b] by (simp add: p)
    next
      assume a: "a \<in> set (free_list ?p n)"
      have "a \<notin> base ` set (drop_nth i (owned s))" using pool_invD(3) [OF assms(1) a] set_drop_nth [of i "owned s"] by blast
      then show ?thesis using pool_invD(4, 5) [OF assms(1) a] by (simp add: p)
    qed
  next
    case (4 c)
    then show ?case using pool_invD(6, 7) [OF assms(1)] set_drop_nth [of i "owned s"] by (auto simp: p)
  qed (use pool_invD(8, 9) [OF assms(1)] in auto)
qed

lemma forget_inv:
  assumes "pool_inv s"
  shows "pool_inv (pool_step (Forget n i) s)"
proof -
  let ?p = "pools_of (pool_step (Forget n i) s)"
  have fl: "free_list ?p m = (if m = n then drop_nth i (free_list (pools_of s) n) else free_list (pools_of s) m)" for m
    by (auto simp: free_list_def drop_nth_def split: option.splits)
  have sub: "set (free_list ?p m) \<subseteq> set (free_list (pools_of s) m)" for m
    unfolding fl by (cases "m = n") (simp_all add: set_drop_nth)
  show ?thesis
  proof (rule pool_invI, goal_cases)
    case (2 m)
    then show ?case using pool_invD(2) [OF assms] by (simp only: fl) (simp add: distinct_drop_nth)
  next
    case (3 m a)
    then show ?case using pool_invD(3-5) [OF assms subsetD [OF sub 3]] by simp
  qed (use pool_invD(1, 6-9) [OF assms] in auto)
qed

lemma pool_inv_readers:
  assumes "pool_inv s" "\<And>n xs r. rs n = Some xs \<Longrightarrow> r \<in> set xs \<Longrightarrow> buffered r = [] \<and> rsize r = n"
  shows "pool_inv (s\<lparr>readers := rs\<rparr>)"
  using assms unfolding pool_inv_def by simp

lemma pool_step_inv:
  assumes "pool_inv s" "pool_ok e s"
  shows "pool_inv (pool_step e s)"
proof (cases e)
  case (Get choice n)
  then show ?thesis
    using GetBytes_cases [OF assms(1) refl, of choice n] make_bytes_inv [OF assms(1), of n] take_free_inv [OF assms(1), of _ n]
    by (auto simp: make_bytes_def)
next
  case (Get_reader choice n)
  have "buffered r = [] \<and> rsize r = m"
    if "snd (GetBufferReader choice n (readers s)) m = Some xs" "r \<in> set xs" for m xs r
    using that pool_invD(8) [OF assms(1)] set_drop_nth
    by (fastforce simp: GetBufferReader_def sync_Get_def split: option.splits if_splits)
  then show ?thesis using Get_reader pool_inv_readers [OF assms(1)] by simp
next
  case (Put_reader r)
  have "buffered q = [] \<and> rsize q = m" if "PutBufferReader r (readers s) m = Some xs" "q \<in> set xs" for m xs q
    using that pool_invD(8) [OF assms(1)]
    by (fastforce simp: PutBufferReader_def Let_def split: option.splits if_splits)
  then show ?thesis using Put_reader pool_inv_readers [OF assms(1)] by simp
qed (use assms put_inv forget_inv in \<open>auto simp del: pool_step.simps(3)\<close>)

interpretation bp: event_system pool_step pool_ok pool_inv
  by unfold_locales (rule pool_step_inv)

lemma pool_start_inv: "pool_inv pool_start"
  by (simp add: pool_inv_def pool_start_def no_pools_def free_list_def)

lemma GetBytes_fresh:
  assumes "pool_inv s"
  shows "\<exists>b p. GetBytes choice n (pools_of s) = Some (b, p) \<and> slen b = n \<and> capacity p (base b) = n \<and>
    base b \<notin> base ` set (owned s)"
  using GetBytes_cases [OF assms refl, of choice n]
proof
  assume "GetBytes choice n (pools_of s) = Some (make_bytes n (pools_of s))"
  then show ?thesis using pool_invD(6) [OF assms] by (force simp: make_bytes_def)
next
  assume "\<exists>i. i < length (free_list (pools_of s) n) \<and>
      GetBytes choice n (pools_of s) = Some (\<lparr>base = free_list (pools_of s) n ! i, slen = n\<rparr>,
        (pools_of s)\<lparr>free := (free (pools_of s))(n \<mapsto> drop_nth i (free_list (pools_of s) n))\<rparr>)"
  then show ?thesis using pool_invD(3, 4) [OF assms nth_mem] by auto
qed

lemma GetBufferReader_empty: "pool_inv s \<Longrightarrow> buffered (fst (GetBufferReader choice n (readers s))) = []"
  using pool_invD(8) [of s n] nth_mem
  by (fastforce simp: GetBufferReader_def sync_Get_def NewReaderSize_def split: option.splits)


text \<open>Two slices of 4 bytes, one is put back and taken again, a reader is put and taken.\<close>

definition pool_example :: "pool_event list" where
  "pool_example =
     [Get None 4, Get (Some 0) 4, Put 1, Get (Some 0) 4, Put_reader (Some \<lparr>rsize = 16, buffered = ''x''\<rparr>),
      Put 0, Forget 4 0, Get None 4]"


end
