(* ===== verification/Spec2Isabelle.thy ===== *)
theory Spec2Isabelle
  imports JobCodec LrcpLifecycle SpeedDaemon IslServer IslLifecycle MobProxy MeansSession UdbMain BudgetChat ChatMain PrimeTime
    MainPrograms ServerMain BytePool
begin

text \<open>
  Verification of the protohackers servers: ten small network servers in Go, one per directory of
  the repository. Each server accepts connections or datagrams and runs its protocol; the servers
  share no code, but they are built from the same parts: a framing of the byte stream into lines or
  binary messages, a session per connection, and shared state behind a lock or a channel. The
  development has one theory per such part, on a layer of theories for what the code uses of Go.

  \<^bold>\<open>Shared layer.\<close> \<open>Prelude\<close>: machine types, swapping in a list, runs of event-driven components and
  the locale \<open>event_system\<close> (an invariant of the steps is an invariant of the runs), and the reference
  \<open>split_lines\<close> for everything that cuts a stream. \<open>Go_Heap\<close>: the algorithms of \<open>container/heap\<close> over
  an interface locale. \<open>Go_Strconv\<close>: decimal numbers. \<open>Go_Json\<close>: \<open>encoding/json\<close>, a parser and a printer
  of JSON texts that are proved to fit, and the decoding into structs. \<open>Go_Float\<close>: rounding of \<open>float64\<close>. \<open>Go_Bufio\<close>:
  \<open>bufio.Reader\<close> with the locale \<open>stream_map\<close> of transforming readers. \<open>Codec\<close>: the locale \<open>prefix_codec\<close>
  and the big-endian integers. \<open>Lifecycle\<close>: goroutines as guarded steps that interleave, with the locales
  \<open>guarded_system\<close> (invariants), \<open>draining\<close> (every schedule ends) and \<open>connection\<close>, \<open>blocking_connection\<close> (what a
  server needs of the goroutines of a connection to be shut down). \<open>TcpServer\<close>: \<open>Listen\<close> and \<open>Shutdown\<close> of the
  two TCP servers, and \<open>MainLoop\<close>: the \<open>main\<close> functions of the other programs, both over \<open>connection\<close>.
  \<open>BytePool\<close>: the three \<open>util/pool.go\<close>.

  \<^bold>\<open>9-job-centre.\<close> \<open>JobQueue\<close> models \<open>job_queue.go\<close>: \<open>JobQueues\<close> with its heaps of shared job objects, the
  locator map and the notifier channels. The queues interpret the heap locale; reachable states are
  heap ordered, objects know their positions, and every operation is a step of an abstract set of
  waiting jobs. \<open>QueueHandler\<close> models \<open>main.go\<close>: all operations of \<open>queueHandler\<close> and their interleavings at
  the locks; every job is in exactly one place and is never lost. \<open>RequestBuffer\<close> models the framing of
  \<open>proto/server.go\<close> (\<open>nextRequestBuffer\<close>, \<open>requestBuffer\<close>): requests are the lines of the stream and can be
  read back. \<open>JobDispatch\<close> models the goroutine of \<open>looper\<close> that decodes requests, calls the handler and
  writes the responses, over a parameter for what \<open>encoding/json\<close> makes of a text: every line has one answer.
  \<open>JobCodec\<close> makes that parameter concrete: the request and response types, and a job from the text of the
  put to the answer of the get. \<open>JobServer\<close> models the goroutines of \<open>looper\<close> and the channel between them,
  with \<open>NewServer\<close>, \<open>Listen\<close> and \<open>Shutdown\<close>: when the server drains, and the connections that never end.

  \<^bold>\<open>8-insecure-sockets-layer.\<close> \<open>IslCipher\<close> models \<open>isl/cipher.go\<close>: the five cipher operations, the chains of
  \<open>NewReader\<close> and \<open>NewWriter\<close> and \<open>ReadCipherSpec\<close>. The locale \<open>stream_cipher\<close> (reading undoes writing, however
  the stream is cut) is interpreted for one operation and for chains. \<open>IslServer\<close> models \<open>isl/server.go\<close>
  (\<open>handleConn\<close>) and the toy handler of \<open>main.go\<close>: the session end to end, and the choice of the toy.
  \<open>IslLifecycle\<close> models \<open>Listen\<close>, the goroutines of the connections and \<open>Shutdown\<close>, which waits for its clients.

  \<^bold>\<open>7-line-reversal.\<close> \<open>LrcpMessage\<close> models \<open>lrcp/message.go\<close> and \<open>util/number.go\<close>: marshalling with its size
  estimate and unmarshalling; the payloads that survive are characterised exactly. \<open>LrcpSession\<close> models
  \<open>lrcp/session.go\<close>, the routing of \<open>lrcp/server.go\<close> and the reversing handler: what a session receives and
  replies under loss, repetition and reordering, and the inputs on which the server panics. \<open>LrcpServer\<close> models
  the rest of \<open>lrcp/server.go\<close> and the session manager: a datagram as text, and the goroutines of \<open>Listen\<close>, of
  the datagrams and of the sessions with their locks, channels and wait groups, with an invariant of who waits for
  whom. \<open>LrcpLifecycle\<close> shows that a cancelled server ends under every schedule, up to one deadlock, what goes
  wrong when \<open>Shutdown\<close> or an ack comes at the wrong time, and how a datagram of the client is answered.

  \<^bold>\<open>6-speed-daemon.\<close> \<open>SpeedMessage\<close> models \<open>message.go\<close> as a prefix codec. \<open>SpeedDaemon\<close> models \<open>main.go\<close> and
  \<open>session.go\<close>: observations with their \<open>float64\<close> speeds, tickets, dispatcher channels, registration and
  heartbeats; no two tickets of a plate share a day, and tickets are offences and offences are ticketed.

  \<^bold>\<open>5-mob-in-the-middle.\<close> \<open>MobProxy\<close> models \<open>replaceBogusCoin\<close>, \<open>forward\<close> and the pipeline of two goroutines: the
  index loops agree with a word by word reference, and lines arrive rewritten and in order. \<open>MobConn\<close> models
  the four goroutines of a connection and their cancellation: when one ends, all end.

  \<^bold>\<open>4-unusual-database-program.\<close> \<open>UnusualDb\<close> models \<open>handlePacket\<close>: a query gives the last
  insertion. \<open>UdbMain\<close> models the workers, which read and handle packets concurrently, and \<open>main\<close>: the packets are
  answered as if in one order, and \<open>main\<close> returns after a signal.

  \<^bold>\<open>3-budget-chat.\<close> \<open>BudgetChat\<close> models the room, its sessions and the looper as steps that interleave at the
  lock and at the bounded channel: delivery, well-formedness, a deadlock, and users that never leave.
  \<open>ChatMain\<close> models the program around it, with only who waits for whom: after a signal \<open>main\<close> returns, or the
  channel is full for good since the looper has left.

  \<^bold>\<open>2-means-to-an-end.\<close> \<open>MeansSession\<close> models the messages and the session loop: the mean is exact, and the
  machine integers do not wrap.

  \<^bold>\<open>1-prime-time.\<close> \<open>PrimeTime\<close> models the requests with their own number type, the handler and the loop of a
  connection, with \<open>ProbablyPrime\<close> as a parameter: the handler agrees with a reference reading of the JSON text.

  \<^bold>\<open>0-smoke-test.\<close> \<open>SmokeTest\<close> models the two copying goroutines of a connection with the pipe between them:
  what is echoed is a beginning of what was received, and all of it for a client that waits.

  \<^bold>\<open>Mains.\<close> \<open>MainPrograms\<close> models the goroutines of the connections of \<open>1-prime-time\<close>, \<open>2-means-to-an-end\<close> and
  \<open>6-speed-daemon\<close> (with its listeners and heartbeats), and shows of these and of the mains of \<open>SmokeTest\<close> and
  \<open>MobConn\<close> that they return after a signal, under every schedule. \<open>ServerMain\<close> models the mains of \<open>9-job-centre\<close> and
  \<open>8-insecure-sockets-layer\<close>, with the goroutine of \<open>Listen\<close> and the exit status of the process.

  \<^bold>\<open>Conventions.\<close> An operation is a function of the state that returns the new state; errors, panics and
  blocking are values. Locks make their critical sections single steps; where a goroutine can wait
  inside one (a send on a full channel) the section is split there. Connections are lists of what
  their reads give, so that theorems hold for every way a stream can be cut. Loops that end are total
  functions with a termination proof; \<open>fill_chunks\<close>, \<open>read_chunks\<close>, \<open>trim_packet\<close> and \<open>burst\<close>, which need not
  end on every argument, are \<open>partial_function\<close>s whose properties say that they return; \<open>request_loop\<close> has
  fuel, and more fuel than the stream has line feeds is enough, since each request takes one.

  \<^bold>\<open>Bounds.\<close> The parsers of \<open>Go_Json\<close> have fuel: twice the length of the text and one more, which
  is enough since every call of a parser takes at least one byte of each second one. The life cycles need no
  fuel: \<open>drains\<close> says that a number exists that bounds every run of the program's own steps.

  \<^bold>\<open>Not modelled.\<close> Resolving addresses and the failure of the first \<open>ListenTCP\<close> in the mains of the programs without a
  server type. The main of \<open>7-line-reversal\<close>, which is that of \<open>ServerMain\<close> around another server. The duration of
  timers: a retransmission or a heartbeat may happen at any moment. The debug wrappers of \<open>8-insecure-sockets-layer\<close>, which a constant disables. Logging.
\<close>

end
